(* ===== verification/Tick_Prelude.thy ===== *)
theory Tick_Prelude
  imports Main "HOL-Library.Multiset"
begin

text \<open>
  What the components share: the collections their proofs draw on, and the generic facts
  about lists that a table of rows needs: an UPDATE over the rows that match a predicate,
  an ORDER BY with a LIMIT, and keys that no two rows share.
\<close>

named_theorems table_simps \<open>rewriting over tables updated by a WHERE clause\<close>
named_theorems row_laws \<open>what one row keeps under an update of it\<close>
named_theorems step_inv \<open>operations that keep the database invariant\<close>

section \<open>UPDATE ... SET ... WHERE\<close>

definition update_where :: "('a \<Rightarrow> bool) \<Rightarrow> ('a \<Rightarrow> 'a) \<Rightarrow> 'a list \<Rightarrow> 'a list" where
  "update_where p f rows = map (\<lambda>r. if p r then f r else r) rows"

definition rows_affected :: "('a \<Rightarrow> bool) \<Rightarrow> 'a list \<Rightarrow> nat" where
  "rows_affected p rows = length (filter p rows)"

lemma update_where_Nil [simp]: "update_where p f [] = []"
  by (simp add: update_where_def)

lemma update_where_Cons [simp]:
  "update_where p f (r # rs) = (if p r then f r else r) # update_where p f rs"
  by (simp add: update_where_def)

lemma length_update_where [simp]: "length (update_where p f rows) = length rows"
  by (simp add: update_where_def)

lemma set_update_where [table_simps]:
  "set (update_where p f rows) = f ` {r \<in> set rows. p r} \<union> {r \<in> set rows. \<not> p r}"
  by (auto simp: update_where_def)

lemma map_update_where [table_simps]:
  assumes "\<And>r. k (f r) = k r"
  shows "map k (update_where p f rows) = map k rows"
  using assms by (simp add: update_where_def)

lemma update_where_none: "(\<And>r. r \<in> set rows \<Longrightarrow> \<not> p r) \<Longrightarrow> update_where p f rows = rows"
  by (induction rows) auto

lemma rows_affected_zero: "rows_affected p rows = 0 \<longleftrightarrow> (\<forall>r \<in> set rows. \<not> p r)"
  by (auto simp: rows_affected_def filter_empty_conv)

lemma rows_affected_le: "rows_affected p rows \<le> length rows"
  by (simp add: rows_affected_def)

lemma update_where_zero: "rows_affected p rows = 0 \<Longrightarrow> update_where p f rows = rows"
  by (auto simp: rows_affected_zero intro: update_where_none)

lemma update_where_pointwise:
  assumes "\<And>r. r \<in> set rows \<Longrightarrow> p r \<Longrightarrow> P (f r)"
    and "\<And>r. r \<in> set rows \<Longrightarrow> P r"
    and "x \<in> set (update_where p f rows)"
  shows "P x"
  using assms by (auto simp: set_update_where)

section \<open>Rows addressed by a key\<close>

definition by_key :: "('a \<Rightarrow> 'k) \<Rightarrow> 'k \<Rightarrow> 'a list \<Rightarrow> 'a option" where
  "by_key k v rows = find (\<lambda>r. k r = v) rows"

lemma by_key_Nil [simp]: "by_key k v [] = None"
  by (simp add: by_key_def)

lemma by_key_Cons [simp]: "by_key k v (r # rs) = (if k r = v then Some r else by_key k v rs)"
  by (simp add: by_key_def)

lemma by_key_SomeD: "by_key k v rows = Some r \<Longrightarrow> r \<in> set rows \<and> k r = v"
  by (auto simp: by_key_def find_Some_iff)

lemma by_key_None: "by_key k v rows = None \<longleftrightarrow> v \<notin> k ` set rows"
  by (auto simp: by_key_def find_None_iff)

lemma by_key_append:
  "by_key k v (xs @ ys) = (case by_key k v xs of None \<Rightarrow> by_key k v ys | Some r \<Rightarrow> Some r)"
  by (induction xs) auto

lemma by_key_distinct:
  "distinct (map k rows) \<Longrightarrow> r \<in> set rows \<Longrightarrow> by_key k (k r) rows = Some r"
  by (induction rows) (auto simp: image_iff)

lemma by_key_iff:
  "distinct (map k rows) \<Longrightarrow> by_key k v rows = Some r \<longleftrightarrow> r \<in> set rows \<and> k r = v"
  by (auto dest: by_key_SomeD by_key_distinct)

lemma by_key_update_where [table_simps]:
  assumes "\<And>r. k (f r) = k r"
  shows "by_key k v (update_where p f rows) =
    map_option (\<lambda>r. if p r then f r else r) (by_key k v rows)"
  using assms by (induction rows) auto

lemma distinct_key_eq:
  "distinct (map k rows) \<Longrightarrow> r \<in> set rows \<Longrightarrow> s \<in> set rows \<Longrightarrow> k r = k s \<Longrightarrow> r = s"
  by (metis by_key_distinct option.inject)

lemma filter_key_singleton:
  "distinct (map k rows) \<Longrightarrow> filter (\<lambda>r. k r = v) rows =
    (case by_key k v rows of None \<Rightarrow> [] | Some r \<Rightarrow> [r])"
proof (induction rows)
  case Nil
  then show ?case by simp
next
  case (Cons r rs)
  have "filter (\<lambda>x. k x = k r) rs = []" if "k r \<notin> k ` set rs"
    using that by (metis (mono_tags, lifting) filter_False image_eqI)
  with Cons show ?case by auto
qed

lemma rows_affected_key:
  assumes "distinct (map k rows)"
  shows "rows_affected (\<lambda>r. k r = v \<and> q r) rows =
    (case by_key k v rows of None \<Rightarrow> 0 | Some r \<Rightarrow> if q r then 1 else 0)"
proof -
  have "filter (\<lambda>r. k r = v \<and> q r) rows = filter q (filter (\<lambda>r. k r = v) rows)"
    by simp
  then show ?thesis
    by (auto simp: rows_affected_def filter_key_singleton [OF assms] simp del: filter_filter
        split: option.splits)
qed

section \<open>ORDER BY ... LIMIT\<close>

lemma take_sort_key_le:
  assumes "x \<in> set (take n (sort_key k xs))" and "y \<in> set (drop n (sort_key k xs))"
  shows "k x \<le> k y"
proof -
  have "sorted (map k (take n (sort_key k xs)) @ map k (drop n (sort_key k xs)))"
    by (simp flip: map_append)
  then show ?thesis using assms by (auto simp: sorted_append)
qed

lemma sorted_take_sort_key: "sorted (map k (take n (sort_key k xs)))"
  by (simp add: sorted_wrt_take flip: take_map)

lemma set_take_sort_key: "set (take n (sort_key k xs)) \<subseteq> set xs"
  using set_take_subset [of n "sort_key k xs"] by simp

lemma distinct_map_take_sort_key:
  assumes "distinct (map g xs)"
  shows "distinct (map g (take n (sort_key k xs)))"
proof -
  have "mset (map g (sort_key k xs)) = mset (map g xs)" by simp
  then have "distinct (map g (sort_key k xs))"
    using assms by (metis mset_eq_imp_distinct_iff)
  then show ?thesis by (simp flip: take_map)
qed

lemma distinct_map_filterI: "distinct (map g xs) \<Longrightarrow> distinct (map g (filter p xs))"
  by (induction xs) auto

section \<open>Counting\<close>

lemma length_filter_partition:
  "length (filter p xs) + length (filter (\<lambda>x. \<not> p x) xs) = length xs"
  by (rule sum_length_filter_compl)

lemma length_filter_mono:
  "(\<And>x. x \<in> set xs \<Longrightarrow> p x \<Longrightarrow> q x) \<Longrightarrow> length (filter p xs) \<le> length (filter q xs)"
  by (induction xs) (auto simp: le_SucI)

end
