(* ===== verification/Go_Strings.thy ===== *)
theory Go_Strings
  imports Tick_Prelude
begin

text \<open>
  The part of Go's strings and strconv packages that the program calls. A Go string is a
  sequence of bytes, and so is an Isabelle string (a char is a byte), hence a length is a
  byte count on both sides.
\<close>

section \<open>Decimal digits\<close>

definition digit :: "nat \<Rightarrow> char" where
  "digit n = char_of (48 + n)"

definition digit_val :: "char \<Rightarrow> nat" where
  "digit_val c = of_char c - 48"

definition is_digit :: "char \<Rightarrow> bool" where
  "is_digit c \<longleftrightarrow> 48 \<le> (of_char c :: nat) \<and> (of_char c :: nat) \<le> 57"

lemma of_char_digit: "n < 10 \<Longrightarrow> of_char (digit n) = 48 + n"
  by (simp add: digit_def)

lemma digit_val_digit [simp]: "n < 10 \<Longrightarrow> digit_val (digit n) = n"
  by (simp add: digit_val_def of_char_digit)

lemma is_digit_digit [simp]: "n < 10 \<Longrightarrow> is_digit (digit n)"
  by (simp add: is_digit_def of_char_digit)

lemma digit_inj: "m < 10 \<Longrightarrow> n < 10 \<Longrightarrow> digit m = digit n \<longleftrightarrow> m = n"
  by (metis digit_val_digit)

fun show_nat :: "nat \<Rightarrow> string" where
  "show_nat n = (if n < 10 then [digit n] else show_nat (n div 10) @ [digit (n mod 10)])"

declare show_nat.simps [simp del]

definition read_digits :: "string \<Rightarrow> nat" where
  "read_digits s = foldl (\<lambda>acc c. 10 * acc + digit_val c) 0 s"

lemma read_digits_snoc [simp]: "read_digits (s @ [c]) = 10 * read_digits s + digit_val c"
  by (simp add: read_digits_def)

lemma read_digits_Nil [simp]: "read_digits [] = 0"
  by (simp add: read_digits_def)

lemma read_show_nat [simp]: "read_digits (show_nat n) = n"
proof (induction n rule: show_nat.induct)
  case (1 n)
  show ?case
  proof (cases "n < 10")
    case True
    then show ?thesis
      using read_digits_snoc [of "[]" "digit n"] by (simp add: show_nat.simps)
  next
    case False
    then show ?thesis
      using "1.IH" by (subst show_nat.simps) simp
  qed
qed

lemma show_nat_digits: "c \<in> set (show_nat n) \<Longrightarrow> is_digit c"
proof (induction n rule: show_nat.induct)
  case (1 n)
  then show ?case by (subst (asm) show_nat.simps) (auto split: if_splits)
qed

lemma show_nat_nonempty [simp]: "show_nat n \<noteq> []"
  by (subst show_nat.simps) simp

lemma show_nat_inj: "show_nat m = show_nat n \<longleftrightarrow> m = n"
  by (metis read_show_nat)

lemma show_nat_length_le: "n < 10 ^ Suc k \<Longrightarrow> length (show_nat n) \<le> Suc k"
proof (induction k arbitrary: n)
  case 0
  then show ?case by (simp add: show_nat.simps)
next
  case (Suc k)
  then have "n div 10 < 10 ^ Suc k" by (simp add: less_mult_imp_div_less mult.commute)
  then show ?case using Suc.IH by (subst show_nat.simps) auto
qed

section \<open>strconv.Itoa, and the padded integers of time.Format\<close>

definition Itoa :: "int \<Rightarrow> string" where
  "Itoa i = (if i < 0 then CHR ''-'' # show_nat (nat (- i)) else show_nat (nat i))"

lemma Itoa_inj: "Itoa i = Itoa j \<longleftrightarrow> i = j"
proof
  assume eq: "Itoa i = Itoa j"
  have nodash: "show_nat n \<noteq> CHR ''-'' # s" for n s
  proof
    assume "show_nat n = CHR ''-'' # s"
    then have "is_digit (CHR ''-'')" using show_nat_digits [of "CHR ''-''" n] by simp
    then show False by (simp add: is_digit_def)
  qed
  from eq show "i = j"
    by (auto simp: Itoa_def show_nat_inj nodash nodash [symmetric] split: if_splits)
qed simp

definition pad0 :: "nat \<Rightarrow> nat \<Rightarrow> string" where
  "pad0 w n = replicate (w - length (show_nat n)) (CHR ''0'') @ show_nat n"

lemma read_zeros: "read_digits (replicate k (CHR ''0'') @ s) = read_digits s"
proof -
  have "digit_val (CHR ''0'') = 0" by (simp add: digit_val_def)
  then have "foldl (\<lambda>acc c. 10 * acc + digit_val c) 0 (replicate k (CHR ''0'')) = 0"
    by (induction k) simp_all
  then show ?thesis by (simp add: read_digits_def)
qed

lemma pad0_inj: "pad0 w m = pad0 w n \<longleftrightarrow> m = n"
  by (metis pad0_def read_show_nat read_zeros)

lemma pad0_digits: "c \<in> set (pad0 w n) \<Longrightarrow> is_digit c"
  by (auto simp: pad0_def is_digit_def dest: show_nat_digits)

lemma length_pad0: "n < 10 ^ Suc k \<Longrightarrow> length (pad0 (Suc k) n) = Suc k"
  using show_nat_length_le [of n k] by (simp add: pad0_def)

lemma length_pad0_2: "n < 100 \<Longrightarrow> length (pad0 2 n) = 2"
  using length_pad0 [of n 1] by (simp add: numeral_2_eq_2)

end
