(* ===== verification/Go_Time.thy ===== *)
theory Go_Time
  imports Go_Strings
begin

text \<open>
  The part of Go's time package that the program calls: instants and durations, the
  civil date of an instant, the two layouts the program formats with, and a time zone as
  the list of offset changes that Location.lookup searches. An instant is the number of
  microseconds since the Unix epoch, the resolution of a TIMESTAMPTZ column; Go's extra
  nanosecond digits are lost when a value is stored, and are left out.
\<close>

type_synonym instant = int
type_synonym duration = int

definition second :: duration where
  "second = 1000000"

definition minute :: duration where
  "minute = 60 * second"

definition hour :: duration where
  "hour = 3600 * second"

definition day :: duration where
  "day = 86400 * second"

text \<open>Go's zero Time is midnight on January 1 of year 1, UTC.\<close>

definition zero_time :: instant where
  "zero_time = - 62135596800 * second"

definition IsZero :: "instant \<Rightarrow> bool" where
  "IsZero t \<longleftrightarrow> t = zero_time"

section \<open>The civil date of a day count\<close>

record civil =
  Year :: int
  Month :: int
  Day :: int

definition leap_year :: "int \<Rightarrow> bool" where
  "leap_year y \<longleftrightarrow> y mod 4 = 0 \<and> (y mod 100 \<noteq> 0 \<or> y mod 400 = 0)"

definition month_lengths :: "bool \<Rightarrow> int list" where
  "month_lengths leap = [31, if leap then 29 else 28, 31, 30, 31, 30, 31, 31, 30, 31, 30, 31]"

fun month_day :: "int list \<Rightarrow> int \<Rightarrow> int \<Rightarrow> int \<times> int" where
  "month_day [] m yd = (m, yd + 1)"
| "month_day (l # ls) m yd = (if yd < l then (m, yd + 1) else month_day ls (m + 1) (yd - l))"

text \<open>
  The days since January 1 of year 1 split into cycles of 400, 100, 4 and 1 years; the
  last century of a cycle and the last year of four are one day longer, hence the cuts.
\<close>

definition year_yday :: "int \<Rightarrow> int \<times> int" where
  "year_yday d =
    (let n400 = d div 146097; r = d mod 146097;
         n100 = min 3 (r div 36524); r = r - 36524 * n100;
         n4 = r div 1461; r = r mod 1461;
         n1 = min 3 (r div 365)
     in (400 * n400 + 100 * n100 + 4 * n4 + n1 + 1, r - 365 * n1))"

definition days_before_year :: "int \<Rightarrow> int" where
  "days_before_year y =
    365 * (y - 1) + (y - 1) div 4 - (y - 1) div 100 + (y - 1) div 400"

text \<open>A cycle cut into pieces of length k, of which the last may be longer.\<close>

lemma cut_cycle:
  fixes r k n :: int
  assumes "0 \<le> r" and "0 < k" and "0 \<le> n"
  shows "0 \<le> min n (r div k)" and "min n (r div k) \<le> n" and "0 \<le> r - k * min n (r div k)"
    and "min n (r div k) < n \<Longrightarrow> r - k * min n (r div k) < k"
proof -
  have le: "k * (r div k) \<le> r" and lt: "r < k * (r div k) + k"
    using mult_div_mod_eq [of k r] pos_mod_bound [of k r] pos_mod_sign [of k r] assms
    by linarith+
  have "k * min n (r div k) \<le> k * (r div k)" using assms by (simp add: mult_left_mono)
  with le show "0 \<le> r - k * min n (r div k)" by simp
  show "0 \<le> min n (r div k)" using assms by (simp add: pos_imp_zdiv_nonneg_iff)
  show "min n (r div k) \<le> n" by simp
  show "r - k * min n (r div k) < k" if "min n (r div k) < n"
  proof -
    from that have "min n (r div k) = r div k" by linarith
    then show ?thesis using lt by simp
  qed
qed

lemma year_yday_parts:
  assumes "year_yday d = (y, yd)"
  obtains a b c e where "d = 146097 * a + 36524 * b + 1461 * c + 365 * e + yd"
    and "y = 400 * a + 100 * b + 4 * c + e + 1"
    and "0 \<le> b" "b \<le> 3" "0 \<le> c" "c \<le> 24" "0 \<le> e" "e \<le> 3" "0 \<le> yd" "yd \<le> 365"
    and "yd = 365 \<longrightarrow> e = 3 \<and> (c = 24 \<longrightarrow> b = 3)"
proof -
  define a r where "a = d div 146097" and "r = d mod 146097"
  have d: "d = 146097 * a + r" and r: "0 \<le> r" "r < 146097"
    by (simp_all add: a_def r_def)
  define b where "b = min 3 (r div 36524)"
  define r2 where "r2 = r - 36524 * b"
  have b: "0 \<le> b" "b \<le> 3" "0 \<le> r2" "b < 3 \<Longrightarrow> r2 < 36524"
    using cut_cycle [of r 36524 3] r unfolding b_def r2_def by simp_all
  have r2: "r2 \<le> 36524"
  proof (cases "b < 3")
    case False
    then have "b = 3" using b by linarith
    then show ?thesis using r r2_def by linarith
  qed (use b in linarith)
  define c r3 where "c = r2 div 1461" and "r3 = r2 mod 1461"
  have c: "r2 = 1461 * c + r3" "0 \<le> r3" "r3 < 1461"
    by (simp_all add: c_def r3_def)
  have c': "0 \<le> c" "c \<le> 24" using c b r2 by linarith+
  define e where "e = min 3 (r3 div 365)"
  have e: "0 \<le> e" "e \<le> 3" "0 \<le> r3 - 365 * e" "e < 3 \<Longrightarrow> r3 - 365 * e < 365"
    using cut_cycle [of r3 365 3] c unfolding e_def by simp_all
  have "year_yday d = (400 * a + 100 * b + 4 * c + e + 1, r3 - 365 * e)"
    by (simp only: year_yday_def Let_def a_def b_def c_def e_def r_def r2_def r3_def)
  with assms have y: "y = 400 * a + 100 * b + 4 * c + e + 1" and yd: "yd = r3 - 365 * e"
    by simp_all
  have last: "yd \<le> 365"
  proof (cases "e < 3")
    case False
    then have "e = 3" using e by linarith
    then show ?thesis using c yd by linarith
  qed (use e yd in linarith)
  have "e = 3 \<and> (c = 24 \<longrightarrow> b = 3)" if "yd = 365"
  proof -
    have "e = 3" using e that yd by linarith
    moreover have "b = 3" if "c = 24"
    proof -
      have "r2 = 36524" using c(1) yd \<open>e = 3\<close> \<open>yd = 365\<close> that by simp
      then show ?thesis using b by linarith
    qed
    ultimately show ?thesis by blast
  qed
  then have full: "yd = 365 \<longrightarrow> e = 3 \<and> (c = 24 \<longrightarrow> b = 3)" by blast
  show thesis
  proof (rule that)
    show "d = 146097 * a + 36524 * b + 1461 * c + 365 * e + yd"
      using d r2_def c yd by linarith
    show "0 \<le> yd" using e yd by linarith
  qed (fact y b c' e last full)+
qed

lemma days_before_year_yday:
  assumes "year_yday d = (y, yd)"
  shows "days_before_year y + yd = d"
proof -
  obtain a b c e where d: "d = 146097 * a + 36524 * b + 1461 * c + 365 * e + yd"
      and y: "y - 1 = 400 * a + 100 * b + 4 * c + e"
      and le: "0 \<le> b" "b \<le> 3" "0 \<le> c" "c \<le> 24" "0 \<le> e" "e \<le> 3"
    by (rule year_yday_parts [OF assms]) auto
  have "(y - 1) div 4 = 100 * a + 25 * b + c" and "(y - 1) div 100 = 4 * a + b"
    and "(y - 1) div 400 = a"
    using y le by linarith+
  then show ?thesis using y d by (simp add: days_before_year_def)
qed

lemma year_yday_inj: "year_yday d = year_yday d' \<Longrightarrow> d = d'"
  by (metis days_before_year_yday prod.exhaust)

lemma sum_month_lengths [simp]: "sum_list (month_lengths leap) = (if leap then 366 else 365)"
  by (simp add: month_lengths_def)

lemma year_yday_range:
  assumes "year_yday d = (y, yd)"
  shows "0 \<le> yd" and "yd < sum_list (month_lengths (leap_year y))"
proof -
  obtain a b c e where "d = 146097 * a + 36524 * b + 1461 * c + 365 * e + yd"
      and y: "y = 400 * a + 100 * b + 4 * c + e + 1"
      and le: "0 \<le> b" "b \<le> 3" "0 \<le> c" "c \<le> 24" "0 \<le> e" "e \<le> 3" "0 \<le> yd" "yd \<le> 365"
      and full: "yd = 365 \<longrightarrow> e = 3 \<and> (c = 24 \<longrightarrow> b = 3)"
    by (rule year_yday_parts [OF assms])
  show "0 \<le> yd" by (rule le)
  have "leap_year y" if "yd = 365"
  proof -
    have e: "e = 3" and c: "c = 24 \<longrightarrow> b = 3" using full that by auto
    have "y = 4 * (100 * a + 25 * b + c + 1)" using y e by simp
    then have "y mod 4 = 0" by simp
    moreover have "y mod 400 = 0" if "y mod 100 = 0"
    proof -
      define j where "j = y div 100 - 4 * a - b"
      have "y = 100 * (y div 100)" using that mult_div_mod_eq [of 100 y] by linarith
      then have "100 * (c + 1) = 100 * (25 * j)"
        using y e unfolding j_def by (simp add: algebra_simps)
      then have "c + 1 = 25 * j" by simp
      then have "c = 24" using le by presburger
      then have "y = 400 * (a + 1)" using y e c by simp
      then show ?thesis by simp
    qed
    ultimately show ?thesis unfolding leap_year_def by auto
  qed
  then show "yd < sum_list (month_lengths (leap_year y))" using le by fastforce
qed

lemma month_day_inj:
  "month_day ls m yd = month_day ls m yd' \<Longrightarrow> yd = yd'"
proof (induction ls arbitrary: m yd yd')
  case (Cons l ls)
  have ge: "m \<le> fst (month_day ls m yd)" for ls m yd
  proof (induction ls arbitrary: m yd)
    case (Cons l' ls')
    show ?case using Cons.IH [of "m + 1" "yd - l'"] by auto
  qed simp
  show ?case
    using Cons.prems Cons.IH [of "m + 1" "yd - l" "yd' - l"]
      ge [where m = "m + 1" and ls = ls and yd = "yd - l"]
      ge [where m = "m + 1" and ls = ls and yd = "yd' - l"]
    by (auto split: if_splits dest: arg_cong [where f = fst])
qed simp

lemma month_day_range:
  "month_day ls m yd = (mm, dd) \<Longrightarrow> 0 \<le> yd \<Longrightarrow> yd < sum_list ls \<Longrightarrow>
    m \<le> mm \<and> mm < m + int (length ls) \<and> 1 \<le> dd \<and> (\<exists>l \<in> set ls. dd \<le> l)"
proof (induction ls arbitrary: m yd)
  case (Cons l ls)
  then show ?case using Cons.IH [of "m + 1" "yd - l"] by (fastforce split: if_splits)
qed simp

definition civil_of_days :: "int \<Rightarrow> civil" where
  "civil_of_days d =
    (let (y, yd) = year_yday (d + 719162);
         (m, dd) = month_day (month_lengths (leap_year y)) 1 yd
     in \<lparr>Year = y, Month = m, Day = dd\<rparr>)"

lemma civil_of_days_inj: "civil_of_days d = civil_of_days d' \<Longrightarrow> d = d'"
proof -
  assume eq: "civil_of_days d = civil_of_days d'"
  obtain y yd y' yd' where y: "year_yday (d + 719162) = (y, yd)"
      and y': "year_yday (d' + 719162) = (y', yd')"
    by (metis prod.exhaust)
  from eq have "y = y'"
    and "month_day (month_lengths (leap_year y)) 1 yd = month_day (month_lengths (leap_year y')) 1 yd'"
    by (auto simp: civil_of_days_def y y' split: prod.splits)
  then have "(y, yd) = (y', yd')" using month_day_inj by auto
  with y y' show "d = d'" using year_yday_inj [of "d + 719162" "d' + 719162"] by simp
qed

lemma civil_of_days_range:
  "1 \<le> Month (civil_of_days d) \<and> Month (civil_of_days d) \<le> 12 \<and>
   1 \<le> Day (civil_of_days d) \<and> Day (civil_of_days d) \<le> 31"
proof -
  obtain y yd where y: "year_yday (d + 719162) = (y, yd)" by (metis prod.exhaust)
  obtain m dd where m: "month_day (month_lengths (leap_year y)) 1 yd = (m, dd)"
    by (metis prod.exhaust)
  have "1 \<le> m \<and> m < 1 + int (length (month_lengths (leap_year y))) \<and> 1 \<le> dd \<and>
      (\<exists>l \<in> set (month_lengths (leap_year y)). dd \<le> l)"
    by (rule month_day_range [OF m year_yday_range(1) [OF y] year_yday_range(2) [OF y]])
  then have "1 \<le> m \<and> m \<le> 12 \<and> 1 \<le> dd \<and> dd \<le> 31"
    by (auto simp: month_lengths_def split: if_splits)
  then show ?thesis by (simp add: civil_of_days_def y m)
qed

text \<open>Back from a civil date to its day, as time.Date computes it.\<close>

definition days_of_civil :: "civil \<Rightarrow> int" where
  "days_of_civil c =
    days_before_year (Year c)
    + sum_list (take (nat (Month c - 1)) (month_lengths (leap_year (Year c))))
    + Day c - 1 - 719162"

lemma month_day_sum:
  "month_day ls m yd = (mm, dd) \<Longrightarrow> 0 \<le> yd \<Longrightarrow> yd < sum_list ls \<Longrightarrow>
    sum_list (take (nat (mm - m)) ls) + dd - 1 = yd"
proof (induction ls arbitrary: m yd)
  case (Cons l ls)
  show ?case
  proof (cases "yd < l")
    case False
    with Cons.prems have rec: "month_day ls (m + 1) (yd - l) = (mm, dd)"
      and "0 \<le> yd - l" "yd - l < sum_list ls" by auto
    with Cons.IH have "sum_list (take (nat (mm - (m + 1))) ls) + dd - 1 = yd - l" by blast
    moreover have "m + 1 \<le> mm"
      using month_day_range [OF rec \<open>0 \<le> yd - l\<close> \<open>yd - l < sum_list ls\<close>] by simp
    then have "nat (mm - m) = Suc (nat (mm - (m + 1)))" by linarith
    ultimately show ?thesis by simp
  qed (use Cons.prems in auto)
qed simp

lemma days_of_civil_of_days [simp]: "days_of_civil (civil_of_days d) = d"
proof -
  obtain y yd where y: "year_yday (d + 719162) = (y, yd)" by (metis prod.exhaust)
  obtain m dd where m: "month_day (month_lengths (leap_year y)) 1 yd = (m, dd)"
    by (metis prod.exhaust)
  have "sum_list (take (nat (m - 1)) (month_lengths (leap_year y))) + dd - 1 = yd"
    by (rule month_day_sum [OF m year_yday_range(1) [OF y] year_yday_range(2) [OF y]])
  then show ?thesis
    using days_before_year_yday [OF y] by (simp add: days_of_civil_def civil_of_days_def y m)
qed

section \<open>Wall clocks and their text\<close>

text \<open>
  A wall clock reading is kept as the instant that would show it in UTC: its date and its
  time of day are then the quotient and the remainder by a day.
\<close>

record clock_reading =
  date :: civil
  Hour :: int
  Minute :: int
  Second :: int
  Micro :: int

definition reading_of :: "instant \<Rightarrow> clock_reading" where
  "reading_of w =
    (let s = w div second
     in \<lparr>date = civil_of_days (s div 86400), Hour = s mod 86400 div 3600,
         Minute = s mod 3600 div 60, Second = s mod 60, Micro = w mod second\<rparr>)"

definition wall_of :: "clock_reading \<Rightarrow> instant" where
  "wall_of r =
    (86400 * days_of_civil (date r) + 3600 * Hour r + 60 * Minute r + Second r) * second
    + Micro r"

lemma second_pos [simp]: "0 < second" "second \<noteq> 0"
  by (simp_all add: second_def)

lemma split_seconds:
  fixes s :: int
  shows "86400 * (s div 86400) + 3600 * (s mod 86400 div 3600) + 60 * (s mod 3600 div 60)
    + s mod 60 = s"
proof -
  have "s mod 86400 mod 3600 = s mod 3600" and "s mod 3600 mod 60 = s mod 60"
    by (simp_all add: mod_mod_cancel)
  then show ?thesis
    using mult_div_mod_eq [of 86400 s] mult_div_mod_eq [of 3600 "s mod 86400"]
      mult_div_mod_eq [of 60 "s mod 3600"]
    by linarith
qed

lemma wall_of_reading_parts:
  "wall_of (reading_of w\<lparr>Micro := u\<rparr>) = (w div second) * second + u"
proof -
  define s where "s = w div second"
  have "reading_of w\<lparr>Micro := u\<rparr> =
      \<lparr>date = civil_of_days (s div 86400), Hour = s mod 86400 div 3600,
       Minute = s mod 3600 div 60, Second = s mod 60, Micro = u\<rparr>"
    by (simp add: reading_of_def Let_def s_def)
  then have "wall_of (reading_of w\<lparr>Micro := u\<rparr>) =
      (86400 * (s div 86400) + 3600 * (s mod 86400 div 3600) + 60 * (s mod 3600 div 60)
        + s mod 60) * second + u"
    by (simp only: wall_of_def clock_reading.simps days_of_civil_of_days)
  then show ?thesis by (simp only: split_seconds s_def)
qed

lemma wall_of_reading [simp]: "wall_of (reading_of w) = w"
proof -
  have "r\<lparr>Micro := Micro r\<rparr> = r" for r :: clock_reading by simp
  then have "wall_of (reading_of w) = (w div second) * second + Micro (reading_of w)"
    using wall_of_reading_parts [where w = w and u = "Micro (reading_of w)"] by metis
  also have "Micro (reading_of w) = w mod second" by (simp add: reading_of_def Let_def)
  finally show ?thesis by simp
qed

lemma wall_of_reading_second: "wall_of (reading_of w\<lparr>Micro := 0\<rparr>) = (w div second) * second"
  using wall_of_reading_parts [where w = w and u = 0] by (simp only: add_0_right)

definition year_text :: "int \<Rightarrow> string" where
  "year_text y = (if y < 0 then CHR ''-'' # pad0 4 (nat (- y)) else pad0 4 (nat y))"

lemma year_text_inj: "year_text y = year_text y' \<longleftrightarrow> y = y'"
proof
  assume eq: "year_text y = year_text y'"
  have nodash: "pad0 w n \<noteq> CHR ''-'' # s" for w n s
  proof
    assume "pad0 w n = CHR ''-'' # s"
    then have "is_digit (CHR ''-'')" using pad0_digits [of "CHR ''-''" w n] by simp
    then show False by (simp add: is_digit_def)
  qed
  from eq show "y = y'"
    by (auto simp: year_text_def pad0_inj nodash nodash [symmetric] split: if_splits)
qed simp

text \<open>The layout 2006-01-02T15:04:05 of the wall clock w.\<close>

definition time_text :: "clock_reading \<Rightarrow> string" where
  "time_text r =
    ''-'' @ pad0 2 (nat (Month (date r))) @ ''-'' @ pad0 2 (nat (Day (date r))) @ ''T''
    @ pad0 2 (nat (Hour r)) @ '':'' @ pad0 2 (nat (Minute r)) @ '':'' @ pad0 2 (nat (Second r))"

definition Format_wall :: "instant \<Rightarrow> string" where
  "Format_wall w = year_text (Year (date (reading_of w))) @ time_text (reading_of w)"

text \<open>RFC3339 of an instant in UTC: the zone is written Z.\<close>

definition Format_RFC3339_UTC :: "instant \<Rightarrow> string" where
  "Format_RFC3339_UTC t = Format_wall t @ ''Z''"

definition reading_ok :: "clock_reading \<Rightarrow> bool" where
  "reading_ok r \<longleftrightarrow> 1 \<le> Month (date r) \<and> Month (date r) \<le> 12 \<and> 1 \<le> Day (date r)
    \<and> Day (date r) \<le> 31 \<and> 0 \<le> Hour r \<and> Hour r < 24 \<and> 0 \<le> Minute r \<and> Minute r < 60
    \<and> 0 \<le> Second r \<and> Second r < 60"

lemma reading_of_ok: "reading_ok (reading_of w)"
proof -
  have "0 \<le> x div 3600 \<and> x div 3600 < 24" if "0 \<le> x" "x < 86400" for x :: int
    using that mult_div_mod_eq [of 3600 x] pos_mod_bound [of 3600 x] pos_mod_sign [of 3600 x]
    by linarith
  moreover have "0 \<le> x div 60 \<and> x div 60 < 60" if "0 \<le> x" "x < 3600" for x :: int
    using that mult_div_mod_eq [of 60 x] pos_mod_bound [of 60 x] pos_mod_sign [of 60 x]
    by linarith
  ultimately have "0 \<le> w div second mod 86400 div 3600 \<and> w div second mod 86400 div 3600 < 24"
    and "0 \<le> w div second mod 3600 div 60 \<and> w div second mod 3600 div 60 < 60"
    by simp_all
  then show ?thesis
    using civil_of_days_range by (simp add: reading_ok_def reading_of_def Let_def)
qed

lemma length_pad0_int: "0 \<le> i \<Longrightarrow> i < 100 \<Longrightarrow> length (pad0 2 (nat i)) = 2"
  by (simp add: length_pad0_2)

lemma pad0_append_inj:
  "0 \<le> i \<Longrightarrow> i < 100 \<Longrightarrow> 0 \<le> j \<Longrightarrow> j < 100 \<Longrightarrow>
    pad0 2 (nat i) @ xs = pad0 2 (nat j) @ ys \<longleftrightarrow> i = j \<and> xs = ys"
  by (auto simp: append_eq_append_conv length_pad0_int pad0_inj)

lemma time_text_length: "reading_ok r \<Longrightarrow> length (time_text r) = 15"
  by (simp add: time_text_def reading_ok_def length_pad0_int)

lemma time_text_inj:
  assumes "reading_ok r" and "reading_ok r'" and "time_text r = time_text r'"
  shows "Month (date r) = Month (date r') \<and> Day (date r) = Day (date r')
    \<and> Hour r = Hour r' \<and> Minute r = Minute r' \<and> Second r = Second r'"
proof -
  from assms(3) have
    "pad0 2 (nat (Month (date r))) @ ''-'' @ pad0 2 (nat (Day (date r))) @ ''T''
      @ pad0 2 (nat (Hour r)) @ '':'' @ pad0 2 (nat (Minute r)) @ '':''
      @ pad0 2 (nat (Second r)) @ []
    = pad0 2 (nat (Month (date r'))) @ ''-'' @ pad0 2 (nat (Day (date r'))) @ ''T''
      @ pad0 2 (nat (Hour r')) @ '':'' @ pad0 2 (nat (Minute r')) @ '':''
      @ pad0 2 (nat (Second r')) @ []"
    by (simp add: time_text_def)
  then show ?thesis
    using assms(1,2) unfolding reading_ok_def
    by (simp add: pad0_append_inj pad0_inj eq_nat_nat_iff)
qed

theorem Format_wall_eq_iff: "Format_wall v = Format_wall w \<longleftrightarrow> v div second = w div second"
proof
  assume eq: "Format_wall v = Format_wall w"
  let ?r = "reading_of v" and ?s = "reading_of w"
  have len: "length (time_text ?r) = length (time_text ?s)"
    by (simp add: time_text_length reading_of_ok)
  with eq have y: "Year (date ?r) = Year (date ?s)" and t: "time_text ?r = time_text ?s"
    by (auto simp: Format_wall_def year_text_inj)
  note parts = time_text_inj [OF reading_of_ok reading_of_ok t]
  have "date ?r = date ?s" using y parts by (simp add: civil.equality)
  then have "wall_of (?r\<lparr>Micro := 0\<rparr>) = wall_of (?s\<lparr>Micro := 0\<rparr>)"
    using parts by (simp add: wall_of_def)
  then have "(v div second) * second = (w div second) * second"
    by (simp only: wall_of_reading_second)
  then show "v div second = w div second" by simp
next
  assume "v div second = w div second"
  then show "Format_wall v = Format_wall w"
    by (simp add: Format_wall_def time_text_def reading_of_def Let_def)
qed

section \<open>Time zones\<close>

text \<open>
  A Location holds the offset of its first zone and, in order, the instants (in Unix
  seconds) at which another offset (in seconds east of UTC) takes over. lookup gives the
  offset at an instant and the bounds of the zone it lies in, None where unbounded.
\<close>

record location =
  first_offset :: int
  transitions :: "(int \<times> int) list"

definition UTC :: location where
  "UTC = \<lparr>first_offset = 0, transitions = []\<rparr>"

fun lookup_from :: "int \<Rightarrow> int option \<Rightarrow> (int \<times> int) list \<Rightarrow> int \<Rightarrow>
    int \<times> int option \<times> int option" where
  "lookup_from off start [] s = (off, start, None)"
| "lookup_from off start ((w, off') # ts) s =
    (if s < w then (off, start, Some w) else lookup_from off' (Some w) ts s)"

definition lookup :: "location \<Rightarrow> int \<Rightarrow> int \<times> int option \<times> int option" where
  "lookup loc s = lookup_from (first_offset loc) None (transitions loc) s"

definition offset_at :: "location \<Rightarrow> instant \<Rightarrow> duration" where
  "offset_at loc t = fst (lookup loc (t div second)) * second"

definition In :: "instant \<Rightarrow> location \<Rightarrow> instant" where
  "In t loc = t + offset_at loc t"

definition in_zone :: "int \<Rightarrow> int option \<Rightarrow> int option \<Rightarrow> bool" where
  "in_zone s start stop \<longleftrightarrow>
    (case start of None \<Rightarrow> True | Some a \<Rightarrow> a \<le> s) \<and>
    (case stop of None \<Rightarrow> True | Some b \<Rightarrow> s < b)"

text \<open>
  time.Date reads the offset at the wall clock as if it were UTC, and looks again at the
  instant that offset gives when it falls outside the zone it came from.
\<close>

definition Date :: "clock_reading \<Rightarrow> location \<Rightarrow> instant" where
  "Date r loc =
    (let w = wall_of r; u = w div second; (off, start, stop) = lookup loc u
     in if off \<noteq> 0
        then (let utc = u - off;
                  off = (if in_zone utc start stop then off else fst (lookup loc utc))
              in w - off * second)
        else w)"

lemma Date_UTC [simp]: "Date (reading_of t) UTC = t"
  by (simp add: Date_def UTC_def lookup_def)

lemma In_UTC [simp]: "In t UTC = t"
  by (simp add: In_def offset_at_def UTC_def lookup_def)

end
