(* ===== verification/Domain.thy ===== *)
theory Domain
  imports Go_Time
begin

text \<open>
  internal/domain: the task and the schedule every component agrees on, the sentinel
  errors that cross the store boundary, and the pure functions over them. Every function
  of task.go and schedule.go has a definition of the same name.
\<close>

section \<open>The life cycle of a task (task.go)\<close>

datatype Status =
    StatusPending
  | StatusRunning
  | StatusSucceeded
  | StatusFailed
  | StatusDead
  | StatusCancelled

definition AllStatuses :: "Status list" where
  "AllStatuses =
    [StatusPending, StatusRunning, StatusSucceeded, StatusFailed, StatusDead, StatusCancelled]"

fun status_text :: "Status \<Rightarrow> string" where
  "status_text StatusPending = ''pending''"
| "status_text StatusRunning = ''running''"
| "status_text StatusSucceeded = ''succeeded''"
| "status_text StatusFailed = ''failed''"
| "status_text StatusDead = ''dead''"
| "status_text StatusCancelled = ''cancelled''"

text \<open>Status is a string in Go, so Valid is asked of any text.\<close>

definition Valid :: "string \<Rightarrow> bool" where
  "Valid s \<longleftrightarrow> s \<in> {''pending'', ''running'', ''succeeded'', ''failed'', ''dead'', ''cancelled''}"

fun Terminal :: "Status \<Rightarrow> bool" where
  "Terminal StatusSucceeded = True"
| "Terminal StatusDead = True"
| "Terminal StatusCancelled = True"
| "Terminal _ = False"

lemma status_text_inj: "status_text s = status_text s' \<longleftrightarrow> s = s'"
  by (cases s; cases s') simp_all

lemma Valid_iff: "Valid s \<longleftrightarrow> (\<exists>st. s = status_text st)"
proof
  assume "\<exists>st. s = status_text st"
  then obtain st where "s = status_text st" ..
  then show "Valid s" by (cases st) (simp_all add: Valid_def)
qed (auto simp: Valid_def intro: status_text.simps [symmetric])

lemma Valid_status_text [simp]: "Valid (status_text st)"
  by (auto simp: Valid_iff)

lemma AllStatuses_complete [simp]: "st \<in> set AllStatuses"
  by (cases st) (simp_all add: AllStatuses_def)

lemma AllStatuses_distinct: "distinct AllStatuses"
  by (simp add: AllStatuses_def)

section \<open>Errors\<close>

text \<open>
  errors.go's sentinels, and the errors the drivers produce, wrapped by fmt.Errorf in
  the context the code gives them.
\<close>

datatype StoreErr =
    ErrNotFound
  | ErrDuplicateIdempotencyKey
  | ErrNotCancellable
  | ErrClaimLost
  | ErrUnknownHandler
  | ErrInvalidTimezone
  | ErrInvalidCron
  | ErrQueuePaused
  | ErrWrapped string

section \<open>Tasks\<close>

record Task =
  t_id :: int
  t_queue :: string
  t_handler :: string
  t_payload :: "string option"
  t_priority :: int
  t_status :: Status
  t_run_at :: instant
  t_attempts :: int
  t_max_attempts :: int
  t_claimed_by :: "string option"
  t_heartbeat_at :: "instant option"
  t_idempotency_key :: "string option"
  t_schedule_id :: "int option"
  t_last_error :: "string option"
  t_created_at :: instant

definition MaxLastErrorBytes :: nat where
  "MaxLastErrorBytes = 4096"

definition truncated_suffix :: string where
  "truncated_suffix = '' ...[truncated]''"

definition TruncateError :: "string \<Rightarrow> string" where
  "TruncateError msg =
    (if length msg \<le> MaxLastErrorBytes then msg
     else take (MaxLastErrorBytes - length truncated_suffix) msg @ truncated_suffix)"

definition Cancellable :: "Task \<Rightarrow> bool" where
  "Cancellable t \<longleftrightarrow> t_status t = StatusPending"

definition RetriesRemaining :: "Task \<Rightarrow> int" where
  "RetriesRemaining t =
    (let n = t_max_attempts t - t_attempts t in if 0 < n then n else 0)"

definition Exhausted :: "Task \<Rightarrow> bool" where
  "Exhausted t \<longleftrightarrow> t_max_attempts t \<le> t_attempts t"

definition Recurring :: "Task \<Rightarrow> bool" where
  "Recurring t \<longleftrightarrow> t_schedule_id t \<noteq> None"

definition Due :: "Task \<Rightarrow> instant \<Rightarrow> bool" where
  "Due t now \<longleftrightarrow> t_status t = StatusPending \<and> \<not> now < t_run_at t"

lemma length_truncated_suffix: "length truncated_suffix = 15"
  by (simp add: truncated_suffix_def)

lemma TruncateError_short: "length msg \<le> 4096 \<Longrightarrow> TruncateError msg = msg"
  by (simp add: TruncateError_def MaxLastErrorBytes_def)

lemma TruncateError_long:
  "4096 < length msg \<Longrightarrow> TruncateError msg = take 4081 msg @ truncated_suffix"
  by (simp add: TruncateError_def MaxLastErrorBytes_def length_truncated_suffix)

lemma Exhausted_iff: "Exhausted t \<longleftrightarrow> RetriesRemaining t = 0"
  by (auto simp: Exhausted_def RetriesRemaining_def Let_def)

section \<open>Schedules (schedule.go)\<close>

record Schedule =
  s_id :: int
  s_cron :: string
  s_timezone :: string
  s_queue :: string
  s_handler :: string
  s_payload :: "string option"
  s_priority :: int
  s_max_attempts :: int
  s_enabled :: bool
  s_last_materialized_at :: "instant option"
  s_created_at :: instant

definition DefaultTimezone :: string where
  "DefaultTimezone = ''UTC''"

definition IdempotencyKeyFor :: "int \<Rightarrow> instant \<Rightarrow> string" where
  "IdempotencyKeyFor scheduleID runAt = Itoa scheduleID @ '':'' @ Format_RFC3339_UTC runAt"

text \<open>
  The zone database is the host's: LoadLocation is an argument, and answers None where
  time.LoadLocation fails.
\<close>

definition Location ::
    "(string \<Rightarrow> location option) \<Rightarrow> Schedule \<Rightarrow> StoreErr + location" where
  "Location LoadLocation s =
    (let name = (if s_timezone s = [] then DefaultTimezone else s_timezone s)
     in case LoadLocation name of None \<Rightarrow> Inl ErrInvalidTimezone | Some loc \<Rightarrow> Inr loc)"

text \<open>
  A task built in Go leaves the fields it does not set at their zero values: no id, no
  attempts, nothing claimed, and the zero Time for its creation.
\<close>

definition TaskFor :: "Schedule \<Rightarrow> instant \<Rightarrow> Task" where
  "TaskFor s runAt =
    \<lparr>t_id = 0, t_queue = s_queue s, t_handler = s_handler s, t_payload = s_payload s,
     t_priority = s_priority s, t_status = StatusPending, t_run_at = runAt, t_attempts = 0,
     t_max_attempts = s_max_attempts s, t_claimed_by = None, t_heartbeat_at = None,
     t_idempotency_key = Some (IdempotencyKeyFor (s_id s) runAt),
     t_schedule_id = Some (s_id s), t_last_error = None, t_created_at = zero_time\<rparr>"

text \<open>A key's schedule id runs up to its first colon.\<close>

lemma Itoa_no_colon: "CHR '':'' \<notin> set (Itoa i)"
proof
  assume "CHR '':'' \<in> set (Itoa i)"
  then have "is_digit (CHR '':'')"
    by (auto simp: Itoa_def split: if_splits dest: show_nat_digits)
  then show False by (simp add: is_digit_def)
qed

lemma append_at_first:
  "c \<notin> set xs \<Longrightarrow> c \<notin> set xs' \<Longrightarrow> xs @ c # ys = xs' @ c # ys' \<longleftrightarrow> xs = xs' \<and> ys = ys'"
proof (induction xs arbitrary: xs')
  case Nil
  then show ?case by (cases xs') auto
next
  case (Cons x xs)
  then show ?case by (cases xs') auto
qed

lemma IdempotencyKeyFor_eq_iff:
  "IdempotencyKeyFor i t = IdempotencyKeyFor j u \<longleftrightarrow> i = j \<and> t div second = u div second"
  by (simp add: IdempotencyKeyFor_def Format_RFC3339_UTC_def append_at_first Itoa_no_colon
      Itoa_inj Format_wall_eq_iff)

end
