(* ===== verification/Schema.thy ===== *)
theory Schema
  imports Domain
begin

text \<open>
  The database: the two tables of internal/migrate/sql, their sequences and the server
  clock that now() reads; the constraints the migrations declare; and the invariant that
  every statement of internal/store/postgres keeps. A driver or server error is a value
  of PgErr; only the errors that the schema itself raises are modelled here.
\<close>

section \<open>Tables\<close>

record db =
  clock :: instant
  tasks :: "Task list"
  next_task_id :: int
  schedules :: "Schedule list"
  next_schedule_id :: int

definition empty_db :: "instant \<Rightarrow> db" where
  "empty_db now =
    \<lparr>clock = now, tasks = [], next_task_id = 1, schedules = [], next_schedule_id = 1\<rparr>"

datatype PgErr =
    IntegerOutOfRange
  | NotNullViolation
  | CheckViolation
  | ForeignKeyViolation

text \<open>An INT column holds 32 bits.\<close>

definition int4 :: "int \<Rightarrow> bool" where
  "int4 i \<longleftrightarrow> - (2 ^ 31) \<le> i \<and> i < 2 ^ 31"

section \<open>Constraints\<close>

text \<open>The NOT NULL column a caller can leave out, and the CHECKs of 0001_tasks.sql.\<close>

definition tasks_not_null :: "Task \<Rightarrow> bool" where
  "tasks_not_null t \<longleftrightarrow> t_payload t \<noteq> None"

definition tasks_checks :: "Task \<Rightarrow> bool" where
  "tasks_checks t \<longleftrightarrow>
    Valid (status_text (t_status t))
    \<and> 0 \<le> t_attempts t
    \<and> 0 < t_max_attempts t
    \<and> t_handler t \<noteq> []
    \<and> t_queue t \<noteq> []
    \<and> (t_status t \<noteq> StatusRunning \<or> t_claimed_by t \<noteq> None \<and> t_heartbeat_at t \<noteq> None)"

lemma tasks_checks_iff:
  "tasks_checks t \<longleftrightarrow> 0 \<le> t_attempts t \<and> 0 < t_max_attempts t \<and> t_handler t \<noteq> []
    \<and> t_queue t \<noteq> []
    \<and> (t_status t = StatusRunning \<longrightarrow> t_claimed_by t \<noteq> None \<and> t_heartbeat_at t \<noteq> None)"
  unfolding tasks_checks_def by auto

text \<open>The partial unique index tasks_queue_idempotency_key_uniq of 0002_schedules.sql.\<close>

definition same_idempotency_key :: "Task \<Rightarrow> Task \<Rightarrow> bool" where
  "same_idempotency_key t u \<longleftrightarrow>
    t_idempotency_key t \<noteq> None \<and> t_queue t = t_queue u
    \<and> t_idempotency_key t = t_idempotency_key u"

definition tasks_schedule_id_fkey :: "Schedule list \<Rightarrow> Task \<Rightarrow> bool" where
  "tasks_schedule_id_fkey ss t \<longleftrightarrow>
    (case t_schedule_id t of None \<Rightarrow> True | Some i \<Rightarrow> i \<in> s_id ` set ss)"

definition schedules_checks :: "Schedule \<Rightarrow> bool" where
  "schedules_checks s \<longleftrightarrow>
    s_cron s \<noteq> [] \<and> s_handler s \<noteq> [] \<and> s_queue s \<noteq> [] \<and> s_timezone s \<noteq> []
    \<and> 0 < s_max_attempts s"

section \<open>The invariant\<close>

text \<open>
  Beyond what the constraints say, the statements keep four facts about a row: it is
  claimed exactly while it runs, it is never stored as failed, its attempts stay within
  its maximum, and below it while it waits.
\<close>

definition row_inv :: "instant \<Rightarrow> Task \<Rightarrow> bool" where
  "row_inv now t \<longleftrightarrow>
    tasks_not_null t \<and> tasks_checks t
    \<and> int4 (t_priority t) \<and> int4 (t_max_attempts t)
    \<and> (t_claimed_by t \<noteq> None \<longleftrightarrow> t_status t = StatusRunning)
    \<and> t_status t \<noteq> StatusFailed
    \<and> t_attempts t \<le> t_max_attempts t
    \<and> (t_status t = StatusPending \<longrightarrow> t_attempts t < t_max_attempts t)
    \<and> (\<forall>h. t_heartbeat_at t = Some h \<longrightarrow> h \<le> now)
    \<and> t_created_at t \<le> now"

definition keys_unique :: "Task list \<Rightarrow> bool" where
  "keys_unique ts \<longleftrightarrow>
    (\<forall>t \<in> set ts. \<forall>u \<in> set ts. same_idempotency_key t u \<longrightarrow> t_id t = t_id u)"

definition db_inv :: "db \<Rightarrow> bool" where
  "db_inv d \<longleftrightarrow>
    distinct (map t_id (tasks d))
    \<and> (\<forall>t \<in> set (tasks d). t_id t < next_task_id d \<and> row_inv (clock d) t
        \<and> tasks_schedule_id_fkey (schedules d) t)
    \<and> keys_unique (tasks d)
    \<and> distinct (map s_id (schedules d))
    \<and> (\<forall>s \<in> set (schedules d). s_id s < next_schedule_id d \<and> schedules_checks s
        \<and> s_payload s \<noteq> None \<and> int4 (s_priority s) \<and> int4 (s_max_attempts s)
        \<and> s_created_at s \<le> clock d)"

lemma db_invD:
  assumes "db_inv d"
  shows db_inv_ids: "distinct (map t_id (tasks d))"
    and db_inv_row: "\<And>t. t \<in> set (tasks d) \<Longrightarrow> row_inv (clock d) t"
    and db_inv_seq: "\<And>t. t \<in> set (tasks d) \<Longrightarrow> t_id t < next_task_id d"
    and db_inv_fkey: "\<And>t. t \<in> set (tasks d) \<Longrightarrow> tasks_schedule_id_fkey (schedules d) t"
    and db_inv_keys: "keys_unique (tasks d)"
    and db_inv_schedule_ids: "distinct (map s_id (schedules d))"
  using assms by (auto simp: db_inv_def)

lemma row_invD:
  assumes "row_inv now t"
  shows row_inv_claimed: "t_claimed_by t \<noteq> None \<longleftrightarrow> t_status t = StatusRunning"
    and row_inv_attempts: "0 \<le> t_attempts t" "t_attempts t \<le> t_max_attempts t"
    and row_inv_pending: "t_status t = StatusPending \<Longrightarrow> t_attempts t < t_max_attempts t"
    and row_inv_heartbeat: "t_heartbeat_at t = Some h \<Longrightarrow> h \<le> now"
    and row_inv_running: "t_status t = StatusRunning \<Longrightarrow> \<exists>h. t_heartbeat_at t = Some h"
    and row_inv_not_failed: "t_status t \<noteq> StatusFailed"
  using assms by (auto simp: row_inv_def tasks_checks_iff)

lemma empty_db_inv: "db_inv (empty_db now)"
  by (simp add: db_inv_def empty_db_def keys_unique_def)

text \<open>Time passing keeps the invariant.\<close>

lemma row_inv_mono: "row_inv now t \<Longrightarrow> now \<le> now' \<Longrightarrow> row_inv now' t"
  by (fastforce simp: row_inv_def)

lemma db_inv_clock [step_inv]: "db_inv d \<Longrightarrow> clock d \<le> now \<Longrightarrow> db_inv (d\<lparr>clock := now\<rparr>)"
  by (auto simp: db_inv_def intro: row_inv_mono)

section \<open>Statements that update rows in place\<close>

definition update_tasks :: "(Task \<Rightarrow> bool) \<Rightarrow> (Task \<Rightarrow> Task) \<Rightarrow> db \<Rightarrow> db" where
  "update_tasks p f d = d\<lparr>tasks := update_where p f (tasks d)\<rparr>"

definition keeps_identity :: "(Task \<Rightarrow> Task) \<Rightarrow> bool" where
  "keeps_identity f \<longleftrightarrow>
    (\<forall>t. t_id (f t) = t_id t \<and> t_queue (f t) = t_queue t
      \<and> t_idempotency_key (f t) = t_idempotency_key t
      \<and> t_schedule_id (f t) = t_schedule_id t)"

lemma update_tasks_simps [simp]:
  "tasks (update_tasks p f d) = update_where p f (tasks d)"
  "clock (update_tasks p f d) = clock d"
  "next_task_id (update_tasks p f d) = next_task_id d"
  "schedules (update_tasks p f d) = schedules d"
  "next_schedule_id (update_tasks p f d) = next_schedule_id d"
  by (simp_all add: update_tasks_def)

lemma keys_unique_update:
  assumes "keeps_identity f" and "keys_unique ts"
  shows "keys_unique (update_where p f ts)"
proof -
  have old: "\<exists>u \<in> set ts. t_id t = t_id u \<and> t_queue t = t_queue u
      \<and> t_idempotency_key t = t_idempotency_key u"
    if "t \<in> set (update_where p f ts)" for t
    using that assms(1) by (auto simp: set_update_where keeps_identity_def)
  show ?thesis
    unfolding keys_unique_def
  proof (intro ballI impI)
    fix t u
    assume "t \<in> set (update_where p f ts)" and "u \<in> set (update_where p f ts)"
      and same: "same_idempotency_key t u"
    then obtain t' u' where "t' \<in> set ts" "u' \<in> set ts" "t_id t = t_id t'" "t_id u = t_id u'"
      "t_queue t = t_queue t'" "t_queue u = t_queue u'"
      "t_idempotency_key t = t_idempotency_key t'" "t_idempotency_key u = t_idempotency_key u'"
      using old by meson
    with same assms(2) show "t_id t = t_id u"
      by (auto simp: keys_unique_def same_idempotency_key_def)
  qed
qed

lemma db_inv_update:
  assumes inv: "db_inv d" and id: "keeps_identity f"
    and row: "\<And>t. t \<in> set (tasks d) \<Longrightarrow> p t \<Longrightarrow> row_inv (clock d) t \<Longrightarrow> row_inv (clock d) (f t)"
  shows "db_inv (update_tasks p f d)"
proof -
  have ids: "map t_id (update_where p f (tasks d)) = map t_id (tasks d)"
    using id by (simp add: map_update_where keeps_identity_def)
  let ?ok = "\<lambda>t. t_id t < next_task_id d \<and> row_inv (clock d) t
    \<and> tasks_schedule_id_fkey (schedules d) t"
  have old: "?ok r" if "r \<in> set (tasks d)" for r
    using inv that by (simp add: db_inv_def)
  have new: "?ok (f r)" if "r \<in> set (tasks d)" and "p r" for r
  proof -
    have "row_inv (clock d) (f r)" using row old that by blast
    moreover have "t_id (f r) = t_id r" and "t_schedule_id (f r) = t_schedule_id r"
      using id by (simp_all add: keeps_identity_def)
    ultimately show ?thesis using old [OF that(1)] by (simp add: tasks_schedule_id_fkey_def)
  qed
  have "?ok t" if "t \<in> set (update_where p f (tasks d))" for t
    by (rule update_where_pointwise [where P = ?ok, OF new old that])
  then show ?thesis
    using inv ids keys_unique_update [OF id db_inv_keys [OF inv]] by (simp add: db_inv_def)
qed

section \<open>Reading rows\<close>

definition task_by_id :: "db \<Rightarrow> int \<Rightarrow> Task option" where
  "task_by_id d i = by_key t_id i (tasks d)"

lemma task_by_id_iff:
  "db_inv d \<Longrightarrow> task_by_id d i = Some t \<longleftrightarrow> t \<in> set (tasks d) \<and> t_id t = i"
  by (simp add: task_by_id_def by_key_iff db_inv_ids)

lemma task_by_id_SomeD: "task_by_id d i = Some t \<Longrightarrow> t \<in> set (tasks d) \<and> t_id t = i"
  unfolding task_by_id_def by (rule by_key_SomeD)

lemma task_by_id_update:
  "keeps_identity f \<Longrightarrow>
    task_by_id (update_tasks p f d) i = map_option (\<lambda>t. if p t then f t else t) (task_by_id d i)"
  by (simp add: task_by_id_def by_key_update_where keeps_identity_def)

lemma task_by_id_row_inv: "db_inv d \<Longrightarrow> task_by_id d i = Some t \<Longrightarrow> row_inv (clock d) t"
  by (auto dest: task_by_id_SomeD db_inv_row)

end
