(* ===== verification/Enqueue.thy ===== *)
theory Enqueue
  imports Schema
begin

text \<open>
  internal/store/postgres/enqueue.go: the insert that skips a task whose idempotency key
  its queue already holds, and the submission that then returns the row it found. What
  follows says which of its outcomes an argument and a state have, that each keeps the
  invariant, and that a taken key stays resolved to the same row.
\<close>

section \<open>The insert statement\<close>

definition inserted_row :: "db \<Rightarrow> string \<Rightarrow> string \<Rightarrow> string option \<Rightarrow> int \<Rightarrow> instant option \<Rightarrow>
    int \<Rightarrow> string option \<Rightarrow> int option \<Rightarrow> Task" where
  "inserted_row d queue handler payload priority runAt maxAttempts key scheduleID =
    \<lparr>t_id = next_task_id d, t_queue = queue, t_handler = handler, t_payload = payload,
     t_priority = priority, t_status = StatusPending,
     t_run_at = (case runAt of None \<Rightarrow> clock d | Some r \<Rightarrow> r),
     t_attempts = 0, t_max_attempts = maxAttempts, t_claimed_by = None,
     t_heartbeat_at = None, t_idempotency_key = key, t_schedule_id = scheduleID,
     t_last_error = None, t_created_at = clock d\<rparr>"

text \<open>
  A parameter that does not fit its INT column is refused by the driver before the
  statement runs. The id is drawn from the sequence first, so it is spent even when the
  row is refused or skipped; the foreign key is checked on the inserted row only.
\<close>

definition enqueueSQL :: "db \<Rightarrow> string \<Rightarrow> string \<Rightarrow> string option \<Rightarrow> int \<Rightarrow> instant option \<Rightarrow>
    int \<Rightarrow> string option \<Rightarrow> int option \<Rightarrow> db \<times> (PgErr + Task option)" where
  "enqueueSQL d queue handler payload priority runAt maxAttempts key scheduleID =
    (if \<not> (int4 priority \<and> int4 maxAttempts) then (d, Inl IntegerOutOfRange)
     else
       let row = inserted_row d queue handler payload priority runAt maxAttempts key scheduleID;
           d' = d\<lparr>next_task_id := next_task_id d + 1\<rparr>
       in if \<not> tasks_not_null row then (d', Inl NotNullViolation)
          else if \<not> tasks_checks row then (d', Inl CheckViolation)
          else if \<exists>u \<in> set (tasks d). same_idempotency_key row u then (d', Inr None)
          else if \<not> tasks_schedule_id_fkey (schedules d) row then (d', Inl ForeignKeyViolation)
          else (d'\<lparr>tasks := tasks d @ [row]\<rparr>, Inr (Some row)))"

definition selectByIdempotencyKeySQL :: "db \<Rightarrow> string \<Rightarrow> string \<Rightarrow> Task option" where
  "selectByIdempotencyKeySQL d queue key =
    find (\<lambda>t. t_queue t = queue \<and> t_idempotency_key t = Some key) (tasks d)"

text \<open>
  The statement's arguments as both submissions compute them: no run_at for the zero
  time, and five attempts where none are given.
\<close>

definition enqueue_args :: "db \<Rightarrow> Task \<Rightarrow> db \<times> (PgErr + Task option)" where
  "enqueue_args d t =
    (let runAt = (if IsZero (t_run_at t) then None else Some (t_run_at t));
         maxAttempts = (if t_max_attempts t = 0 then 5 else t_max_attempts t)
     in enqueueSQL d (t_queue t) (t_handler t) (t_payload t) (t_priority t) runAt maxAttempts
          (t_idempotency_key t) (t_schedule_id t))"

section \<open>Enqueue\<close>

definition enqueueOne :: "db \<Rightarrow> Task \<Rightarrow> db \<times> Task option \<times> StoreErr option" where
  "enqueueOne d t =
    (case enqueue_args d t of
       (d', Inr (Some inserted)) \<Rightarrow> (d', Some inserted, None)
     | (d', Inl e) \<Rightarrow> (d', None, Some (ErrWrapped ''enqueuing task''))
     | (d', Inr None) \<Rightarrow>
         (case t_idempotency_key t of
            None \<Rightarrow> (d', None, Some (ErrWrapped ''enqueuing task''))
          | Some key \<Rightarrow>
              (case selectByIdempotencyKeySQL d' (t_queue t) key of
                 None \<Rightarrow> (d', None, Some (ErrWrapped ''resolving duplicate idempotency key''))
               | Some existing \<Rightarrow> (d', Some existing, Some ErrDuplicateIdempotencyKey))))"

definition Enqueue :: "db \<Rightarrow> Task \<Rightarrow> db \<times> Task option \<times> StoreErr option" where
  "Enqueue d t = enqueueOne d t"

section \<open>What one insert does\<close>

definition args_ok :: "db \<Rightarrow> Task \<Rightarrow> bool" where
  "args_ok d t \<longleftrightarrow>
    int4 (t_priority t) \<and> int4 (t_max_attempts t) \<and> 0 \<le> t_max_attempts t
    \<and> t_payload t \<noteq> None \<and> t_handler t \<noteq> [] \<and> t_queue t \<noteq> []
    \<and> tasks_schedule_id_fkey (schedules d) t"

definition row_for :: "db \<Rightarrow> Task \<Rightarrow> Task" where
  "row_for d t =
    inserted_row d (t_queue t) (t_handler t) (t_payload t) (t_priority t)
      (if IsZero (t_run_at t) then None else Some (t_run_at t))
      (if t_max_attempts t = 0 then 5 else t_max_attempts t)
      (t_idempotency_key t) (t_schedule_id t)"

lemma row_for_simps [simp]:
  "t_id (row_for d t) = next_task_id d"
  "t_queue (row_for d t) = t_queue t"
  "t_handler (row_for d t) = t_handler t"
  "t_payload (row_for d t) = t_payload t"
  "t_priority (row_for d t) = t_priority t"
  "t_status (row_for d t) = StatusPending"
  "t_run_at (row_for d t) = (if IsZero (t_run_at t) then clock d else t_run_at t)"
  "t_attempts (row_for d t) = 0"
  "t_max_attempts (row_for d t) = (if t_max_attempts t = 0 then 5 else t_max_attempts t)"
  "t_claimed_by (row_for d t) = None"
  "t_heartbeat_at (row_for d t) = None"
  "t_idempotency_key (row_for d t) = t_idempotency_key t"
  "t_schedule_id (row_for d t) = t_schedule_id t"
  "t_last_error (row_for d t) = None"
  "t_created_at (row_for d t) = clock d"
  by (simp_all add: row_for_def inserted_row_def)

definition key_taken :: "db \<Rightarrow> Task \<Rightarrow> bool" where
  "key_taken d t \<longleftrightarrow> (\<exists>u \<in> set (tasks d). same_idempotency_key t u)"

lemma same_key_row_for: "same_idempotency_key (row_for d t) = same_idempotency_key t"
  by (simp add: same_idempotency_key_def fun_eq_iff)

lemma fkey_row_for: "tasks_schedule_id_fkey ss (row_for d t) = tasks_schedule_id_fkey ss t"
  by (simp add: tasks_schedule_id_fkey_def)

lemma int4_5: "int4 5"
  by (simp add: int4_def)

text \<open>Every outcome of the insert, by what decides it.\<close>

lemma enqueue_args_cases:
  obtains (refused) e n where "enqueue_args d t = (d\<lparr>next_task_id := n\<rparr>, Inl e)"
      "next_task_id d \<le> n" "\<not> args_ok d t"
  | (skipped) "enqueue_args d t = (d\<lparr>next_task_id := next_task_id d + 1\<rparr>, Inr None)" "key_taken d t"
  | (inserted) "enqueue_args d t =
        (d\<lparr>next_task_id := next_task_id d + 1, tasks := tasks d @ [row_for d t]\<rparr>,
         Inr (Some (row_for d t)))"
      "args_ok d t" "\<not> key_taken d t"
proof -
  let ?max = "if t_max_attempts t = 0 then 5 else t_max_attempts t"
  let ?run = "if IsZero (t_run_at t) then None else Some (t_run_at t)"
  let ?d = "d\<lparr>next_task_id := next_task_id d + 1\<rparr>"
  let ?row = "row_for d t"
  have unfolded: "enqueue_args d t =
    (if \<not> (int4 (t_priority t) \<and> int4 ?max) then (d, Inl IntegerOutOfRange)
     else if \<not> tasks_not_null ?row then (?d, Inl NotNullViolation)
     else if \<not> tasks_checks ?row then (?d, Inl CheckViolation)
     else if key_taken d t then (?d, Inr None)
     else if \<not> tasks_schedule_id_fkey (schedules d) t then (?d, Inl ForeignKeyViolation)
     else (?d\<lparr>tasks := tasks d @ [?row]\<rparr>, Inr (Some ?row)))"
    by (simp only: enqueue_args_def enqueueSQL_def row_for_def [symmetric] Let_def
        key_taken_def same_key_row_for fkey_row_for)
  have max: "int4 ?max \<longleftrightarrow> int4 (t_max_attempts t)"
    by (simp add: int4_def)
  have checks: "tasks_checks ?row \<longleftrightarrow> 0 \<le> t_max_attempts t \<and> t_handler t \<noteq> [] \<and> t_queue t \<noteq> []"
    by (auto simp: tasks_checks_iff)
  have null: "tasks_not_null ?row \<longleftrightarrow> t_payload t \<noteq> None"
    by (simp add: tasks_not_null_def)
  consider (ok) "args_ok d t" "\<not> key_taken d t" | (dup) "key_taken d t"
      "int4 (t_priority t) \<and> int4 ?max" "tasks_not_null ?row" "tasks_checks ?row"
    | (bad) "\<not> args_ok d t"
        "\<not> (key_taken d t \<and> int4 (t_priority t) \<and> int4 ?max \<and> tasks_not_null ?row \<and> tasks_checks ?row)"
    using max checks null by (auto simp: args_ok_def)
  then show thesis
  proof cases
    case ok
    then have "enqueue_args d t = (?d\<lparr>tasks := tasks d @ [?row]\<rparr>, Inr (Some ?row))"
      using max checks null by (simp add: unfolded args_ok_def)
    then show thesis using inserted ok by simp
  next
    case dup
    then show thesis using skipped by (simp add: unfolded)
  next
    case bad
    have same: "d = d\<lparr>next_task_id := next_task_id d\<rparr>" by simp
    from bad show thesis
      using refused [of "next_task_id d"] refused [of "next_task_id d + 1"]
        max checks null unfolded
      by (auto simp: args_ok_def simp flip: same split: if_splits)
  qed
qed

lemma enqueue_args_frame:
  assumes "enqueue_args d t = (d', r)"
  shows "clock d' = clock d" and "schedules d' = schedules d"
    and "next_schedule_id d' = next_schedule_id d" and "next_task_id d \<le> next_task_id d'"
proof -
  have "clock d' = clock d \<and> schedules d' = schedules d
      \<and> next_schedule_id d' = next_schedule_id d \<and> next_task_id d \<le> next_task_id d'"
    by (cases rule: enqueue_args_cases [where d = d and t = t]) (use assms in auto)
  then show "clock d' = clock d" and "schedules d' = schedules d"
    and "next_schedule_id d' = next_schedule_id d" and "next_task_id d \<le> next_task_id d'"
    by blast+
qed

text \<open>A key that is taken is found, and stays the same row as tasks are added.\<close>

lemma select_taken:
  assumes "key_taken d t"
  obtains k r where "t_idempotency_key t = Some k"
    and "selectByIdempotencyKeySQL d (t_queue t) k = Some r"
    and "r \<in> set (tasks d)" and "same_idempotency_key t r"
proof -
  from assms obtain u k where u: "u \<in> set (tasks d)" and k: "t_idempotency_key t = Some k"
    and same: "same_idempotency_key t u"
    by (auto simp: key_taken_def same_idempotency_key_def)
  have "selectByIdempotencyKeySQL d (t_queue t) k \<noteq> None"
    using u k same by (auto simp: selectByIdempotencyKeySQL_def find_None_iff
        same_idempotency_key_def)
  then obtain r where r: "selectByIdempotencyKeySQL d (t_queue t) k = Some r" by blast
  then have "r \<in> set (tasks d)" and "same_idempotency_key t r"
    using k by (auto simp: selectByIdempotencyKeySQL_def find_Some_iff same_idempotency_key_def)
  with k r show thesis by (rule that)
qed

lemma find_append_Some: "find p xs = Some r \<Longrightarrow> find p (xs @ ys) = Some r"
  by (induction xs) (auto split: if_splits)

lemma select_append:
  "selectByIdempotencyKeySQL d q k = Some r \<Longrightarrow> tasks d' = tasks d @ new \<Longrightarrow>
    selectByIdempotencyKeySQL d' q k = Some r"
  by (simp add: selectByIdempotencyKeySQL_def find_append_Some)

lemma select_key_taken:
  "selectByIdempotencyKeySQL d (t_queue t) k = Some r \<Longrightarrow> t_idempotency_key t = Some k \<Longrightarrow>
    r \<in> set (tasks d) \<and> same_idempotency_key t r"
  by (auto simp: selectByIdempotencyKeySQL_def find_Some_iff same_idempotency_key_def)

lemma same_keyD: "same_idempotency_key t u \<Longrightarrow>
    t_queue u = t_queue t \<and> t_idempotency_key u = t_idempotency_key t
    \<and> t_idempotency_key t \<noteq> None"
  by (auto simp: same_idempotency_key_def)

section \<open>Every submission keeps the invariant\<close>

lemma db_inv_spend [step_inv]:
  "db_inv d \<Longrightarrow> next_task_id d \<le> n \<Longrightarrow> db_inv (d\<lparr>next_task_id := n\<rparr>)"
  by (fastforce simp: db_inv_def)

lemma row_for_inv:
  assumes "args_ok d t"
  shows "row_inv (clock d) (row_for d t)"
  using assms
  by (auto simp: row_inv_def args_ok_def tasks_not_null_def tasks_checks_iff int4_5)

lemma same_key_commute: "same_idempotency_key u (row_for d t) = same_idempotency_key t u"
  by (auto simp: same_idempotency_key_def)

lemma db_inv_insert:
  assumes inv: "db_inv d" and ok: "args_ok d t" and free: "\<not> key_taken d t"
  shows "db_inv (d\<lparr>next_task_id := next_task_id d + 1, tasks := tasks d @ [row_for d t]\<rparr>)"
proof -
  let ?row = "row_for d t"
  have fresh: "t_id ?row \<notin> t_id ` set (tasks d)"
    using db_inv_seq [OF inv] by fastforce
  have free': "\<not> same_idempotency_key ?row u" "\<not> same_idempotency_key u ?row"
    if "u \<in> set (tasks d)" for u
    using free that by (auto simp: key_taken_def same_key_row_for same_key_commute)
  then have "keys_unique (tasks d @ [?row])"
    using db_inv_keys [OF inv] by (auto simp: keys_unique_def)
  moreover have "distinct (map t_id (tasks d @ [?row]))"
    using db_inv_ids [OF inv] fresh by simp
  moreover have "t_id u < next_task_id d + 1 \<and> row_inv (clock d) u
      \<and> tasks_schedule_id_fkey (schedules d) u" if "u \<in> set (tasks d @ [?row])" for u
  proof (cases "u = ?row")
    case True
    then show ?thesis using ok row_for_inv [OF ok] by (simp add: args_ok_def fkey_row_for)
  next
    case False
    with that have "u \<in> set (tasks d)" by simp
    then show ?thesis
      using db_inv_seq [OF inv] db_inv_row [OF inv] db_inv_fkey [OF inv] by fastforce
  qed
  ultimately show ?thesis
    using inv unfolding db_inv_def by (simp del: set_append map_append)
qed

lemma enqueue_args_inv [step_inv]: "db_inv d \<Longrightarrow> db_inv (fst (enqueue_args d t))"
  by (cases rule: enqueue_args_cases [where d = d and t = t])
    (simp_all add: db_inv_spend db_inv_insert)

lemma enqueueOne_fst: "fst (enqueueOne d t) = fst (enqueue_args d t)"
  by (auto simp: enqueueOne_def split: prod.splits sum.splits option.splits)

lemma Enqueue_inv [step_inv]: "db_inv d \<Longrightarrow> db_inv (fst (Enqueue d t))"
  by (simp add: Enqueue_def enqueueOne_fst enqueue_args_inv)

section \<open>The outcomes of Enqueue\<close>

lemma Enqueue_inserted:
  assumes "args_ok d t" and "\<not> key_taken d t"
  shows "Enqueue d t =
    (d\<lparr>next_task_id := next_task_id d + 1, tasks := tasks d @ [row_for d t]\<rparr>,
     Some (row_for d t), None)"
  by (cases rule: enqueue_args_cases [where d = d and t = t])
    (use assms in \<open>auto simp: Enqueue_def enqueueOne_def\<close>)

text \<open>The outcome of Enqueue, and with it the state, in each of its three cases.\<close>

lemma Enqueue_cases:
  obtains (created) "Enqueue d t =
        (d\<lparr>next_task_id := next_task_id d + 1, tasks := tasks d @ [row_for d t]\<rparr>,
         Some (row_for d t), None)"
      "enqueue_args d t =
        (d\<lparr>next_task_id := next_task_id d + 1, tasks := tasks d @ [row_for d t]\<rparr>,
         Inr (Some (row_for d t)))"
      "args_ok d t" "\<not> key_taken d t"
  | (duplicate) k r where "Enqueue d t =
        (d\<lparr>next_task_id := next_task_id d + 1\<rparr>, Some r, Some ErrDuplicateIdempotencyKey)"
      "enqueue_args d t = (d\<lparr>next_task_id := next_task_id d + 1\<rparr>, Inr None)"
      "r \<in> set (tasks d)" "same_idempotency_key t r" "t_idempotency_key t = Some k"
      "selectByIdempotencyKeySQL d (t_queue t) k = Some r"
  | (refused) d' e where "Enqueue d t = (d', None, Some (ErrWrapped ''enqueuing task''))"
      "enqueue_args d t = (d', Inl e)"
      "tasks d' = tasks d" "\<not> args_ok d t"
proof (cases rule: enqueue_args_cases [where d = d and t = t])
  case (refused e n)
  then show ?thesis using that(3) by (simp add: Enqueue_def enqueueOne_def)
next
  case skipped
  then obtain k r where k: "t_idempotency_key t = Some k"
    and r: "selectByIdempotencyKeySQL d (t_queue t) k = Some r" "r \<in> set (tasks d)"
      "same_idempotency_key t r"
    using select_taken by blast
  have "selectByIdempotencyKeySQL (d\<lparr>next_task_id := next_task_id d + 1\<rparr>) (t_queue t) k = Some r"
    using r(1) by (simp add: selectByIdempotencyKeySQL_def)
  then show ?thesis
    using that(2) [OF _ skipped(1) r(2,3) k r(1)] skipped(1) k
    by (simp add: Enqueue_def enqueueOne_def)
next
  case inserted
  then show ?thesis using that(1) by (simp add: Enqueue_def enqueueOne_def)
qed

end
