(* ===== verification/Enqueue_Bulk.thy ===== *)
theory Enqueue_Bulk
  imports Enqueue
begin

text \<open>
  internal/store/postgres/enqueue_bulk.go: many inserts in one transaction, then a lookup
  for each task the inserts skipped. Shown here: a bulk submission that succeeds is the
  single submissions one after the other, one that fails leaves the rows as they were,
  and the contract that the materializer relies on.
\<close>

section \<open>EnqueueBulk\<close>

text \<open>
  The batch: one insert per task, in order, on the transaction's own state; None marks
  the tasks that were skipped. The first failure ends it.
\<close>

fun send_batch :: "db \<Rightarrow> Task list \<Rightarrow> db \<times> (StoreErr + Task option list)" where
  "send_batch d [] = (d, Inr [])"
| "send_batch d (t # ts) =
    (case enqueue_args d t of
       (d', Inl e) \<Rightarrow> (d', Inl (ErrWrapped ''bulk enqueuing task''))
     | (d', Inr row) \<Rightarrow>
         if row = None \<and> t_idempotency_key t = None
         then (d', Inl (ErrWrapped ''bulk enqueuing task''))
         else (case send_batch d' ts of
                 (d'', Inl e) \<Rightarrow> (d'', Inl e)
               | (d'', Inr rows) \<Rightarrow> (d'', Inr (row # rows))))"

text \<open>Once the batch is closed, each skipped task is looked up.\<close>

fun resolve_duplicates :: "db \<Rightarrow> Task list \<Rightarrow> Task option list \<Rightarrow> StoreErr + Task list" where
  "resolve_duplicates d (t # ts) (row # rows) =
    (case (case row of Some r \<Rightarrow> Some r
           | None \<Rightarrow> (case t_idempotency_key t of None \<Rightarrow> None
                    | Some key \<Rightarrow> selectByIdempotencyKeySQL d (t_queue t) key)) of
       None \<Rightarrow> Inl (ErrWrapped ''resolving duplicate idempotency key for task'')
     | Some r \<Rightarrow> (case resolve_duplicates d ts rows of
                     Inl e \<Rightarrow> Inl e
                   | Inr out \<Rightarrow> Inr (r # out)))"
| "resolve_duplicates d _ _ = Inr []"

text \<open>A rolled back transaction leaves only the ids it drew from the sequence spent.\<close>

definition rollback :: "db \<Rightarrow> db \<Rightarrow> db" where
  "rollback before after = before\<lparr>next_task_id := next_task_id after\<rparr>"

definition EnqueueBulk :: "db \<Rightarrow> Task list \<Rightarrow> db \<times> (StoreErr + Task list)" where
  "EnqueueBulk d ts =
    (if ts = [] then (d, Inr [])
     else case send_batch d ts of
            (d', Inl e) \<Rightarrow> (rollback d d', Inl e)
          | (d', Inr rows) \<Rightarrow>
              (case resolve_duplicates d' ts rows of
                 Inl e \<Rightarrow> (rollback d d', Inl e)
               | Inr out \<Rightarrow> (d', Inr out)))"

section \<open>A bulk submission is the single submissions in order\<close>

text \<open>Submit each task with Enqueue, taking a duplicate as success, until one fails.\<close>

fun enqueue_each :: "db \<Rightarrow> Task list \<Rightarrow> db \<times> (StoreErr + Task list)" where
  "enqueue_each d [] = (d, Inr [])"
| "enqueue_each d (t # ts) =
    (case Enqueue d t of
       (d', None, e) \<Rightarrow> (d', Inl (case e of None \<Rightarrow> ErrWrapped [] | Some e \<Rightarrow> e))
     | (d', Some r, _) \<Rightarrow>
         (case enqueue_each d' ts of
            (d'', Inl e) \<Rightarrow> (d'', Inl e)
          | (d'', Inr rs) \<Rightarrow> (d'', Inr (r # rs))))"

lemma send_batch_extends:
  "send_batch d ts = (d', r) \<Longrightarrow> \<exists>new. tasks d' = tasks d @ new"
proof (induction ts arbitrary: d d' r)
  case (Cons t ts)
  obtain d1 r1 where one: "enqueue_args d t = (d1, r1)" by fastforce
  then have "\<exists>new. tasks d1 = tasks d @ new"
    by (cases rule: enqueue_args_cases [where d = d and t = t]) auto
  with Cons one show ?case
    by (fastforce split: prod.splits sum.splits if_splits)
qed simp

lemma send_batch_frame:
  "send_batch d ts = (d', r) \<Longrightarrow>
    clock d' = clock d \<and> schedules d' = schedules d
    \<and> next_schedule_id d' = next_schedule_id d \<and> next_task_id d \<le> next_task_id d'"
proof (induction ts arbitrary: d d' r)
  case (Cons t ts)
  obtain d1 r1 where one: "enqueue_args d t = (d1, r1)" by fastforce
  note frame = enqueue_args_frame [OF one]
  from Cons.prems one consider "d' = d1" | r2 where "send_batch d1 ts = (d', r2)"
    by (auto split: prod.splits sum.splits if_splits)
  then show ?case
    using Cons.IH frame by cases (simp, metis order_trans)
qed simp

lemma send_batch_inv: "db_inv d \<Longrightarrow> db_inv (fst (send_batch d ts))"
proof (induction ts arbitrary: d)
  case (Cons t ts)
  obtain d1 r1 where one: "enqueue_args d t = (d1, r1)" by fastforce
  then have inv: "db_inv d1" using enqueue_args_inv [OF Cons.prems, of t] by simp
  then have "db_inv (fst (send_batch d1 ts))" by (rule Cons.IH)
  with one inv show ?case by (auto split: prod.splits sum.splits)
qed simp

text \<open>
  The two loops of the bulk submission agree with the one of the single submissions: the
  rows a later lookup finds are those an immediate one would have found, because rows are
  only ever added.
\<close>

lemma send_batch_each:
  "send_batch d ts = (d', Inr rows) \<Longrightarrow> tasks dF = tasks d' @ new \<Longrightarrow>
    \<exists>out. enqueue_each d ts = (d', Inr out) \<and> resolve_duplicates dF ts rows = Inr out"
proof (induction ts arbitrary: d rows)
  case (Cons t ts)
  show ?case
  proof (cases rule: Enqueue_cases [where d = d and t = t])
    case created
    let ?d1 = "d\<lparr>next_task_id := next_task_id d + 1, tasks := tasks d @ [row_for d t]\<rparr>"
    obtain rows' where rest: "send_batch ?d1 ts = (d', Inr rows')"
        and rows: "rows = Some (row_for d t) # rows'"
      using Cons.prems(1) created by (auto split: prod.splits sum.splits)
    from Cons.IH [OF rest Cons.prems(2)] show ?thesis
      using created rows by auto
  next
    case (duplicate k r)
    let ?d1 = "d\<lparr>next_task_id := next_task_id d + 1\<rparr>"
    obtain rows' where rest: "send_batch ?d1 ts = (d', Inr rows')" and rows: "rows = None # rows'"
      using Cons.prems(1) duplicate by (auto split: prod.splits sum.splits if_splits)
    obtain more where "tasks d' = tasks ?d1 @ more"
      using send_batch_extends [OF rest] by blast
    then have "tasks dF = tasks d @ (more @ new)" using Cons.prems(2) by simp
    then have "selectByIdempotencyKeySQL dF (t_queue t) k = Some r"
      by (rule select_append [OF duplicate(6)])
    with Cons.IH [OF rest Cons.prems(2)] show ?thesis
      using duplicate rows by auto
  next
    case (refused d1 e)
    then show ?thesis using Cons.prems(1) by simp
  qed
qed simp

lemma send_batch_each_fails:
  "send_batch d ts = (d', Inl e) \<Longrightarrow> \<exists>e'. enqueue_each d ts = (d', Inl e')"
proof (induction ts arbitrary: d)
  case (Cons t ts)
  show ?case
  proof (cases rule: Enqueue_cases [where d = d and t = t])
    case created
    let ?d1 = "d\<lparr>next_task_id := next_task_id d + 1, tasks := tasks d @ [row_for d t]\<rparr>"
    have "send_batch ?d1 ts = (d', Inl e)"
      using Cons.prems created by (auto split: prod.splits sum.splits)
    with Cons.IH created show ?thesis by fastforce
  next
    case (duplicate k r)
    let ?d1 = "d\<lparr>next_task_id := next_task_id d + 1\<rparr>"
    have "send_batch ?d1 ts = (d', Inl e)"
      using Cons.prems duplicate by (auto split: prod.splits sum.splits if_splits)
    with Cons.IH duplicate show ?thesis by fastforce
  next
    case (refused d1 e1)
    then show ?thesis using Cons.prems by simp
  qed
qed simp

lemma EnqueueBulk_cases:
  obtains (ok) d' out where "EnqueueBulk d ts = (d', Inr out)" "enqueue_each d ts = (d', Inr out)"
      "fst (send_batch d ts) = d'"
  | (failed) d' e where "EnqueueBulk d ts = (rollback d d', Inl e)"
      "\<exists>e'. enqueue_each d ts = (d', Inl e')" "fst (send_batch d ts) = d'"
proof (cases "send_batch d ts")
  case (Pair d' r)
  show ?thesis
  proof (cases r)
    case (Inl e)
    with Pair send_batch_each_fails [of d ts d' e] show ?thesis
      using that(2) [of d' e] by (cases ts) (auto simp: EnqueueBulk_def)
  next
    case (Inr rows)
    with Pair send_batch_each [of d ts d' rows d' "[]"] show ?thesis
      using that(1) [of d'] by (cases ts) (auto simp: EnqueueBulk_def)
  qed
qed

lemma enqueue_each_length: "enqueue_each d ts = (d', Inr out) \<Longrightarrow> length out = length ts"
proof (induction ts arbitrary: d out)
  case (Cons t ts)
  then show ?case by (fastforce split: prod.splits option.splits sum.splits)
qed simp

lemma EnqueueBulk_eq_each: "EnqueueBulk d ts = (d', Inr out) \<longleftrightarrow> enqueue_each d ts = (d', Inr out)"
  by (cases rule: EnqueueBulk_cases [where d = d and ts = ts]) auto

lemma rollback_inv: "db_inv d \<Longrightarrow> next_task_id d \<le> next_task_id d' \<Longrightarrow> db_inv (rollback d d')"
  by (simp add: rollback_def db_inv_spend)

lemma EnqueueBulk_inv [step_inv]: "db_inv d \<Longrightarrow> db_inv (fst (EnqueueBulk d ts))"
proof (cases rule: EnqueueBulk_cases [where d = d and ts = ts])
  case (ok d' out)
  moreover assume "db_inv d"
  ultimately show ?thesis using send_batch_inv [of d ts] by simp
next
  case (failed d' e)
  moreover assume "db_inv d"
  moreover have "next_task_id d \<le> next_task_id d'"
    using send_batch_frame [OF surjective_pairing, of d ts] failed by simp
  ultimately show ?thesis by (simp add: rollback_inv)
qed

end
