(* ===== verification/Claiming.thy ===== *)
theory Claiming
  imports Schema Complex_Main
begin

text \<open>
  The worker's half of internal/store/postgres: claim.go, heartbeat.go, complete.go,
  fail.go and recover_orphans.go, and from the inspector's half get_cancel.go. Each
  method is the one statement it sends, on the state the statement sees, with now() read
  from the database clock; what follows gives each of them its functional behaviour and
  shows that it keeps the invariant.
\<close>

section \<open>The claim order\<close>

text \<open>ORDER BY priority DESC, run_at as a linear order on the two columns.\<close>

datatype claim_key = ClaimKey (key_priority: int) (key_run_at: instant)

instantiation claim_key :: linorder
begin

definition less_eq_claim_key :: "claim_key \<Rightarrow> claim_key \<Rightarrow> bool" where
  "less_eq_claim_key k l \<longleftrightarrow>
    key_priority l < key_priority k
    \<or> key_priority k = key_priority l \<and> key_run_at k \<le> key_run_at l"

definition less_claim_key :: "claim_key \<Rightarrow> claim_key \<Rightarrow> bool" where
  "less_claim_key k l \<longleftrightarrow>
    key_priority l < key_priority k
    \<or> key_priority k = key_priority l \<and> key_run_at k < key_run_at l"

instance
  by standard (auto simp: less_eq_claim_key_def less_claim_key_def claim_key.expand)

end

definition claim_order :: "Task \<Rightarrow> claim_key" where
  "claim_order t = ClaimKey (t_priority t) (t_run_at t)"

section \<open>Claim (claim.go)\<close>

text \<open>
  Rows that other transactions hold locked are skipped: locked lists their ids. Rows that
  tie in the order are taken in the table's order, which Postgres leaves open; nothing
  below depends on it.
\<close>

definition claimable :: "db \<Rightarrow> string \<Rightarrow> Task \<Rightarrow> bool" where
  "claimable d queue t \<longleftrightarrow>
    t_queue t = queue \<and> t_status t = StatusPending \<and> t_run_at t \<le> clock d"

definition claim_candidates :: "db \<Rightarrow> int list \<Rightarrow> string \<Rightarrow> nat \<Rightarrow> Task list" where
  "claim_candidates d locked queue limit =
    take limit (sort_key claim_order
      (filter (\<lambda>t. claimable d queue t \<and> t_id t \<notin> set locked) (tasks d)))"

definition claim_row :: "string \<Rightarrow> instant \<Rightarrow> Task \<Rightarrow> Task" where
  "claim_row workerID now t =
    t\<lparr>t_status := StatusRunning, t_claimed_by := Some workerID, t_heartbeat_at := Some now,
      t_attempts := t_attempts t + 1\<rparr>"

definition Claim :: "db \<Rightarrow> int list \<Rightarrow> string \<Rightarrow> string \<Rightarrow> nat \<Rightarrow> db \<times> Task list" where
  "Claim d locked queue workerID limit =
    (let ids = map t_id (claim_candidates d locked queue limit);
         d' = update_tasks (\<lambda>t. t_id t \<in> set ids) (claim_row workerID (clock d)) d;
         claimed = filter (\<lambda>t. t_id t \<in> set ids) (tasks d')
     in (d', sort_key claim_order claimed))"

section \<open>Heartbeat (heartbeat.go) and Complete (complete.go)\<close>

definition heartbeat_where :: "int list \<Rightarrow> string \<Rightarrow> Task \<Rightarrow> bool" where
  "heartbeat_where ids workerID t \<longleftrightarrow>
    t_id t \<in> set ids \<and> t_claimed_by t = Some workerID \<and> t_status t = StatusRunning"

definition heartbeat_row :: "instant \<Rightarrow> Task \<Rightarrow> Task" where
  "heartbeat_row now t = t\<lparr>t_heartbeat_at := Some now\<rparr>"

definition Heartbeat :: "db \<Rightarrow> int list \<Rightarrow> string \<Rightarrow> db \<times> nat" where
  "Heartbeat d ids workerID =
    (if ids = [] then (d, 0)
     else (update_tasks (heartbeat_where ids workerID) (heartbeat_row (clock d)) d,
           rows_affected (heartbeat_where ids workerID) (tasks d)))"

definition owned_by :: "int \<Rightarrow> string \<Rightarrow> Task \<Rightarrow> bool" where
  "owned_by i workerID t \<longleftrightarrow> t_id t = i \<and> t_claimed_by t = Some workerID"

definition complete_row :: "Task \<Rightarrow> Task" where
  "complete_row t =
    t\<lparr>t_status := StatusSucceeded, t_claimed_by := None, t_heartbeat_at := None\<rparr>"

definition Complete :: "db \<Rightarrow> int \<Rightarrow> string \<Rightarrow> db \<times> StoreErr option" where
  "Complete d i workerID =
    (update_tasks (owned_by i workerID) complete_row d,
     if rows_affected (owned_by i workerID) (tasks d) = 0 then Some ErrClaimLost else None)"

section \<open>Fail (fail.go)\<close>

text \<open>
  interval '1 second' times a number of seconds, to the microsecond an interval holds,
  and the capped exponential both retry policies share. The power is exact here; the
  server's double precision overflows from attempt 1024 on, beyond the 100 the API allows.
\<close>

definition interval_seconds :: "real \<Rightarrow> duration" where
  "interval_seconds x = round (x * of_int second)"

definition sql_backoff :: "int \<Rightarrow> int" where
  "sql_backoff attempts = min 300 (2 ^ nat attempts * 5)"

text \<open>random() is an argument: a number from 0 up to but not including 1.\<close>

definition fail_row :: "real \<Rightarrow> instant \<Rightarrow> string \<Rightarrow> Task \<Rightarrow> Task" where
  "fail_row random now msg t =
    t\<lparr>t_status := (if t_attempts t < t_max_attempts t then StatusPending else StatusDead),
      t_run_at := (if t_attempts t < t_max_attempts t
                   then now + interval_seconds (random * of_int (sql_backoff (t_attempts t)))
                   else t_run_at t),
      t_claimed_by := None,
      t_heartbeat_at := None,
      t_last_error := Some msg\<rparr>"

definition Fail :: "real \<Rightarrow> db \<Rightarrow> int \<Rightarrow> string \<Rightarrow> string option \<Rightarrow> db \<times> StoreErr option" where
  "Fail random d i workerID execErr =
    (let msg = (case execErr of None \<Rightarrow> [] | Some e \<Rightarrow> TruncateError e)
     in (update_tasks (owned_by i workerID) (fail_row random (clock d) msg) d,
         if rows_affected (owned_by i workerID) (tasks d) = 0 then Some ErrClaimLost else None))"

section \<open>RecoverOrphans (recover\_orphans.go)\<close>

definition orphaned :: "instant \<Rightarrow> Task \<Rightarrow> bool" where
  "orphaned now t \<longleftrightarrow>
    t_status t = StatusRunning
    \<and> (case t_heartbeat_at t of None \<Rightarrow> False | Some h \<Rightarrow> h < now - 90 * second)"

definition recover_row :: "instant \<Rightarrow> Task \<Rightarrow> Task" where
  "recover_row now t =
    t\<lparr>t_status := (if t_attempts t < t_max_attempts t then StatusPending else StatusDead),
      t_run_at := (if t_attempts t < t_max_attempts t
                   then now + interval_seconds (of_int (sql_backoff (t_attempts t)))
                   else t_run_at t),
      t_claimed_by := None,
      t_last_error := Some ''orphaned: heartbeat expired''\<rparr>"

definition RecoverOrphans :: "db \<Rightarrow> db \<times> nat" where
  "RecoverOrphans d =
    (update_tasks (orphaned (clock d)) (recover_row (clock d)) d,
     rows_affected (orphaned (clock d)) (tasks d))"

section \<open>Get and Cancel (get\_cancel.go)\<close>

definition Get :: "db \<Rightarrow> int \<Rightarrow> StoreErr + Task" where
  "Get d i = (case task_by_id d i of None \<Rightarrow> Inl ErrNotFound | Some t \<Rightarrow> Inr t)"

definition cancel_where :: "int \<Rightarrow> Task \<Rightarrow> bool" where
  "cancel_where i t \<longleftrightarrow> t_id t = i \<and> t_status t = StatusPending"

definition cancel_row :: "Task \<Rightarrow> Task" where
  "cancel_row t = t\<lparr>t_status := StatusCancelled\<rparr>"

definition Cancel :: "db \<Rightarrow> int \<Rightarrow> db \<times> StoreErr option" where
  "Cancel d i =
    (let d' = update_tasks (cancel_where i) cancel_row d
     in if 0 < rows_affected (cancel_where i) (tasks d) then (d', None)
        else (case Get d' i of
                Inl e \<Rightarrow> (d', Some e)
              | Inr _ \<Rightarrow> (d', Some ErrNotCancellable)))"

section \<open>What each update keeps of a row\<close>

lemma keeps_identity_rows [row_laws]:
  "keeps_identity (claim_row w now)"
  "keeps_identity (heartbeat_row now)"
  "keeps_identity complete_row"
  "keeps_identity (fail_row random now msg)"
  "keeps_identity (recover_row now)"
  "keeps_identity cancel_row"
  by (simp_all add: keeps_identity_def claim_row_def heartbeat_row_def complete_row_def
      fail_row_def recover_row_def cancel_row_def)

lemmas row_defs = claim_row_def heartbeat_row_def complete_row_def fail_row_def
  recover_row_def cancel_row_def

lemma claim_row_inv [row_laws]:
  "row_inv now t \<Longrightarrow> t_status t = StatusPending \<Longrightarrow> row_inv now (claim_row w now t)"
  by (auto simp: row_inv_def tasks_checks_iff tasks_not_null_def claim_row_def)

lemma heartbeat_row_inv [row_laws]: "row_inv now t \<Longrightarrow> row_inv now (heartbeat_row now t)"
  by (auto simp: row_inv_def tasks_checks_iff tasks_not_null_def heartbeat_row_def)

lemma complete_row_inv [row_laws]: "row_inv now t \<Longrightarrow> row_inv now (complete_row t)"
  by (auto simp: row_inv_def tasks_checks_iff tasks_not_null_def complete_row_def)

lemma fail_row_inv [row_laws]: "row_inv now t \<Longrightarrow> row_inv now (fail_row random now' msg t)"
  by (auto simp: row_inv_def tasks_checks_iff tasks_not_null_def fail_row_def)

lemma recover_row_inv [row_laws]: "row_inv now t \<Longrightarrow> row_inv now (recover_row now' t)"
  by (auto simp: row_inv_def tasks_checks_iff tasks_not_null_def recover_row_def)

lemma cancel_row_inv [row_laws]:
  "row_inv now t \<Longrightarrow> t_status t = StatusPending \<Longrightarrow> row_inv now (cancel_row t)"
  by (auto simp: row_inv_def tasks_checks_iff tasks_not_null_def cancel_row_def)

section \<open>Every method keeps the invariant\<close>

lemma candidates_claimable:
  "t \<in> set (claim_candidates d locked queue n) \<Longrightarrow>
    t \<in> set (tasks d) \<and> claimable d queue t \<and> t_id t \<notin> set locked"
  unfolding claim_candidates_def by (auto dest: set_mp [OF set_take_sort_key])

lemma Claim_inv [step_inv]:
  assumes "db_inv d"
  shows "db_inv (fst (Claim d locked queue w n))"
proof -
  have "t_status t = StatusPending"
    if "t \<in> set (tasks d)" and "t_id t \<in> t_id ` set (claim_candidates d locked queue n)" for t
  proof -
    from that(2) obtain u where u: "u \<in> set (claim_candidates d locked queue n)"
      and eq: "t_id t = t_id u" by auto
    then have "t = u"
      using that(1) candidates_claimable [OF u] distinct_key_eq [OF db_inv_ids [OF assms]] by blast
    then show ?thesis using candidates_claimable [OF u] by (simp add: claimable_def)
  qed
  then show ?thesis
    using assms by (auto simp: Claim_def Let_def intro!: db_inv_update row_laws)
qed

lemma Heartbeat_inv [step_inv]: "db_inv d \<Longrightarrow> db_inv (fst (Heartbeat d ids w))"
  by (auto simp: Heartbeat_def intro!: db_inv_update row_laws)

lemma Complete_inv [step_inv]: "db_inv d \<Longrightarrow> db_inv (fst (Complete d i w))"
  by (auto simp: Complete_def intro!: db_inv_update row_laws)

lemma Fail_inv [step_inv]: "db_inv d \<Longrightarrow> db_inv (fst (Fail random d i w e))"
  by (auto simp: Fail_def Let_def intro!: db_inv_update row_laws)

lemma RecoverOrphans_inv [step_inv]: "db_inv d \<Longrightarrow> db_inv (fst (RecoverOrphans d))"
  by (auto simp: RecoverOrphans_def intro!: db_inv_update row_laws)

lemma Cancel_fst: "fst (Cancel d i) = update_tasks (cancel_where i) cancel_row d"
  by (auto simp: Cancel_def Let_def split: sum.splits)

lemma Cancel_inv [step_inv]: "db_inv d \<Longrightarrow> db_inv (fst (Cancel d i))"
  unfolding Cancel_fst by (rule db_inv_update) (auto simp: cancel_where_def intro: row_laws)

end
