(* ===== verification/Claiming_Facts.thy ===== *)
theory Claiming_Facts
  imports Claiming
begin

text \<open>
  What the claim, heartbeat, completion, failure, recovery and cancellation of a task do,
  in the terms the store's interface promises them (internal/store/store.go): a claim is
  specified by claim_spec without saying how rows are picked, and the model's statement
  meets it.
\<close>

section \<open>Claim returns the claimed rows in order\<close>

lemma claim_order_claim_row [simp]: "claim_order (claim_row w now t) = claim_order t"
  by (simp add: claim_order_def claim_row_def)

lemma distinct_candidates:
  "db_inv d \<Longrightarrow> distinct (map t_id (claim_candidates d locked queue n))"
  unfolding claim_candidates_def
  by (intro distinct_map_take_sort_key distinct_map_filterI db_inv_ids)

lemma take_filter_key:
  assumes "distinct (map k xs)"
  shows "filter (\<lambda>x. k x \<in> k ` set (take n xs)) xs = take n xs"
proof -
  let ?p = "\<lambda>x. k x \<in> k ` set (take n xs)"
  have "distinct (map k (take n xs) @ map k (drop n xs))"
    using assms by (metis append_take_drop_id map_append)
  then have "\<not> ?p x" if "x \<in> set (drop n xs)" for x
    using that by auto
  then have "filter ?p (drop n xs) = []"
    by (simp add: filter_empty_conv)
  moreover have "filter ?p (take n xs) = take n xs"
    by (simp add: filter_id_conv)
  moreover have "filter ?p xs = filter ?p (take n xs) @ filter ?p (drop n xs)"
    by (metis append_take_drop_id filter_append)
  ultimately show ?thesis by simp
qed

lemma candidates_filter:
  fixes locked queue n
  assumes "db_inv d"
  defines "C \<equiv> claim_candidates d locked queue n"
  shows "sort_key claim_order (filter (\<lambda>t. t_id t \<in> t_id ` set C) (tasks d)) = C"
proof -
  let ?e = "\<lambda>t. claimable d queue t \<and> t_id t \<notin> set locked"
  let ?S = "sort_key claim_order (filter ?e (tasks d))"
  have C: "C = take n ?S" by (simp add: C_def claim_candidates_def)
  have elig: "?e t" if "t \<in> set (tasks d)" "t_id t \<in> t_id ` set C" for t
  proof -
    from that(2) obtain u where u: "u \<in> set C" "t_id t = t_id u" by auto
    have "u \<in> set (tasks d) \<and> ?e u" using u(1) candidates_claimable by (simp add: C_def)
    then have "t = u" using distinct_key_eq [OF db_inv_ids [OF assms(1)] that(1) _ u(2)] by blast
    with \<open>u \<in> set (tasks d) \<and> ?e u\<close> show ?thesis by simp
  qed
  have "filter (\<lambda>t. t_id t \<in> t_id ` set C) (tasks d)
      = filter (\<lambda>t. t_id t \<in> t_id ` set C) (filter ?e (tasks d))"
    by (auto intro!: filter_cong dest: elig)
  then have "sort_key claim_order (filter (\<lambda>t. t_id t \<in> t_id ` set C) (tasks d))
      = filter (\<lambda>t. t_id t \<in> t_id ` set C) ?S"
    by (simp only: filter_sort)
  also have "\<dots> = C"
  proof -
    have "distinct (map t_id ?S)"
      using distinct_map_take_sort_key [of t_id "filter ?e (tasks d)" "length (filter ?e (tasks d))"
          claim_order] distinct_map_filterI [OF db_inv_ids [OF assms(1)]] by simp
    then show ?thesis unfolding C by (rule take_filter_key)
  qed
  finally show ?thesis .
qed

lemma filter_update_where:
  assumes "\<And>r. k (f r) = k r"
  shows "filter (\<lambda>t. k t \<in> K) (update_where (\<lambda>t. k t \<in> K) f ts) = map f (filter (\<lambda>t. k t \<in> K) ts)"
  using assms by (induction ts) auto

lemma sort_key_map:
  assumes "\<And>x. g (f x) = g x"
  shows "sort_key g (map f xs) = map f (sort_key g xs)"
proof (induction xs)
  case (Cons x xs)
  have "insort_key g (f x) (map f ys) = map f (insort_key g x ys)" for ys
    using assms by (induction ys) auto
  with Cons show ?case by simp
qed simp

lemma Claim_eq:
  fixes locked queue n
  assumes "db_inv d"
  defines "C \<equiv> claim_candidates d locked queue n"
  shows "Claim d locked queue w n =
    (update_tasks (\<lambda>t. t_id t \<in> t_id ` set C) (claim_row w (clock d)) d,
     map (claim_row w (clock d)) C)"
proof -
  have "t_id (claim_row w (clock d) r) = t_id r" for r by (simp add: claim_row_def)
  then show ?thesis
    using candidates_filter [OF assms(1), of locked queue n]
    by (simp add: Claim_def Let_def filter_update_where sort_key_map C_def)
qed

section \<open>The contract of a claim\<close>

text \<open>
  Claimer.Claim's promise: of the rows that are due in the queue and not locked, as many
  as the limit allows, none of them behind one that is left; they come back in order, as
  they are now stored; and no other row changes.
\<close>

definition goes_before :: "Task \<Rightarrow> Task \<Rightarrow> bool" where
  "goes_before t u \<longleftrightarrow>
    t_priority u < t_priority t \<or> t_priority t = t_priority u \<and> t_run_at t \<le> t_run_at u"

definition claim_spec :: "db \<Rightarrow> int list \<Rightarrow> string \<Rightarrow> string \<Rightarrow> nat \<Rightarrow> db \<Rightarrow> Task list \<Rightarrow> bool" where
  "claim_spec d locked queue w n d' out \<longleftrightarrow>
    (let due = {t \<in> set (tasks d). (t_queue t = queue \<and> t_status t = StatusPending
             \<and> t_run_at t \<le> clock d) \<and> t_id t \<notin> set locked};
         taken = {t \<in> due. t_id t \<in> t_id ` set out};
         started = (\<lambda>t. t\<lparr>t_status := StatusRunning, t_claimed_by := Some w,
             t_heartbeat_at := Some (clock d), t_attempts := t_attempts t + 1\<rparr>)
     in distinct (map t_id out)
        \<and> set out = started ` taken
        \<and> length out = min n (card due)
        \<and> sorted_wrt goes_before out
        \<and> (\<forall>t \<in> taken. \<forall>u \<in> due - taken. goes_before t u)
        \<and> d' = d\<lparr>tasks := map (\<lambda>t. if t \<in> taken then started t else t) (tasks d)\<rparr>)"

text \<open>The same in the words of the statement.\<close>

lemma goes_before_order: "goes_before t u \<longleftrightarrow> claim_order t \<le> claim_order u"
  by (simp add: goes_before_def claim_order_def less_eq_claim_key_def)

lemma claim_spec_rows: "claim_spec d locked queue w n d' out \<longleftrightarrow>
    (let due = {t \<in> set (tasks d). claimable d queue t \<and> t_id t \<notin> set locked};
         taken = {t \<in> due. t_id t \<in> t_id ` set out}
     in distinct (map t_id out)
        \<and> set out = claim_row w (clock d) ` taken
        \<and> length out = min n (card due)
        \<and> sorted (map claim_order out)
        \<and> (\<forall>t \<in> taken. \<forall>u \<in> due - taken. claim_order t \<le> claim_order u)
        \<and> d' = d\<lparr>tasks := map (\<lambda>t. if t \<in> taken then claim_row w (clock d) t else t) (tasks d)\<rparr>)"
  unfolding claim_spec_def claimable_def claim_row_def [abs_def] goes_before_order [abs_def] sorted_map
    Let_def by (rule refl)

lemma Claim_meets_spec:
  assumes inv: "db_inv d" and "Claim d locked queue w n = (d', out)"
  shows "claim_spec d locked queue w n d' out"
proof -
  define C where "C = claim_candidates d locked queue n"
  define due where "due = {t \<in> set (tasks d). claimable d queue t \<and> t_id t \<notin> set locked}"
  let ?xs = "filter (\<lambda>t. claimable d queue t \<and> t_id t \<notin> set locked) (tasks d)"
  note ids = db_inv_ids [OF inv]
  have d': "d' = update_tasks (\<lambda>t. t_id t \<in> t_id ` set C) (claim_row w (clock d)) d"
    and out: "out = map (claim_row w (clock d)) C"
    using assms Claim_eq [OF inv, of locked queue w n] by (simp_all add: C_def)
  have C: "C = take n (sort_key claim_order ?xs)" by (simp add: C_def claim_candidates_def)
  have due: "due = set ?xs" by (auto simp: due_def)
  have sub: "set C \<subseteq> due" using set_take_sort_key [of n claim_order ?xs] by (simp add: C due)
  have out_ids: "t_id ` set out = t_id ` set C"
    by (auto simp: out claim_row_def image_iff)
  have inj: "t = u" if "t \<in> set (tasks d)" "u \<in> set (tasks d)" "t_id t = t_id u" for t u
    using distinct_key_eq [OF ids that] .
  have taken: "{t \<in> due. t_id t \<in> t_id ` set out} = set C"
    using sub inj unfolding out_ids by (auto simp: due_def)
  have ids_out: "map t_id out = map t_id C" by (simp add: out claim_row_def)
  have "distinct ?xs" using ids by (simp add: distinct_map)
  then have "card due = length ?xs" unfolding due by (rule distinct_card)
  then have len: "length out = min n (card due)" by (simp add: out C min.commute)
  have rest: "claim_order t \<le> claim_order u" if "t \<in> set C" "u \<in> due - set C" for t u
  proof (rule take_sort_key_le [where n = n and k = claim_order and xs = ?xs])
    show "t \<in> set (take n (sort_key claim_order ?xs))" using that C by simp
    have "u \<in> set (sort_key claim_order ?xs)" using that due by simp
    then have "u \<in> set (take n (sort_key claim_order ?xs)) \<union> set (drop n (sort_key claim_order ?xs))"
      by (metis append_take_drop_id set_append)
    then show "u \<in> set (drop n (sort_key claim_order ?xs))" using that C by auto
  qed
  have "update_where (\<lambda>t. t_id t \<in> t_id ` set C) (claim_row w (clock d)) (tasks d)
      = map (\<lambda>t. if t \<in> set C then claim_row w (clock d) t else t) (tasks d)"
    unfolding update_where_def
    using sub inj by (auto simp: due_def intro!: map_cong)
  then have "d' = d\<lparr>tasks := map (\<lambda>t. if t \<in> set C then claim_row w (clock d) t else t) (tasks d)\<rparr>"
    by (simp add: d' update_tasks_def)
  moreover have "sorted (map claim_order out)"
    using sorted_take_sort_key [of claim_order n ?xs] by (simp add: out C comp_def)
  moreover have "distinct (map t_id out)"
    using distinct_candidates [OF inv] by (simp add: ids_out C_def)
  moreover have "set out = claim_row w (clock d) ` set C" by (simp add: out)
  ultimately show ?thesis
    unfolding claim_spec_rows Let_def due_def [symmetric] taken using len rest by blast
qed

section \<open>One row addressed by its id and its owner\<close>

lemma affected_by_id:
  assumes "db_inv d"
  shows "rows_affected (\<lambda>t. t_id t = i \<and> q t) (tasks d) =
    (case task_by_id d i of None \<Rightarrow> 0 | Some t \<Rightarrow> if q t then 1 else 0)"
  using rows_affected_key [OF db_inv_ids [OF assms]] by (simp add: task_by_id_def)

lemma owned_affected:
  "db_inv d \<Longrightarrow> rows_affected (owned_by i w) (tasks d) =
    (case task_by_id d i of None \<Rightarrow> 0 | Some t \<Rightarrow> if t_claimed_by t = Some w then 1 else 0)"
  using affected_by_id [of d i "\<lambda>t. t_claimed_by t = Some w"]
  by (simp add: owned_by_def [abs_def])

definition holds_claim :: "db \<Rightarrow> int \<Rightarrow> string \<Rightarrow> bool" where
  "holds_claim d i w \<longleftrightarrow> (\<exists>t. task_by_id d i = Some t \<and> t_claimed_by t = Some w)"

lemma owned_zero_iff:
  "db_inv d \<Longrightarrow> rows_affected (owned_by i w) (tasks d) = 0 \<longleftrightarrow> \<not> holds_claim d i w"
  by (auto simp: owned_affected holds_claim_def split: option.splits)

lemma update_tasks_unowned:
  assumes "db_inv d" and "\<not> holds_claim d i w"
  shows "update_tasks (owned_by i w) f d = d"
  using assms update_where_zero [of "owned_by i w" "tasks d" f]
  by (simp add: owned_zero_iff update_tasks_def)

lemma holds_claim_running:
  "db_inv d \<Longrightarrow> holds_claim d i w \<Longrightarrow>
    \<exists>t. task_by_id d i = Some t \<and> t_status t = StatusRunning \<and> t_claimed_by t = Some w"
  using row_inv_claimed [OF task_by_id_row_inv [of d i]] by (auto simp: holds_claim_def)

lemma Complete_lost: "db_inv d \<Longrightarrow> \<not> holds_claim d i w \<Longrightarrow> Complete d i w = (d, Some ErrClaimLost)"
  by (simp add: Complete_def update_tasks_unowned owned_zero_iff)

lemma Complete_held:
  "db_inv d \<Longrightarrow> holds_claim d i w \<Longrightarrow>
    Complete d i w = (update_tasks (owned_by i w) complete_row d, None)"
  by (simp add: Complete_def owned_zero_iff)

lemma Fail_lost: "db_inv d \<Longrightarrow> \<not> holds_claim d i w \<Longrightarrow> Fail random d i w e = (d, Some ErrClaimLost)"
  by (simp add: Fail_def Let_def update_tasks_unowned owned_zero_iff)

lemma Fail_held:
  "db_inv d \<Longrightarrow> holds_claim d i w \<Longrightarrow>
    Fail random d i w e =
      (update_tasks (owned_by i w)
        (fail_row random (clock d) (case e of None \<Rightarrow> [] | Some m \<Rightarrow> TruncateError m)) d, None)"
  by (simp add: Fail_def Let_def owned_zero_iff)

lemma task_by_id_owned:
  assumes "keeps_identity f" and "task_by_id d i = Some t" and "t_claimed_by t = Some w"
  shows "task_by_id (update_tasks (owned_by i w) f d) j =
    (if j = i then Some (f t) else task_by_id d j)"
proof (cases "j = i")
  case True
  have "t_id t = i" using assms(2) by (simp add: task_by_id_SomeD)
  then show ?thesis using assms True by (simp add: task_by_id_update owned_by_def)
next
  case False
  have "map_option (\<lambda>t. if owned_by i w t then f t else t) (task_by_id d j) = task_by_id d j"
  proof (cases "task_by_id d j")
    case (Some u)
    then have "t_id u = j" by (simp add: task_by_id_SomeD)
    then show ?thesis using False Some by (simp add: owned_by_def)
  qed simp
  then show ?thesis using assms(1) False by (simp add: task_by_id_update)
qed

section \<open>The backoff\<close>

lemma interval_seconds_int [simp]: "interval_seconds (of_int n) = n * second"
proof -
  have "(of_int n :: real) * of_int second = of_int (n * second)" by simp
  then show ?thesis unfolding interval_seconds_def by (simp only: round_of_int)
qed

lemma sql_backoff_bounds: "5 \<le> sql_backoff a" "sql_backoff a \<le> 300"
  by (simp_all add: sql_backoff_def)

lemma sql_backoff_mono: "a \<le> b \<Longrightarrow> sql_backoff a \<le> sql_backoff b"
  by (simp add: sql_backoff_def min_le_iff_disj power_increasing nat_mono)

lemma jittered_bounds:
  assumes "0 \<le> r" and "r < 1" and "0 \<le> n"
  shows "0 \<le> interval_seconds (r * of_int n)" and "interval_seconds (r * of_int n) \<le> n * second"
proof -
  have "0 \<le> r * of_int n * of_int second" using assms by (simp add: second_def)
  then have "round (0 :: real) \<le> round (r * of_int n * of_int second)" by (rule round_mono)
  then show "0 \<le> interval_seconds (r * of_int n)" by (simp add: interval_seconds_def)
  have "r * of_int n \<le> of_int n" using assms by (simp add: mult_left_le_one_le)
  then have "r * of_int n * of_int second \<le> of_int n * of_int second"
    by (rule mult_right_mono) (simp add: second_def)
  then have "r * of_int n * of_int second \<le> of_int (n * second)" by simp
  then have "round (r * of_int n * of_int second) \<le> round (of_int (n * second) :: real)"
    by (rule round_mono)
  then show "interval_seconds (r * of_int n) \<le> n * second"
    by (simp only: interval_seconds_def round_of_int)
qed

end
