(* ===== verification/Schedule_Store.thy ===== *)
theory Schedule_Store
  imports Schema
begin

text \<open>
  internal/store/postgres/schedule.go: the schedules table's insert with its defaults,
  its reads, the enabled flag and the resume point that only moves forward.
\<close>

section \<open>CreateSchedule\<close>

definition createScheduleSQL :: "db \<Rightarrow> string \<Rightarrow> string \<Rightarrow> string \<Rightarrow> string \<Rightarrow> string option \<Rightarrow>
    int \<Rightarrow> int \<Rightarrow> db \<times> (PgErr + Schedule)" where
  "createScheduleSQL d cron timezone queue handler payload priority maxAttempts =
    (if \<not> (int4 priority \<and> int4 maxAttempts) then (d, Inl IntegerOutOfRange)
     else
       let row = \<lparr>s_id = next_schedule_id d, s_cron = cron, s_timezone = timezone,
                  s_queue = queue, s_handler = handler, s_payload = payload,
                  s_priority = priority, s_max_attempts = maxAttempts, s_enabled = True,
                  s_last_materialized_at = None, s_created_at = clock d\<rparr>;
           d' = d\<lparr>next_schedule_id := next_schedule_id d + 1\<rparr>
       in if payload = None then (d', Inl NotNullViolation)
          else if \<not> schedules_checks row then (d', Inl CheckViolation)
          else (d'\<lparr>schedules := schedules d @ [row]\<rparr>, Inr row))"

definition CreateSchedule :: "db \<Rightarrow> Schedule \<Rightarrow> db \<times> (StoreErr + Schedule)" where
  "CreateSchedule d sc =
    (let timezone = (if s_timezone sc = [] then DefaultTimezone else s_timezone sc);
         queue = (if s_queue sc = [] then ''default'' else s_queue sc);
         maxAttempts = (if s_max_attempts sc = 0 then 5 else s_max_attempts sc)
     in case createScheduleSQL d (s_cron sc) timezone queue (s_handler sc) (s_payload sc)
               (s_priority sc) maxAttempts of
          (d', Inl _) \<Rightarrow> (d', Inl (ErrWrapped ''creating schedule''))
        | (d', Inr created) \<Rightarrow> (d', Inr created))"

section \<open>Reads\<close>

definition schedule_by_id :: "db \<Rightarrow> int \<Rightarrow> Schedule option" where
  "schedule_by_id d i = by_key s_id i (schedules d)"

definition GetSchedule :: "db \<Rightarrow> int \<Rightarrow> StoreErr + Schedule" where
  "GetSchedule d i =
    (case schedule_by_id d i of None \<Rightarrow> Inl ErrNotFound | Some s \<Rightarrow> Inr s)"

definition ListSchedules :: "db \<Rightarrow> Schedule list" where
  "ListSchedules d = sort_key s_id (schedules d)"

definition ListEnabledSchedules :: "db \<Rightarrow> Schedule list" where
  "ListEnabledSchedules d = sort_key s_id (filter s_enabled (schedules d))"

section \<open>SetScheduleEnabled and AdvanceLastMaterializedAt\<close>

definition update_schedules :: "(Schedule \<Rightarrow> bool) \<Rightarrow> (Schedule \<Rightarrow> Schedule) \<Rightarrow> db \<Rightarrow> db" where
  "update_schedules p f d = d\<lparr>schedules := update_where p f (schedules d)\<rparr>"

definition SetScheduleEnabled :: "db \<Rightarrow> int \<Rightarrow> bool \<Rightarrow> db \<times> (StoreErr + Schedule)" where
  "SetScheduleEnabled d i enabled =
    (let d' = update_schedules (\<lambda>s. s_id s = i) (\<lambda>s. s\<lparr>s_enabled := enabled\<rparr>) d
     in case schedule_by_id d' i of None \<Rightarrow> (d', Inl ErrNotFound) | Some s \<Rightarrow> (d', Inr s))"

definition advance_where :: "int \<Rightarrow> instant \<Rightarrow> Schedule \<Rightarrow> bool" where
  "advance_where scheduleID at s \<longleftrightarrow>
    s_id s = scheduleID
    \<and> (case s_last_materialized_at s of None \<Rightarrow> True | Some prev \<Rightarrow> prev < at)"

definition AdvanceLastMaterializedAt :: "db \<Rightarrow> int \<Rightarrow> instant \<Rightarrow> db" where
  "AdvanceLastMaterializedAt d scheduleID at =
    update_schedules (advance_where scheduleID at) (\<lambda>s. s\<lparr>s_last_materialized_at := Some at\<rparr>) d"

section \<open>They keep the invariant\<close>

lemma update_schedules_simps [simp]:
  "schedules (update_schedules p f d) = update_where p f (schedules d)"
  "tasks (update_schedules p f d) = tasks d"
  "clock (update_schedules p f d) = clock d"
  "next_task_id (update_schedules p f d) = next_task_id d"
  "next_schedule_id (update_schedules p f d) = next_schedule_id d"
  by (simp_all add: update_schedules_def)

lemma fkey_mono:
  "tasks_schedule_id_fkey ss t \<Longrightarrow> s_id ` set ss \<subseteq> s_id ` set ss' \<Longrightarrow> tasks_schedule_id_fkey ss' t"
  by (auto simp: tasks_schedule_id_fkey_def split: option.splits)

definition schedule_ok :: "db \<Rightarrow> Schedule \<Rightarrow> bool" where
  "schedule_ok d s \<longleftrightarrow> s_id s < next_schedule_id d \<and> schedules_checks s
    \<and> s_payload s \<noteq> None \<and> int4 (s_priority s) \<and> int4 (s_max_attempts s)
    \<and> s_created_at s \<le> clock d"

lemma db_inv_schedules:
  "db_inv d \<longleftrightarrow>
    distinct (map t_id (tasks d))
    \<and> (\<forall>t \<in> set (tasks d). t_id t < next_task_id d \<and> row_inv (clock d) t
        \<and> tasks_schedule_id_fkey (schedules d) t)
    \<and> keys_unique (tasks d)
    \<and> distinct (map s_id (schedules d))
    \<and> (\<forall>s \<in> set (schedules d). schedule_ok d s)"
  by (simp add: db_inv_def schedule_ok_def)

lemma db_inv_update_schedules:
  assumes inv: "db_inv d"
    and id: "\<And>s. s_id (f s) = s_id s"
    and ok: "\<And>s. schedule_ok d s \<Longrightarrow> schedule_ok d (f s)"
  shows "db_inv (update_schedules p f d)"
proof -
  let ?ss = "update_where p f (schedules d)"
  have ids: "map s_id ?ss = map s_id (schedules d)"
    by (rule map_update_where) (rule id)
  then have set_ids: "s_id ` set ?ss = s_id ` set (schedules d)"
    by (metis set_map)
  have same: "schedule_ok (update_schedules p f d) s = schedule_ok d s" for s
    by (simp add: schedule_ok_def)
  have ok': "schedule_ok d s" if "s \<in> set (schedules d)" for s
    using inv that by (simp add: db_inv_schedules)
  have "schedule_ok d s" if "s \<in> set ?ss" for s
    by (rule update_where_pointwise [where P = "schedule_ok d", OF _ ok' that]) (auto intro: ok ok')
  moreover have "tasks_schedule_id_fkey ?ss t" if "t \<in> set (tasks d)" for t
    using db_inv_fkey [OF inv that] set_ids by (auto intro: fkey_mono)
  ultimately show ?thesis
    using inv ids unfolding db_inv_schedules by (simp add: same)
qed

lemma SetScheduleEnabled_inv [step_inv]: "db_inv d \<Longrightarrow> db_inv (fst (SetScheduleEnabled d i b))"
proof -
  assume "db_inv d"
  then have "db_inv (update_schedules (\<lambda>s. s_id s = i) (\<lambda>s. s\<lparr>s_enabled := b\<rparr>) d)"
    by (rule db_inv_update_schedules) (simp_all add: schedule_ok_def schedules_checks_def)
  then show ?thesis by (simp add: SetScheduleEnabled_def Let_def split: option.splits)
qed

lemma AdvanceLastMaterializedAt_inv [step_inv]:
  "db_inv d \<Longrightarrow> db_inv (AdvanceLastMaterializedAt d i at)"
  unfolding AdvanceLastMaterializedAt_def
  by (rule db_inv_update_schedules) (simp_all add: schedule_ok_def schedules_checks_def)

lemma createScheduleSQL_inv:
  assumes "db_inv d" and "createScheduleSQL d c tz q h p prio m = (d', r)"
  shows "db_inv d'"
proof -
  let ?d1 = "d\<lparr>next_schedule_id := next_schedule_id d + 1\<rparr>"
  let ?row = "\<lparr>s_id = next_schedule_id d, s_cron = c, s_timezone = tz, s_queue = q,
    s_handler = h, s_payload = p, s_priority = prio, s_max_attempts = m, s_enabled = True,
    s_last_materialized_at = None, s_created_at = clock d\<rparr>"
  have bump: "db_inv ?d1"
    using assms(1) unfolding db_inv_schedules by (fastforce simp: schedule_ok_def)
  have "db_inv (?d1\<lparr>schedules := schedules d @ [?row]\<rparr>)"
    if ok: "schedules_checks ?row" "p \<noteq> None" "int4 prio" "int4 m"
  proof -
    have "next_schedule_id d \<notin> s_id ` set (schedules d)"
      using assms(1) by (auto simp: db_inv_def)
    moreover have "tasks_schedule_id_fkey (schedules d @ [?row]) t" if "t \<in> set (tasks d)" for t
      using db_inv_fkey [OF assms(1) that] by (auto intro: fkey_mono)
    moreover have "schedule_ok ?d1 s" if "s \<in> set (schedules d)" for s
      using bump that by (simp add: db_inv_schedules)
    ultimately show ?thesis
      using bump ok unfolding db_inv_schedules by (simp add: schedule_ok_def)
  qed
  with bump assms(2) assms(1) show ?thesis
    by (auto simp: createScheduleSQL_def Let_def split: if_splits)
qed

lemma CreateSchedule_inv [step_inv]: "db_inv d \<Longrightarrow> db_inv (fst (CreateSchedule d sc))"
  unfolding CreateSchedule_def Let_def
  by (split prod.split, split sum.split) (metis createScheduleSQL_inv fst_conv)

section \<open>The resume point moves forward only\<close>

definition resume_point :: "db \<Rightarrow> int \<Rightarrow> instant option" where
  "resume_point d i = Option.bind (schedule_by_id d i) s_last_materialized_at"

lemma resume_point_advance:
  "resume_point (AdvanceLastMaterializedAt d i at) j =
    (if j = i \<and> schedule_by_id d i \<noteq> None
     then Some (case resume_point d i of None \<Rightarrow> at | Some prev \<Rightarrow> max prev at)
     else resume_point d j)"
proof -
  have found: "schedule_by_id (AdvanceLastMaterializedAt d i at) j =
    map_option (\<lambda>s. if advance_where i at s then s\<lparr>s_last_materialized_at := Some at\<rparr> else s)
      (schedule_by_id d j)"
    by (simp add: schedule_by_id_def AdvanceLastMaterializedAt_def by_key_update_where)
  show ?thesis
  proof (cases "schedule_by_id d j")
    case None
    then show ?thesis by (auto simp: resume_point_def found)
  next
    case (Some s)
    then have "s_id s = j" by (auto simp: schedule_by_id_def dest: by_key_SomeD)
    then show ?thesis
      using Some by (auto simp: resume_point_def found advance_where_def split: option.splits)
  qed
qed

end
