(* ===== verification/Lifecycle.thy ===== *)
theory Lifecycle
  imports Enqueue_Bulk Claiming_Facts Schedule_Store
begin

text \<open>
  The life of a task under every method of the Postgres store: a step relation with one
  rule per method, the edges of the status diagram they follow, and runs labelled with
  the tasks each claim hands out.
\<close>

section \<open>The status diagram\<close>

inductive status_edge :: "Status \<Rightarrow> Status \<Rightarrow> bool" where
  claimed: "status_edge StatusPending StatusRunning"
| cancelled: "status_edge StatusPending StatusCancelled"
| completed: "status_edge StatusRunning StatusSucceeded"
| retried: "status_edge StatusRunning StatusPending"
| exhausted: "status_edge StatusRunning StatusDead"

inductive_simps status_edge_from [simp]:
  "status_edge StatusPending s" "status_edge StatusRunning s" "status_edge StatusSucceeded s"
  "status_edge StatusFailed s" "status_edge StatusDead s" "status_edge StatusCancelled s"

lemma no_edge_from_terminal: "Terminal s \<Longrightarrow> \<not> status_edge s s'"
  by (cases s) simp_all

section \<open>Steps\<close>

text \<open>A claim hands out tasks, each with the attempt it starts; no other method does.\<close>

datatype event = Delivered string "(int \<times> int) list" | Quiet

definition handed_out :: "Task list \<Rightarrow> (int \<times> int) list" where
  "handed_out out = map (\<lambda>t. (t_id t, t_attempts t)) out"

inductive store_step :: "db \<Rightarrow> event \<Rightarrow> db \<Rightarrow> bool" where
  time_passes: "clock d \<le> now \<Longrightarrow> store_step d Quiet (d\<lparr>clock := now\<rparr>)"
| enqueue: "Enqueue d t = (d', r) \<Longrightarrow> store_step d Quiet d'"
| enqueue_bulk: "EnqueueBulk d ts = (d', r) \<Longrightarrow> store_step d Quiet d'"
| claim: "Claim d locked q w n = (d', out) \<Longrightarrow> store_step d (Delivered w (handed_out out)) d'"
| heartbeat: "Heartbeat d ids w = (d', n) \<Longrightarrow> store_step d Quiet d'"
| complete: "Complete d i w = (d', e) \<Longrightarrow> store_step d Quiet d'"
| fail: "Fail random d i w err = (d', e) \<Longrightarrow> store_step d Quiet d'"
| recover_orphans: "RecoverOrphans d = (d', n) \<Longrightarrow> store_step d Quiet d'"
| cancel: "Cancel d i = (d', e) \<Longrightarrow> store_step d Quiet d'"
| create_schedule: "CreateSchedule d sc = (d', r) \<Longrightarrow> store_step d Quiet d'"
| set_schedule_enabled: "SetScheduleEnabled d i b = (d', r) \<Longrightarrow> store_step d Quiet d'"
| advance_resume_point: "store_step d Quiet (AdvanceLastMaterializedAt d i pt)"

inductive_cases delivered_step: "store_step d (Delivered w ids) d'"

lemma fst_invI: "f = (d', r) \<Longrightarrow> db_inv (fst f) \<Longrightarrow> db_inv d'"
  by simp

lemma store_step_inv: "store_step d ev d' \<Longrightarrow> db_inv d \<Longrightarrow> db_inv d'"
  by (induction rule: store_step.induct) (auto dest!: fst_invI intro: step_inv)

inductive reachable :: "db \<Rightarrow> bool" where
  initial: "reachable (empty_db now)"
| step: "reachable d \<Longrightarrow> store_step d ev d' \<Longrightarrow> reachable d'"

lemma reachable_inv: "reachable d \<Longrightarrow> db_inv d"
  by (induction rule: reachable.induct) (auto intro: empty_db_inv store_step_inv)

section \<open>How a row evolves in one step\<close>

definition evolves :: "Task \<Rightarrow> Task \<Rightarrow> bool" where
  "evolves t t' \<longleftrightarrow>
    t_id t' = t_id t \<and> t_queue t' = t_queue t \<and> t_handler t' = t_handler t
    \<and> t_payload t' = t_payload t \<and> t_priority t' = t_priority t
    \<and> t_max_attempts t' = t_max_attempts t \<and> t_idempotency_key t' = t_idempotency_key t
    \<and> t_schedule_id t' = t_schedule_id t \<and> t_created_at t' = t_created_at t
    \<and> (t_status t' = t_status t \<or> status_edge (t_status t) (t_status t'))
    \<and> (Terminal (t_status t) \<longrightarrow> t' = t)"

lemma evolves_refl [simp]: "evolves t t"
  by (simp add: evolves_def)

lemma evolves_rows:
  "t_status t = StatusPending \<Longrightarrow> evolves t (claim_row w now t)"
  "t_status t = StatusRunning \<Longrightarrow> evolves t (heartbeat_row now t)"
  "t_status t = StatusRunning \<Longrightarrow> evolves t (complete_row t)"
  "t_status t = StatusRunning \<Longrightarrow> evolves t (fail_row random now msg t)"
  "t_status t = StatusRunning \<Longrightarrow> evolves t (recover_row now t)"
  "t_status t = StatusPending \<Longrightarrow> evolves t (cancel_row t)"
  by (simp_all add: evolves_def row_defs)

text \<open>
  What a step does to the row with a given id: nothing, or one of the six row updates
  under its guard. For a claim the update is the claim's exactly when the id is handed out.
\<close>

definition row_step :: "event \<Rightarrow> Task \<Rightarrow> Task \<Rightarrow> bool" where
  "row_step ev t t' \<longleftrightarrow>
    evolves t t'
    \<and> (case ev of
         Delivered w ids \<Rightarrow>
           (if t_id t \<in> fst ` set ids
            then t_status t = StatusPending \<and> t_status t' = StatusRunning
              \<and> t_claimed_by t' = Some w \<and> t_attempts t' = t_attempts t + 1
              \<and> (t_id t, t_attempts t') \<in> set ids
            else t' = t)
       | Quiet \<Rightarrow> t_attempts t' = t_attempts t
           \<and> (t_status t' = StatusRunning \<longrightarrow>
               t_status t = StatusRunning \<and> t_claimed_by t' = t_claimed_by t))"

lemma row_step_evolves: "row_step ev t t' \<Longrightarrow> evolves t t'"
  by (simp add: row_step_def)

lemma row_step_id: "row_step ev t t' \<Longrightarrow> t_id t' = t_id t"
  by (simp add: row_step_def evolves_def)

lemma row_step_Quiet_refl [simp]: "row_step Quiet t t"
  by (simp add: row_step_def)

lemma row_step_Quiet_rows:
  assumes "row_inv now t"
  shows "t_status t = StatusRunning \<Longrightarrow> row_step Quiet t (heartbeat_row now' t)"
    and "t_claimed_by t = Some w \<Longrightarrow> row_step Quiet t (complete_row t)"
    and "t_claimed_by t = Some w \<Longrightarrow> row_step Quiet t (fail_row random now' msg t)"
    and "t_status t = StatusRunning \<Longrightarrow> row_step Quiet t (recover_row now' t)"
    and "t_status t = StatusPending \<Longrightarrow> row_step Quiet t (cancel_row t)"
  using row_inv_claimed [OF assms] evolves_rows [of t]
  by (simp_all add: row_step_def row_defs)

text \<open>Statements on the schedules table leave the tasks as they were.\<close>

lemma schedules_only:
  "tasks (fst (CreateSchedule d sc)) = tasks d"
  "tasks (fst (SetScheduleEnabled d i b)) = tasks d"
  "tasks (AdvanceLastMaterializedAt d i pt) = tasks d"
  by (simp_all add: CreateSchedule_def createScheduleSQL_def SetScheduleEnabled_def
      AdvanceLastMaterializedAt_def Let_def split: option.split prod.split sum.split if_split)

lemma task_by_id_frame: "tasks d' = tasks d \<Longrightarrow> task_by_id d' i = task_by_id d i"
  by (simp add: task_by_id_def)

lemma other_steps_frame:
  "task_by_id (d\<lparr>clock := now\<rparr>) i = task_by_id d i"
  "CreateSchedule d sc = (d', r) \<Longrightarrow> task_by_id d' i = task_by_id d i"
  "SetScheduleEnabled d j b = (d', r') \<Longrightarrow> task_by_id d' i = task_by_id d i"
  "task_by_id (AdvanceLastMaterializedAt d j pt) i = task_by_id d i"
  using schedules_only [of d] by (auto intro!: task_by_id_frame) (metis fst_conv)+

text \<open>Updates that take each row they match to a Quiet successor.\<close>

lemma update_tasks_row_step:
  assumes inv: "db_inv d" and f: "keeps_identity f"
    and row: "\<And>t. t \<in> set (tasks d) \<Longrightarrow> row_inv (clock d) t \<Longrightarrow> p t \<Longrightarrow> row_step Quiet t (f t)"
    and t: "task_by_id d i = Some t"
  shows "\<exists>t'. task_by_id (update_tasks p f d) i = Some t' \<and> row_step Quiet t t'"
  using task_by_id_update [OF f, of p d i] row [of t] task_by_id_SomeD [OF t]
    task_by_id_row_inv [OF inv t] t
  by auto

lemma task_by_id_append:
  "task_by_id d i = Some t \<Longrightarrow> tasks d' = tasks d @ new \<Longrightarrow> task_by_id d' i = Some t"
  by (simp add: task_by_id_def by_key_append)

lemma Enqueue_extends: "\<exists>new. tasks (fst (Enqueue d t)) = tasks d @ new"
  by (cases rule: Enqueue_cases [where d = d and t = t]) simp_all

lemma EnqueueBulk_extends: "\<exists>new. tasks (fst (EnqueueBulk d ts)) = tasks d @ new"
  by (cases rule: EnqueueBulk_cases [where d = d and ts = ts])
    (use send_batch_extends [OF surjective_pairing, of d ts] in \<open>simp_all add: rollback_def\<close>)

lemma Claim_row_step:
  assumes inv: "db_inv d" and claim: "Claim d locked q w n = (d', out)"
    and t: "task_by_id d i = Some t"
  shows "\<exists>t'. task_by_id d' i = Some t' \<and> row_step (Delivered w (handed_out out)) t t'"
proof -
  define C where "C = claim_candidates d locked q n"
  have d': "d' = update_tasks (\<lambda>t. t_id t \<in> t_id ` set C) (claim_row w (clock d)) d"
    and out: "out = map (claim_row w (clock d)) C"
    using claim Claim_eq [OF inv, of locked q w n] by (simp_all add: C_def)
  have ids: "fst ` set (handed_out out) = t_id ` set C"
    by (simp add: handed_out_def out image_image claim_row_def)
  have at_i: "t \<in> set (tasks d)" "t_id t = i" using task_by_id_SomeD [OF t] by auto
  have found: "task_by_id d' i =
      Some (if t_id t \<in> t_id ` set C then claim_row w (clock d) t else t)"
    using t row_laws(1) by (simp add: d' task_by_id_update)
  show ?thesis
  proof (cases "t_id t \<in> t_id ` set C")
    case True
    then obtain c where c: "c \<in> set C" "t_id t = t_id c" by auto
    then have "c \<in> set (tasks d)" and pending: "t_status c = StatusPending"
      using candidates_claimable [of c d locked q n] by (simp_all add: C_def claimable_def)
    then have "t = c" using distinct_key_eq [OF db_inv_ids [OF inv] at_i(1)] c by blast
    then have "(t_id t, t_attempts (claim_row w (clock d) t)) \<in> set (handed_out out)"
      using c by (force simp: handed_out_def out claim_row_def)
    then show ?thesis
      using found True pending \<open>t = c\<close> evolves_rows(1) [of t w "clock d"] ids
      by (simp add: row_step_def) (simp add: claim_row_def)
  next
    case False
    then show ?thesis using found ids by (simp add: row_step_def)
  qed
qed

lemma store_step_row:
  assumes "store_step d ev d'" and "db_inv d" and "task_by_id d i = Some t"
  shows "\<exists>t'. task_by_id d' i = Some t' \<and> row_step ev t t'"
  using assms
proof (induction rule: store_step.induct)
  case (enqueue d s d' r)
  then show ?case using Enqueue_extends [of d s] by (fastforce dest: task_by_id_append)
next
  case (enqueue_bulk d ts d' r)
  then show ?case using EnqueueBulk_extends [of d ts] by (fastforce dest: task_by_id_append)
next
  case (claim d locked q w n d' out)
  then show ?case by (blast dest: Claim_row_step)
next
  case (heartbeat d ids w d' n)
  have "\<exists>t'. task_by_id (update_tasks (heartbeat_where ids w) (heartbeat_row (clock d)) d) i
      = Some t' \<and> row_step Quiet t t'"
    by (rule update_tasks_row_step [OF heartbeat.prems(1) row_laws(2) _ heartbeat.prems(2)])
      (simp add: heartbeat_where_def row_step_Quiet_rows)
  with heartbeat show ?case by (auto simp: Heartbeat_def split: if_splits)
next
  case (complete d j w d' e)
  have "\<exists>t'. task_by_id (update_tasks (owned_by j w) complete_row d) i = Some t' \<and> row_step Quiet t t'"
    by (rule update_tasks_row_step [OF complete.prems(1) row_laws(3) _ complete.prems(2)])
      (auto simp: owned_by_def intro: row_step_Quiet_rows)
  with complete show ?case by (auto simp: Complete_def)
next
  case (fail random d j w err d' e)
  have "\<exists>t'. task_by_id (update_tasks (owned_by j w) (fail_row random (clock d) msg) d) i = Some t'
      \<and> row_step Quiet t t'" for msg
    by (rule update_tasks_row_step [OF fail.prems(1) row_laws(4) _ fail.prems(2)])
      (auto simp: owned_by_def intro: row_step_Quiet_rows)
  with fail show ?case by (auto simp: Fail_def Let_def)
next
  case (recover_orphans d d' n)
  have "\<exists>t'. task_by_id (update_tasks (orphaned (clock d)) (recover_row (clock d)) d) i = Some t'
      \<and> row_step Quiet t t'"
    by (rule update_tasks_row_step [OF recover_orphans.prems(1) row_laws(5) _ recover_orphans.prems(2)])
      (auto simp: orphaned_def intro: row_step_Quiet_rows)
  with recover_orphans show ?case by (auto simp: RecoverOrphans_def)
next
  case (cancel d j d' e)
  have "\<exists>t'. task_by_id (update_tasks (cancel_where j) cancel_row d) i = Some t' \<and> row_step Quiet t t'"
    by (rule update_tasks_row_step [OF cancel.prems(1) row_laws(6) _ cancel.prems(2)])
      (auto simp: cancel_where_def intro: row_step_Quiet_rows)
  with cancel show ?case using Cancel_fst [of d j] by simp
qed (simp_all add: other_steps_frame)

section \<open>Runs\<close>

text \<open>A run is any interleaving of steps, from any node; its trace lists their events.\<close>

inductive store_run :: "db \<Rightarrow> event list \<Rightarrow> db \<Rightarrow> bool" where
  none: "store_run d [] d"
| more: "store_run d evs d' \<Longrightarrow> store_step d' ev d'' \<Longrightarrow> store_run d (evs @ [ev]) d''"

fun event_attempts :: "int \<Rightarrow> event \<Rightarrow> int list" where
  "event_attempts i (Delivered w ids) = map snd (filter (\<lambda>p. fst p = i) ids)"
| "event_attempts i Quiet = []"

definition attempts_of :: "int \<Rightarrow> event list \<Rightarrow> int list" where
  "attempts_of i evs = concat (map (event_attempts i) evs)"

fun event_owner :: "int \<Rightarrow> event \<Rightarrow> string option" where
  "event_owner i (Delivered w ids) = (if i \<in> fst ` set ids then Some w else None)"
| "event_owner i Quiet = None"

definition latest_claimant :: "int \<Rightarrow> event list \<Rightarrow> string option" where
  "latest_claimant i evs =
    fold (\<lambda>ev cur. case event_owner i ev of None \<Rightarrow> cur | Some w \<Rightarrow> Some w) evs None"

lemma attempts_of_simps [simp]:
  "attempts_of i [] = []"
  "attempts_of i (evs @ [ev]) = attempts_of i evs @ event_attempts i ev"
  by (simp_all add: attempts_of_def)

lemma latest_claimant_simps [simp]:
  "latest_claimant i [] = None"
  "latest_claimant i (evs @ [ev]) =
    (case event_owner i ev of None \<Rightarrow> latest_claimant i evs | Some w \<Rightarrow> Some w)"
  by (simp_all add: latest_claimant_def split: option.splits)

lemma store_run_inv: "store_run d evs d' \<Longrightarrow> db_inv d \<Longrightarrow> db_inv d'"
  by (induction rule: store_run.induct) (auto intro: store_step_inv)

lemma store_run_reachable: "store_run d evs d' \<Longrightarrow> reachable d \<Longrightarrow> reachable d'"
  by (induction rule: store_run.induct) (auto intro: reachable.step)

lemma claim_row_keeps_id: "t_id (claim_row w now t) = t_id t"
  by (simp add: claim_row_def)

text \<open>What a claim hands out: no id twice, and only ids that are in the table.\<close>

lemma delivered_ids:
  assumes "store_step d (Delivered w ids) d'" and inv: "db_inv d"
  shows "distinct (map fst ids)" and "fst ` set ids \<subseteq> t_id ` set (tasks d)"
proof -
  from assms(1) obtain locked q n out where claim: "Claim d locked q w n = (d', out)"
    and ids: "ids = handed_out out" by (cases rule: delivered_step) auto
  let ?C = "claim_candidates d locked q n"
  have "out = map (claim_row w (clock d)) ?C"
    using claim Claim_eq [OF inv, of locked q w n] by simp
  then have "map fst ids = map (\<lambda>t. t_id (claim_row w (clock d) t)) ?C"
    by (simp add: ids handed_out_def comp_def)
  also have "\<dots> = map t_id ?C"
    by (simp only: claim_row_keeps_id)
  finally have fst_ids: "map fst ids = map t_id ?C" .
  then show "distinct (map fst ids)" using distinct_candidates [OF inv] by simp
  have "fst ` set ids = t_id ` set ?C" using fst_ids by (metis set_map)
  then show "fst ` set ids \<subseteq> t_id ` set (tasks d)" by (auto dest: candidates_claimable)
qed

lemma filter_fst_singleton:
  "distinct (map fst ps) \<Longrightarrow> (i, a) \<in> set ps \<Longrightarrow> filter (\<lambda>p. fst p = i) ps = [(i, a)]"
  by (induction ps) (auto simp: filter_empty_conv rev_image_eqI)

lemma filter_fst_none: "i \<notin> fst ` set ps \<Longrightarrow> filter (\<lambda>p. fst p = i) ps = []"
  by (auto simp: filter_empty_conv image_iff)

lemma step_attempts:
  assumes step: "store_step d ev d'" and inv: "db_inv d" and t: "t_id t = i"
    and row: "row_step ev t t'"
  shows "event_attempts i ev = [t_attempts t + 1 .. t_attempts t']"
proof (cases ev)
  case (Delivered w ids)
  note dist = delivered_ids(1) [OF step [unfolded Delivered] inv]
  show ?thesis
  proof (cases "i \<in> fst ` set ids")
    case True
    then have "(i, t_attempts t') \<in> set ids" and "t_attempts t' = t_attempts t + 1"
      using row t by (auto simp: row_step_def Delivered)
    then show ?thesis using filter_fst_singleton [OF dist] by (simp add: Delivered)
  next
    case False
    then have "t' = t" using row t by (simp add: row_step_def Delivered)
    then show ?thesis using filter_fst_none [OF False] by (simp add: Delivered)
  qed
next
  case Quiet
  then show ?thesis using row by (simp add: row_step_def)
qed

lemma evolves_trans:
  assumes "evolves t t'" and "row_step ev t' t''"
  shows "t_id t'' = t_id t" and "t_max_attempts t'' = t_max_attempts t"
    and "Terminal (t_status t) \<Longrightarrow> t'' = t"
  using assms by (auto simp: row_step_def evolves_def)

lemma upto_append:
  assumes "a \<le> b + 1" and "b \<le> c"
  shows "[a .. b] @ [b + 1 .. c] = [a .. (c :: int)]"
proof (cases "b = c")
  case False
  then show ?thesis using upto_split1 [of a "b + 1" c] assms by simp
qed simp

lemma row_step_attempts_mono: "row_step ev t t' \<Longrightarrow> t_attempts t \<le> t_attempts t'"
  by (auto simp: row_step_def split: event.splits if_splits)

lemma store_run_row:
  assumes "store_run d evs d'" and "db_inv d" and "task_by_id d i = Some t"
  shows "\<exists>t'. task_by_id d' i = Some t' \<and> t_id t' = t_id t \<and> t_max_attempts t' = t_max_attempts t
    \<and> t_attempts t \<le> t_attempts t' \<and> attempts_of i evs = [t_attempts t + 1 .. t_attempts t']
    \<and> (Terminal (t_status t) \<longrightarrow> t' = t)"
  using assms
proof (induction rule: store_run.induct)
  case (none d)
  then show ?case by simp
next
  case (more d evs d' ev d'')
  then obtain t' where t': "task_by_id d' i = Some t'" "t_id t' = t_id t"
      "t_max_attempts t' = t_max_attempts t" "t_attempts t \<le> t_attempts t'"
      "attempts_of i evs = [t_attempts t + 1 .. t_attempts t']"
      "Terminal (t_status t) \<longrightarrow> t' = t" by blast
  have inv: "db_inv d'" using more store_run_inv by blast
  then obtain t'' where t'': "task_by_id d'' i = Some t''" and row: "row_step ev t' t''"
    using store_step_row [OF more.hyps(2) _ t'(1)] by blast
  have i: "t_id t' = i" using t'(1) by (simp add: task_by_id_SomeD)
  note mono = row_step_attempts_mono [OF row]
  have "attempts_of i (evs @ [ev]) = [t_attempts t + 1 .. t_attempts t'']"
    using step_attempts [OF more.hyps(2) inv i row] t'(4,5) mono by (simp add: upto_append)
  moreover have "t_id t'' = t_id t' \<and> t_max_attempts t'' = t_max_attempts t'
      \<and> (Terminal (t_status t') \<longrightarrow> t'' = t')"
    using row by (auto simp: row_step_def evolves_def)
  ultimately show ?case using t'' t' mono by auto
qed

lemma store_run_keeps:
  assumes "store_run d evs d'" and "db_inv d" and "task_by_id d i = Some t"
  shows "\<exists>t'. task_by_id d' i = Some t' \<and> t_queue t' = t_queue t
    \<and> t_idempotency_key t' = t_idempotency_key t"
  using assms
proof (induction rule: store_run.induct)
  case (more d evs d' ev d'')
  then obtain t' where t': "task_by_id d' i = Some t'" "t_queue t' = t_queue t"
      "t_idempotency_key t' = t_idempotency_key t" by blast
  have "db_inv d'" using more store_run_inv by blast
  from store_step_row [OF more.hyps(2) this t'(1)] t' show ?case
    by (auto simp: row_step_def evolves_def)
qed simp

section \<open>Joined runs\<close>

lemma store_run_one: "store_step d ev d' \<Longrightarrow> store_run d [ev] d'"
  using store_run.more [OF store_run.none] by fastforce

lemma store_run_trans:
  assumes "store_run d evs d'" and "store_run d' evs' d''"
  shows "store_run d (evs @ evs') d''"
  using assms(2,1)
proof (induction rule: store_run.induct)
  case (more d1 evs1 d2 ev d3)
  then show ?case using store_run.more [of d "evs @ evs1" d2 ev d3] by simp
qed simp

definition runs_to :: "db \<Rightarrow> db \<Rightarrow> bool" where
  "runs_to d d' \<longleftrightarrow> (\<exists>evs. store_run d evs d')"

lemma runs_to_refl: "runs_to d d"
  by (auto simp: runs_to_def intro: store_run.none)

lemma runs_to_step: "store_step d ev d' \<Longrightarrow> runs_to d d'"
  by (auto simp: runs_to_def dest: store_run_one)

lemma runs_to_trans: "runs_to d d' \<Longrightarrow> runs_to d' d'' \<Longrightarrow> runs_to d d''"
  by (auto simp: runs_to_def dest: store_run_trans)

lemma runs_to_reachable: "runs_to d d' \<Longrightarrow> reachable d \<Longrightarrow> reachable d'"
  by (auto simp: runs_to_def dest: store_run_reachable)

text \<open>Ids that a failed submission drew from the sequence stay spent.\<close>

lemma runs_to_spend:
  assumes "next_task_id d \<le> n"
  shows "runs_to d (d\<lparr>next_task_id := n\<rparr>)"
proof -
  define bad :: Task where "bad = \<lparr>t_id = 0, t_queue = [], t_handler = [], t_payload = None,
    t_priority = 0, t_status = StatusPending, t_run_at = 0, t_attempts = 0, t_max_attempts = 0,
    t_claimed_by = None, t_heartbeat_at = None, t_idempotency_key = None,
    t_schedule_id = None, t_last_error = None, t_created_at = 0\<rparr>"
  have one: "runs_to d (d\<lparr>next_task_id := next_task_id d + 1\<rparr>)" for d
  proof -
    have "fst (Enqueue d bad) = d\<lparr>next_task_id := next_task_id d + 1\<rparr>"
      by (simp add: Enqueue_def enqueueOne_fst enqueue_args_def enqueueSQL_def bad_def int4_def
          inserted_row_def tasks_not_null_def)
    then show ?thesis using runs_to_step [OF store_step.enqueue [OF surjective_pairing, of d bad]] by simp
  qed
  have "runs_to d (d\<lparr>next_task_id := next_task_id d + int k\<rparr>)" for k
  proof (induction k)
    case (Suc k)
    from runs_to_trans [OF Suc one] show ?case by (simp add: ac_simps)
  qed (simp add: runs_to_refl)
  from this [of "nat (n - next_task_id d)"] assms show ?thesis by simp
qed

section \<open>The holder of a claim\<close>

text \<open>A row that a step adds is not claimed, and its id is fresh.\<close>

lemma send_batch_unclaimed:
  "send_batch d ts = (d', r) \<Longrightarrow>
    \<exists>new. tasks d' = tasks d @ new \<and> (\<forall>t \<in> set new. t_claimed_by t = None)"
proof (induction ts arbitrary: d d' r)
  case (Cons t ts)
  obtain d1 r1 where one: "enqueue_args d t = (d1, r1)" by fastforce
  then have "\<exists>new. tasks d1 = tasks d @ new \<and> (\<forall>t \<in> set new. t_claimed_by t = None)"
    by (cases rule: enqueue_args_cases [where d = d and t = t]) auto
  with Cons one show ?case
    by (fastforce split: prod.splits sum.splits if_splits)
qed simp

lemma submissions_unclaimed:
  "\<exists>new. tasks (fst (Enqueue d t)) = tasks d @ new \<and> (\<forall>u \<in> set new. t_claimed_by u = None)"
  "\<exists>new. tasks (fst (EnqueueBulk d ts)) = tasks d @ new \<and> (\<forall>u \<in> set new. t_claimed_by u = None)"
proof -
  show "\<exists>new. tasks (fst (Enqueue d t)) = tasks d @ new \<and> (\<forall>u \<in> set new. t_claimed_by u = None)"
    by (cases rule: Enqueue_cases [where d = d and t = t]) simp_all
  show "\<exists>new. tasks (fst (EnqueueBulk d ts)) = tasks d @ new
      \<and> (\<forall>u \<in> set new. t_claimed_by u = None)"
    by (cases rule: EnqueueBulk_cases [where d = d and ts = ts])
      (use send_batch_unclaimed [OF surjective_pairing, of d ts] in \<open>simp_all add: rollback_def\<close>)
qed

lemma task_by_id_new:
  "task_by_id d i = None \<Longrightarrow> tasks d' = tasks d @ new \<and> (\<forall>u \<in> set new. t_claimed_by u = None) \<Longrightarrow>
    task_by_id d' i = Some t \<Longrightarrow> t_claimed_by t = None"
  by (auto simp: task_by_id_def by_key_append dest: by_key_SomeD)

lemma update_tasks_no_new:
  "keeps_identity f \<Longrightarrow> task_by_id d i = None \<Longrightarrow> task_by_id (update_tasks p f d) i = None"
  by (simp add: task_by_id_update)

lemma store_step_new_row:
  assumes "store_step d ev d'" and "db_inv d" and "task_by_id d i = None"
    and "task_by_id d' i = Some t"
  shows "t_claimed_by t = None"
  using assms
proof (induction rule: store_step.induct)
  case (enqueue d s d' r)
  then show ?case using submissions_unclaimed(1) [of d s] by (auto dest: task_by_id_new)
next
  case (enqueue_bulk d ts d' r)
  then show ?case using submissions_unclaimed(2) [of d ts] by (auto dest: task_by_id_new)
next
  case (claim d locked q w n d' out)
  then show ?case
    by (auto simp: Claim_def Let_def update_tasks_no_new row_laws)
next
  case (cancel d j d' e)
  then show ?case using Cancel_fst [of d j] by (simp add: update_tasks_no_new row_laws)
qed (auto simp: other_steps_frame Heartbeat_def Complete_def Fail_def RecoverOrphans_def Let_def
    update_tasks_no_new row_laws split: if_splits)

lemma delivered_owner:
  assumes "store_step d ev d'" and "db_inv d" and "event_owner i ev = Some w"
  shows "task_by_id d i \<noteq> None"
proof -
  from assms(3) obtain ids where ev: "ev = Delivered w ids" and "i \<in> fst ` set ids"
    by (cases ev) (auto split: if_splits)
  with delivered_ids(2) [OF assms(1) [unfolded ev] assms(2)] show ?thesis
    by (auto simp: task_by_id_def by_key_None)
qed

lemma store_run_owner:
  assumes "store_run d0 evs d" and "db_inv d0" and "\<forall>t \<in> set (tasks d0). t_claimed_by t = None"
    and "task_by_id d i = Some t" and "t_claimed_by t = Some w"
  shows "latest_claimant i evs = Some w"
  using assms
proof (induction arbitrary: t w rule: store_run.induct)
  case (none d)
  then show ?case by (auto dest: task_by_id_SomeD)
next
  case (more d evs d' ev d'')
  have inv: "db_inv d'" using more store_run_inv by blast
  show ?case
  proof (cases "task_by_id d' i")
    case None
    then show ?thesis using store_step_new_row [OF more.hyps(2) inv None] more.prems by simp
  next
    case (Some t0)
    have i: "t_id t0 = i" using Some by (simp add: task_by_id_SomeD)
    have row: "row_step ev t0 t"
      using store_step_row [OF more.hyps(2) inv Some] more.prems(3) by auto
    have inv'': "db_inv d''" by (rule store_step_inv [OF more.hyps(2) inv])
    have "t_status t = StatusRunning"
      using row_inv_claimed [OF task_by_id_row_inv [OF inv'' more.prems(3)]] more.prems(4) by simp
    then show ?thesis
      using row i more.IH [OF more.prems(1,2) Some] more.prems(4)
      by (auto simp: row_step_def split: event.splits if_splits)
  qed
qed

section \<open>A sample execution\<close>

definition sample_task :: Task where
  "sample_task =
    \<lparr>t_id = 0, t_queue = ''default'', t_handler = ''email'', t_payload = Some ''{}'',
     t_priority = 3, t_status = StatusPending, t_run_at = 0, t_attempts = 0, t_max_attempts = 3,
     t_claimed_by = None, t_heartbeat_at = None, t_idempotency_key = Some ''k1'',
     t_schedule_id = None, t_last_error = None, t_created_at = zero_time\<rparr>"

definition sample_submitted :: db where
  "sample_submitted = fst (Enqueue (empty_db 1000) sample_task)"

definition sample_row :: Task where
  "sample_row = sample_task\<lparr>t_id := 1, t_created_at := 1000\<rparr>"

definition sample_claimed :: db where
  "sample_claimed = fst (Claim sample_submitted [] ''default'' ''w1'' 10)"

definition sample_completed :: db where
  "sample_completed = fst (Complete sample_claimed 1 ''w1'')"

lemma sample_tasks:
  "tasks sample_submitted = [sample_row]"
  "tasks sample_claimed = [claim_row ''w1'' 1000 sample_row]"
  "tasks sample_completed = [complete_row (claim_row ''w1'' 1000 sample_row)]"
  "clock sample_submitted = 1000" "clock sample_claimed = 1000" "clock sample_completed = 1000"
  by code_simp+

lemma sample_delivery:
  "handed_out (snd (Claim sample_submitted [] ''default'' ''w1'' 10)) = [(1, 1)]"
  by code_simp

lemma sample_steps:
  "store_step (empty_db 1000) Quiet sample_submitted"
  "store_step sample_submitted (Delivered ''w1'' [(1, 1)]) sample_claimed"
  "store_step sample_claimed Quiet sample_completed"
  unfolding sample_submitted_def sample_claimed_def sample_completed_def
    sample_delivery [symmetric, unfolded sample_submitted_def]
  by (rule store_step.intros, rule prod.collapse [symmetric])+

lemma store_run_two:
  "store_step d ev d' \<Longrightarrow> store_step d' ev' d'' \<Longrightarrow> store_run d [ev, ev'] d''"
  using store_run.more [OF store_run.more [OF store_run.none]] by fastforce

lemma sample_run:
  "store_run (empty_db 1000) [Quiet, Delivered ''w1'' [(1, 1)]] sample_claimed"
  "store_run sample_submitted [Delivered ''w1'' [(1, 1)], Quiet] sample_completed"
  "store_run sample_completed [Quiet, Quiet] (sample_completed\<lparr>clock := 2000\<rparr>)"
  using sample_steps store_step.time_passes [of sample_completed 1000]
    store_step.time_passes [of "sample_completed\<lparr>clock := 1000\<rparr>" 2000] sample_tasks
  by (auto intro: store_run_two)

lemma sample_reachable:
  "reachable sample_submitted" "reachable sample_claimed" "reachable sample_completed"
proof -
  show one: "reachable sample_submitted"
    by (rule reachable.step [OF reachable.initial sample_steps(1)])
  show two: "reachable sample_claimed" by (rule reachable.step [OF one sample_steps(2)])
  show "reachable sample_completed" by (rule reachable.step [OF two sample_steps(3)])
qed

section \<open>Properties\<close>

text \<open>
  C4. In every state the store can reach, a row is claimed exactly while it runs, its
  attempts are never negative nor above its maximum, a waiting row has an attempt left, no
  row is ever stored as failed, and ids are unique and below the sequence.
\<close>

theorem reachable_rows_consistent:
  assumes "reachable d" and "t \<in> set (tasks d)"
  shows "(t_claimed_by t \<noteq> None \<longleftrightarrow> t_status t = StatusRunning)
    \<and> 0 \<le> t_attempts t \<and> t_attempts t \<le> t_max_attempts t
    \<and> (t_status t = StatusPending \<longrightarrow> t_attempts t < t_max_attempts t)
    \<and> t_status t \<noteq> StatusFailed \<and> t_id t < next_task_id d
    \<and> (\<forall>u \<in> set (tasks d). t_id u = t_id t \<longrightarrow> u = t)"
proof -
  have inv: "db_inv d" using assms(1) by (rule reachable_inv)
  note row = db_inv_row [OF inv assms(2)]
  show ?thesis
    using row_inv_claimed [OF row] row_inv_attempts [OF row] row_inv_pending [OF row]
      row_inv_not_failed [OF row] db_inv_seq [OF inv assms(2)]
      distinct_key_eq [OF db_inv_ids [OF inv] _ assms(2)]
    by blast
qed

lemma reachable_rows_consistent_witness:
  "t_status (claim_row ''w1'' 1000 sample_row) = StatusRunning
    \<and> t_attempts (claim_row ''w1'' 1000 sample_row) \<le> 3"
  using reachable_rows_consistent [OF sample_reachable(2), of "claim_row ''w1'' 1000 sample_row"]
  by (simp add: sample_tasks row_defs sample_row_def sample_task_def)

text \<open>
  C5. Every method of the store moves every row along the status diagram of its statuses
  (pending to running or cancelled, running to succeeded, back to pending or to dead), keeps
  what was submitted (queue, handler, payload, priority, maximum, key, schedule, creation)
  and never deletes it; a row in a terminal status does not change at all.
\<close>

theorem status_diagram:
  assumes "reachable d" and "store_step d ev d'" and "task_by_id d i = Some t"
  shows "\<exists>t'. task_by_id d' i = Some t' \<and> evolves t t'"
  using store_step_row [OF assms(2) reachable_inv [OF assms(1)] assms(3)] row_step_evolves
  by blast

lemma status_diagram_witness: "evolves sample_row (claim_row ''w1'' 1000 sample_row)"
  using status_diagram [OF sample_reachable(1) sample_steps(2), of 1 sample_row]
  by (simp add: task_by_id_def sample_tasks sample_row_def row_defs)

text \<open>
  Over any run of any number of nodes, the attempts a task is handed out with are its
  next attempt numbers, each once and in order, up to the count the row ends with: no two
  claims hand out the same attempt, and a task is handed out at most max_attempts times.
\<close>

theorem deliveries_numbered_and_bounded:
  assumes "reachable d" and "store_run d evs d'" and "task_by_id d i = Some t"
  shows "\<exists>t'. task_by_id d' i = Some t'
    \<and> attempts_of i evs = [t_attempts t + 1 .. t_attempts t']
    \<and> int (length (attempts_of i evs)) \<le> t_max_attempts t - t_attempts t"
proof -
  have inv: "db_inv d" using assms(1) by (rule reachable_inv)
  obtain t' where t': "task_by_id d' i = Some t'" "t_max_attempts t' = t_max_attempts t"
    "t_attempts t \<le> t_attempts t'" "attempts_of i evs = [t_attempts t + 1 .. t_attempts t']"
    using store_run_row [OF assms(2) inv assms(3)] by blast
  have "t_attempts t' \<le> t_max_attempts t'"
    by (rule row_inv_attempts(2) [OF task_by_id_row_inv [OF store_run_inv [OF assms(2) inv] t'(1)]])
  with t' show ?thesis by auto
qed

lemma deliveries_numbered_and_bounded_witness:
  "attempts_of 1 [Delivered ''w1'' [(1, 1)], Quiet] = [1]"
  using deliveries_numbered_and_bounded [OF sample_reachable(1) sample_run(2), of 1 sample_row]
  by (simp add: task_by_id_def sample_tasks sample_row_def sample_task_def row_defs)

text \<open>
  C6. Whoever holds a task's claim is the worker it was handed out to last: in a run from
  the empty database no worker holds a task that was handed to another one since.
\<close>

theorem holder_is_latest_claimant:
  assumes "store_run (empty_db now) evs d" and "task_by_id d i = Some t"
    and "t_claimed_by t = Some w"
  shows "latest_claimant i evs = Some w"
  by (rule store_run_owner [OF assms(1) empty_db_inv _ assms(2,3)]) (simp add: empty_db_def)

lemma holder_is_latest_claimant_witness:
  "latest_claimant 1 [Quiet, Delivered ''w1'' [(1, 1)]] = Some ''w1''"
  by (rule holder_is_latest_claimant [OF sample_run(1),
        where i = 1 and t = "claim_row ''w1'' 1000 sample_row"])
    (simp_all add: task_by_id_def sample_tasks sample_row_def row_defs)

end
