(* ===== verification/Queue_Stats.thy ===== *)
theory Queue_Stats
  imports Schema Complex_Main
begin

text \<open>
  internal/store/store.go's QueueStats and internal/store/postgres/queue_stats.go: one
  statement that counts a queue's tasks by status, ages its oldest due task and counts
  its recent successes, and the Go code that spreads the row over the result.
\<close>

record StoreQueueStats =
  qs_queue :: string
  qs_depth :: "Status \<rightharpoonup> nat"
  qs_oldest_pending_age_seconds :: real
  qs_completed_last_minute :: nat
  qs_completed_last_hour :: nat
  qs_completed_last_day :: nat

definition NewQueueStats :: "string \<Rightarrow> StoreQueueStats" where
  "NewQueueStats queue =
    \<lparr>qs_queue = queue, qs_depth = fold (\<lambda>s depth. depth(s \<mapsto> 0)) AllStatuses Map.empty,
     qs_oldest_pending_age_seconds = 0, qs_completed_last_minute = 0,
     qs_completed_last_hour = 0, qs_completed_last_day = 0\<rparr>"

record stats_row =
  n_pending :: nat
  n_running :: nat
  n_succeeded :: nat
  n_failed :: nat
  n_dead :: nat
  n_cancelled :: nat
  oldest_age :: "duration option"
  last_minute :: nat
  last_hour :: nat
  last_day :: nat

definition count_status :: "Status \<Rightarrow> Task list \<Rightarrow> nat" where
  "count_status st ts = length (filter (\<lambda>t. t_status t = st) ts)"

definition completed_since :: "instant \<Rightarrow> Task list \<Rightarrow> nat" where
  "completed_since since ts =
    length (filter (\<lambda>t. t_status t = StatusSucceeded \<and> since \<le> t_created_at t) ts)"

text \<open>min over no rows is NULL, and so is the age computed from it.\<close>

definition oldest_due :: "instant \<Rightarrow> Task list \<Rightarrow> duration option" where
  "oldest_due now ts =
    (case map t_run_at (filter (\<lambda>t. t_status t = StatusPending \<and> t_run_at t \<le> now) ts) of
       [] \<Rightarrow> None
     | r # rs \<Rightarrow> Some (now - fold min rs r))"

definition queueStatsSQL :: "db \<Rightarrow> string \<Rightarrow> stats_row" where
  "queueStatsSQL d queue =
    (let ts = filter (\<lambda>t. t_queue t = queue) (tasks d); now = clock d
     in \<lparr>n_pending = count_status StatusPending ts,
         n_running = count_status StatusRunning ts,
         n_succeeded = count_status StatusSucceeded ts,
         n_failed = count_status StatusFailed ts,
         n_dead = count_status StatusDead ts,
         n_cancelled = count_status StatusCancelled ts,
         oldest_age = oldest_due now ts,
         last_minute = completed_since (now - minute) ts,
         last_hour = completed_since (now - hour) ts,
         last_day = completed_since (now - day) ts\<rparr>)"

definition QueueStats :: "db \<Rightarrow> string \<Rightarrow> StoreQueueStats" where
  "QueueStats d queue =
    (let row = queueStatsSQL d queue; stats = NewQueueStats queue
     in stats\<lparr>
       qs_completed_last_minute := last_minute row,
       qs_completed_last_hour := last_hour row,
       qs_completed_last_day := last_day row,
       qs_depth := (qs_depth stats)(
         StatusPending \<mapsto> n_pending row,
         StatusRunning \<mapsto> n_running row,
         StatusSucceeded \<mapsto> n_succeeded row,
         StatusFailed \<mapsto> n_failed row,
         StatusDead \<mapsto> n_dead row,
         StatusCancelled \<mapsto> n_cancelled row),
       qs_oldest_pending_age_seconds :=
         (case oldest_age row of None \<Rightarrow> qs_oldest_pending_age_seconds stats
          | Some age \<Rightarrow> of_int age / of_int second)\<rparr>)"

section \<open>What the numbers add up to\<close>

definition in_queue :: "db \<Rightarrow> string \<Rightarrow> Task list" where
  "in_queue d queue = filter (\<lambda>t. t_queue t = queue) (tasks d)"

lemma depth_count: "qs_depth (QueueStats d queue) st = Some (count_status st (in_queue d queue))"
  by (cases st) (simp_all add: QueueStats_def queueStatsSQL_def Let_def in_queue_def)

lemma sum_count_status: "sum_list (map (\<lambda>st. count_status st ts) AllStatuses) = length ts"
proof (induction ts)
  case Nil
  then show ?case by (simp add: count_status_def AllStatuses_def)
next
  case (Cons t ts)
  then show ?case by (cases "t_status t") (simp_all add: count_status_def AllStatuses_def)
qed

lemma completed_since_mono: "since \<le> since' \<Longrightarrow> completed_since since' ts \<le> completed_since since ts"
  unfolding completed_since_def by (rule length_filter_mono) auto

lemma completed_le_succeeded: "completed_since since ts \<le> count_status StatusSucceeded ts"
  unfolding completed_since_def count_status_def by (rule length_filter_mono) auto

lemma fold_min_least:
  fixes r :: int
  shows "fold min rs r \<in> set (r # rs)" and "x \<in> set (r # rs) \<Longrightarrow> fold min rs r \<le> x"
proof -
  have "fold min rs r = Min (set (r # rs))"
    by (simp only: Min.set_eq_fold)
  then show "fold min rs r \<in> set (r # rs)" and "x \<in> set (r # rs) \<Longrightarrow> fold min rs r \<le> x"
    by (simp_all del: set_simps)
qed

lemma oldest_due_None:
  "oldest_due now ts = None \<longleftrightarrow> (\<forall>t \<in> set ts. \<not> (t_status t = StatusPending \<and> t_run_at t \<le> now))"
proof -
  have "oldest_due now ts = None \<longleftrightarrow>
      filter (\<lambda>t. t_status t = StatusPending \<and> t_run_at t \<le> now) ts = []"
    by (auto simp: oldest_due_def split: list.splits)
  then show ?thesis by (simp add: filter_empty_conv)
qed

lemma oldest_due_Some:
  assumes "oldest_due now ts = Some age"
  shows "\<exists>t \<in> set ts. Due t now \<and> age = now - t_run_at t"
    and "t \<in> set ts \<Longrightarrow> Due t now \<Longrightarrow> now - t_run_at t \<le> age"
    and "0 \<le> age"
proof -
  let ?due = "filter (\<lambda>t. t_status t = StatusPending \<and> t_run_at t \<le> now) ts"
  from assms obtain r rs where rs: "map t_run_at ?due = r # rs" and age: "age = now - fold min rs r"
    by (auto simp: oldest_due_def split: list.splits)
  note least = fold_min_least [where rs = rs and r = r, folded rs]
  from least(1) obtain u where "u \<in> set ts" "Due u now" "fold min rs r = t_run_at u"
    by (auto simp: Due_def)
  then show "\<exists>t \<in> set ts. Due t now \<and> age = now - t_run_at t" using age by auto
  then show "0 \<le> age" by (auto simp: Due_def)
  show "now - t_run_at t \<le> age" if "t \<in> set ts" "Due t now"
    using least(2) [of "t_run_at t"] that age by (auto simp: Due_def)
qed

end
