(* ===== verification/Retry.thy ===== *)
theory Retry
  imports Claiming_Facts
begin

text \<open>
  internal/retry/backoff.go: the capped exponential with full jitter in Go. The SQL of
  the store computes the same curve; the two are compared here. Go's rand.Float64 is an
  argument.
\<close>

record retry_config =
  Base :: real
  Cap :: real

definition DefaultConfig :: retry_config where
  "DefaultConfig = \<lparr>Base = 5, Cap = 300\<rparr>"

definition Ceiling :: "retry_config \<Rightarrow> int \<Rightarrow> real" where
  "Ceiling c attempts =
    (let attempts = (if attempts < 0 then 0 else attempts)
     in min (Cap c) (2 ^ nat attempts * Base c))"

text \<open>time.Duration of a float drops the fraction of a nanosecond, towards zero.\<close>

definition Duration_of :: "real \<Rightarrow> int" where
  "Duration_of x = (if x < 0 then \<lceil>x\<rceil> else \<lfloor>x\<rfloor>)"

definition Config_Backoff :: "retry_config \<Rightarrow> real \<Rightarrow> int \<Rightarrow> int" where
  "Config_Backoff c rand attempts =
    (let jittered = rand * Ceiling c attempts in Duration_of (jittered * 1000000000))"

definition Backoff :: "real \<Rightarrow> int \<Rightarrow> int" where
  "Backoff rand attempts = Config_Backoff DefaultConfig rand attempts"

lemma Ceiling_default: "0 \<le> a \<Longrightarrow> Ceiling DefaultConfig a = of_int (sql_backoff a)"
  by (simp add: Ceiling_def DefaultConfig_def sql_backoff_def of_int_min)

lemma Ceiling_nonneg: "0 \<le> Base c \<Longrightarrow> 0 \<le> Cap c \<Longrightarrow> 0 \<le> Ceiling c a"
  by (simp add: Ceiling_def)

lemma Ceiling_le_Cap: "Ceiling c a \<le> Cap c"
  by (simp add: Ceiling_def Let_def)

lemma Ceiling_mono:
  assumes "0 \<le> Base c" and "a \<le> b"
  shows "Ceiling c a \<le> Ceiling c b"
proof -
  let ?n = "\<lambda>x. nat (if x < 0 then 0 else x)"
  have "?n a \<le> ?n b" using assms(2) by auto
  then have "(2 :: real) ^ ?n a \<le> 2 ^ ?n b" by (rule power_increasing) simp
  then have "2 ^ ?n a * Base c \<le> 2 ^ ?n b * Base c" using assms(1) by (rule mult_right_mono)
  then show ?thesis unfolding Ceiling_def Let_def by (simp add: min.coboundedI2 min_le_iff_disj)
qed

end
