(* ===== verification/Store_Properties.thy ===== *)
theory Store_Properties
  imports Lifecycle Queue_Stats Retry
begin

text \<open>
  What the Postgres store promises its callers, method by method, in any state it can
  reach: the outcomes of a submission, a claim, a completion, a failure, a heartbeat, a
  recovery and a cancellation; the figures of the queue statistics; and the agreement of
  the retry curve in Go with the one in SQL.
\<close>

section \<open>Reading a row after a guarded update\<close>

lemma task_by_id_update_some:
  "keeps_identity f \<Longrightarrow> task_by_id d i = Some t \<Longrightarrow>
    task_by_id (update_tasks p f d) i = Some (if p t then f t else t)"
  by (simp add: task_by_id_update)

lemma rows_affected_card:
  assumes "db_inv d"
  shows "rows_affected p (tasks d) = card {t \<in> set (tasks d). p t}"
proof -
  have "distinct (tasks d)" using db_inv_ids [OF assms] by (simp add: distinct_map)
  then have "distinct (filter p (tasks d))" by simp
  from distinct_card [OF this] show ?thesis by (simp add: rows_affected_def)
qed

lemma not_holds_after:
  "task_by_id d i = Some t \<Longrightarrow> t_claimed_by t = None \<Longrightarrow> \<not> holds_claim d i w"
  by (simp add: holds_claim_def)

section \<open>Submissions\<close>



text \<open>
  C14. A bulk submission that succeeds is exactly the submissions of its tasks one after the
  other, duplicates within the batch and against the table included, and returns one row
  per task in the order of the request; one that fails leaves every row as it was.
\<close>

theorem bulk_is_sequential_or_nothing:
  "case EnqueueBulk d ts of
     (d', Inr out) \<Rightarrow> enqueue_each d ts = (d', Inr out) \<and> length out = length ts
   | (d', Inl e) \<Rightarrow> tasks d' = tasks d \<and> schedules d' = schedules d
       \<and> (\<exists>d'' e'. enqueue_each d ts = (d'', Inl e'))"
proof (cases rule: EnqueueBulk_cases [where d = d and ts = ts])
  case (ok d' out)
  then show ?thesis using enqueue_each_length [OF ok(2)] by simp
next
  case (failed d' e)
  then show ?thesis by (auto simp: rollback_def)
qed

section \<open>Claims\<close>

lemma sql_backoff_eq: "sql_backoff a = min 300 (5 * 2 ^ nat a)"
  by (simp add: sql_backoff_def mult.commute)

lemma jittered_backoff:
  assumes "0 \<le> r" and "r < 1"
  shows "0 \<le> interval_seconds (r * of_int (sql_backoff a))"
    and "interval_seconds (r * of_int (sql_backoff a)) \<le> min 300 (5 * 2 ^ nat a) * second"
proof -
  have "0 \<le> sql_backoff a" using sql_backoff_bounds(1) [of a] by simp
  from jittered_bounds [OF assms this]
  show "0 \<le> interval_seconds (r * of_int (sql_backoff a))"
    and "interval_seconds (r * of_int (sql_backoff a)) \<le> min 300 (5 * 2 ^ nat a) * second"
    by (simp_all only: sql_backoff_eq [symmetric])
qed

text \<open>
  C2. A claim takes, of the tasks of its queue that are pending, due by the database clock
  and not locked by another claim, as many as its limit allows and none behind one it
  leaves; it marks them running for the worker, starts their next attempt, returns them in
  claim order as they are now stored, and changes no other row.
\<close>

theorem claim_takes_best_due:
  assumes "reachable d" and "Claim d locked queue w n = (d', out)"
  shows "claim_spec d locked queue w n d' out"
  by (rule Claim_meets_spec [OF reachable_inv [OF assms(1)] assms(2)])

lemma claim_takes_best_due_witness:
  "claim_spec sample_submitted [] ''default'' ''w1'' 10 sample_claimed
    [claim_row ''w1'' 1000 sample_row]"
proof (rule claim_takes_best_due [OF sample_reachable(1)])
  show "Claim sample_submitted [] ''default'' ''w1'' 10 =
    (sample_claimed, [claim_row ''w1'' 1000 sample_row])"
    by code_simp
qed

definition fail_spec :: "instant \<Rightarrow> string option \<Rightarrow> Task \<Rightarrow> Task \<Rightarrow> bool" where
  "fail_spec now err t t' \<longleftrightarrow>
    (\<exists>st run. t' = t\<lparr>t_status := st, t_run_at := run, t_claimed_by := None, t_heartbeat_at := None,
        t_last_error := Some (case err of None \<Rightarrow> []
          | Some m \<Rightarrow> if length m \<le> 4096 then m else take 4081 m @ '' ...[truncated]'')\<rparr>
      \<and> (if t_attempts t < t_max_attempts t
         then st = StatusPending \<and> now \<le> run
           \<and> run \<le> now + min 300 (5 * 2 ^ nat (t_attempts t)) * second
         else st = StatusDead \<and> run = t_run_at t))"

lemma fail_row_spec:
  assumes "0 \<le> random" and "random < 1" and "msg = (case err of None \<Rightarrow> [] | Some m \<Rightarrow> TruncateError m)"
  shows "fail_spec now err t (fail_row random now msg t)"
proof -
  have "msg = (case err of None \<Rightarrow> []
      | Some m \<Rightarrow> if length m \<le> 4096 then m else take 4081 m @ '' ...[truncated]'')"
    using assms(3) TruncateError_short TruncateError_long
    by (auto simp: truncated_suffix_def split: option.split)
  then show ?thesis
    using jittered_backoff [OF assms(1,2), of "t_attempts t"] unfolding fail_spec_def
    by (intro exI [of _ "t_status (fail_row random now msg t)"] exI [of _ "t_run_at (fail_row random now msg t)"])
      (simp add: fail_row_def)
qed



section \<open>Heartbeats and recovery\<close>

text \<open>
  C7. A recovery pass takes exactly the running rows whose last heartbeat is more than 90
  seconds old: it counts them, ends their claims, and sends each back to wait for its
  backoff while attempts remain or to dead otherwise; every other row stays as it is.
\<close>

theorem recovery_is_exact:
  assumes "reachable d" and "RecoverOrphans d = (d', n)"
  shows "n = card {t \<in> set (tasks d). t_status t = StatusRunning
        \<and> (\<exists>h. t_heartbeat_at t = Some h \<and> h + 90 * second < clock d)}
    \<and> (\<forall>i t. task_by_id d i = Some t \<longrightarrow> (\<exists>t'. task_by_id d' i = Some t'
        \<and> (if t_status t = StatusRunning
              \<and> (\<exists>h. t_heartbeat_at t = Some h \<and> h + 90 * second < clock d)
           then t_claimed_by t' = None \<and> t_attempts t' = t_attempts t
             \<and> (if t_attempts t < t_max_attempts t
                then t_status t' = StatusPending
                  \<and> t_run_at t' = clock d + min 300 (5 * 2 ^ nat (t_attempts t)) * second
                else t_status t' = StatusDead \<and> t_run_at t' = t_run_at t)
           else t' = t)))"
proof -
  have inv: "db_inv d" by (rule reachable_inv [OF assms(1)])
  have d': "d' = update_tasks (orphaned (clock d)) (recover_row (clock d)) d"
    and n: "n = rows_affected (orphaned (clock d)) (tasks d)"
    using assms(2) by (simp_all add: RecoverOrphans_def)
  have orphan: "orphaned (clock d) t \<longleftrightarrow> t_status t = StatusRunning
      \<and> (\<exists>h. t_heartbeat_at t = Some h \<and> h + 90 * second < clock d)" for t
    by (auto simp: orphaned_def split: option.splits)
  have rows: "\<exists>t'. task_by_id d' i = Some t' \<and> t' = (if orphaned (clock d) t
      then recover_row (clock d) t else t)" if "task_by_id d i = Some t" for i t
    using task_by_id_update_some [OF row_laws(5) that] by (simp add: d')
  show ?thesis
    unfolding n rows_affected_card [OF inv] orphan [symmetric]
    using rows by (auto simp: recover_row_def) (simp_all add: sql_backoff_eq)
qed

lemma recovery_is_exact_witness:
  "snd (RecoverOrphans (sample_claimed\<lparr>clock := 1000 + 91 * second\<rparr>)) = 1"
proof -
  have reach: "reachable (sample_claimed\<lparr>clock := 1000 + 91 * second\<rparr>)"
    by (rule reachable.step [OF sample_reachable(2) store_step.time_passes])
      (simp add: sample_tasks second_def)
  have "{t. t = claim_row ''w1'' 1000 sample_row \<and> t_status t = StatusRunning
      \<and> (\<exists>h. t_heartbeat_at t = Some h \<and> h + 90 * second < 1000 + 91 * second)}
      = {claim_row ''w1'' 1000 sample_row}"
    by (auto simp: row_defs second_def)
  with recovery_is_exact [OF reach surjective_pairing] show ?thesis
    by (simp add: sample_tasks)
qed

text \<open>
  C8. A worker whose heartbeat reached a row it holds keeps that claim through any recovery
  pass of the next 90 seconds, however old the heartbeat before it was.
\<close>

theorem heartbeat_protects_claim:
  assumes "reachable d" and "holds_claim d i w" and "i \<in> set ids"
    and "Heartbeat d ids w = (d', n)" and "clock d \<le> now" and "now \<le> clock d + 90 * second"
  shows "holds_claim (fst (RecoverOrphans (d'\<lparr>clock := now\<rparr>))) i w"
proof -
  have inv: "db_inv d" by (rule reachable_inv [OF assms(1)])
  obtain t where t: "task_by_id d i = Some t" "t_status t = StatusRunning" "t_claimed_by t = Some w"
    using holds_claim_running [OF inv assms(2)] by blast
  have d': "d' = update_tasks (heartbeat_where ids w) (heartbeat_row (clock d)) d"
    using assms(3,4) by (cases ids) (simp_all add: Heartbeat_def)
  have "t_id t = i" using t(1) by (simp add: task_by_id_SomeD)
  then have beat: "task_by_id (d'\<lparr>clock := now\<rparr>) i = Some (heartbeat_row (clock d) t)"
    using task_by_id_update_some [OF row_laws(2) t(1)] t assms(3)
    by (simp add: other_steps_frame d' heartbeat_where_def)
  have "\<not> orphaned now (heartbeat_row (clock d) t)"
    using assms(6) by (simp add: orphaned_def heartbeat_row_def)
  with task_by_id_update_some [OF row_laws(5) beat, of "orphaned now" now]
  have "task_by_id (fst (RecoverOrphans (d'\<lparr>clock := now\<rparr>))) i = Some (heartbeat_row (clock d) t)"
    by (simp add: RecoverOrphans_def)
  then show ?thesis using t by (simp add: holds_claim_def heartbeat_row_def)
qed

lemma heartbeat_protects_claim_witness:
  "holds_claim (fst (RecoverOrphans ((fst (Heartbeat sample_claimed [1] ''w1''))
      \<lparr>clock := 1000 + 90 * second\<rparr>))) 1 ''w1''"
  by (rule heartbeat_protects_claim [OF sample_reachable(2) _ _ surjective_pairing])
    (simp_all add: holds_claim_def task_by_id_def sample_tasks sample_row_def row_defs second_def)



section \<open>Cancellation\<close>

lemma Cancel_by_status:
  assumes inv: "db_inv d" and "Cancel d i = (d', e)"
  shows "case task_by_id d i of
      None \<Rightarrow> e = Some ErrNotFound \<and> d' = d
    | Some t \<Rightarrow>
        if t_status t = StatusPending
        then e = None \<and> (\<forall>j. task_by_id d' j =
          (if j = i then Some (t\<lparr>t_status := StatusCancelled\<rparr>) else task_by_id d j))
        else e = Some ErrNotCancellable \<and> d' = d"
proof -
  have w: "cancel_where i = (\<lambda>t. t_id t = i \<and> t_status t = StatusPending)"
    by (simp add: cancel_where_def fun_eq_iff)
  note affected = affected_by_id [OF inv, of i "\<lambda>t. t_status t = StatusPending", folded w]
  have none: "update_tasks (cancel_where i) cancel_row d = d"
    if "rows_affected (cancel_where i) (tasks d) = 0"
    using that by (simp add: update_tasks_def update_where_zero)
  have other: "task_by_id (update_tasks (cancel_where i) cancel_row d) j = task_by_id d j"
    if "j \<noteq> i" for j
    using task_by_id_SomeD [of d j] that
    by (cases "task_by_id d j") (simp_all add: task_by_id_update row_laws w)
  show ?thesis
    using assms(2) affected none other
    by (auto simp: Cancel_def Let_def Get_def task_by_id_update_some [OF row_laws(6)] w cancel_row_def
        dest: task_by_id_SomeD split: option.splits if_splits)
qed

section \<open>Statistics\<close>

lemma queue_stats_fields:
  "qs_queue (QueueStats d q) = q"
  "qs_completed_last_minute (QueueStats d q) =
    completed_since (clock d - minute) (filter (\<lambda>t. t_queue t = q) (tasks d))"
  "qs_completed_last_hour (QueueStats d q) =
    completed_since (clock d - hour) (filter (\<lambda>t. t_queue t = q) (tasks d))"
  "qs_completed_last_day (QueueStats d q) =
    completed_since (clock d - day) (filter (\<lambda>t. t_queue t = q) (tasks d))"
  "qs_oldest_pending_age_seconds (QueueStats d q) =
    (case oldest_due (clock d) (filter (\<lambda>t. t_queue t = q) (tasks d)) of
       None \<Rightarrow> 0 | Some a \<Rightarrow> of_int a / of_int second)"
  by (simp_all add: QueueStats_def queueStatsSQL_def NewQueueStats_def Let_def split: option.split)

text \<open>
  C36. The statistics of a queue account for every task in it: the depth of each status is
  the number of its rows in that status, the depths add up to all its rows, completions per
  minute, hour and day nest inside the successes, and the reported age is that of its
  longest due waiting task, or zero when none is due.
\<close>

theorem queue_stats_account:
  "let s = QueueStats d q; ts = filter (\<lambda>t. t_queue t = q) (tasks d);
       age = (\<lambda>t. of_int (clock d - t_run_at t) / of_int second);
       due = {t \<in> set ts. Due t (clock d)}
   in qs_queue s = q
     \<and> (\<forall>st. qs_depth s st = Some (length (filter (\<lambda>t. t_status t = st) ts)))
     \<and> sum_list (map (\<lambda>st. the (qs_depth s st)) AllStatuses) = length ts
     \<and> qs_completed_last_minute s \<le> qs_completed_last_hour s
     \<and> qs_completed_last_hour s \<le> qs_completed_last_day s
     \<and> qs_completed_last_day s \<le> the (qs_depth s StatusSucceeded)
     \<and> qs_oldest_pending_age_seconds s = (if due = {} then 0 else Max (age ` due))"
proof -
  let ?ts = "filter (\<lambda>t. t_queue t = q) (tasks d)"
  let ?age = "\<lambda>t. of_int (clock d - t_run_at t) / of_int second :: real"
  let ?due = "{t \<in> set ?ts. Due t (clock d)}"
  have depth: "qs_depth (QueueStats d q) st = Some (count_status st ?ts)" for st
    using depth_count [of d q st] by (simp add: in_queue_def)
  have nested: "completed_since (clock d - minute) ?ts \<le> completed_since (clock d - hour) ?ts"
    "completed_since (clock d - hour) ?ts \<le> completed_since (clock d - day) ?ts"
    by (intro completed_since_mono; simp add: minute_def hour_def day_def second_def)+
  have age: "(case oldest_due (clock d) ?ts of None \<Rightarrow> 0 | Some a \<Rightarrow> of_int a / of_int second)
      = (if ?due = {} then 0 else Max (?age ` ?due))"
  proof (cases "oldest_due (clock d) ?ts")
    case None
    then have "?due = {}" unfolding oldest_due_None by (auto simp: Due_def)
    with None show ?thesis by simp
  next
    case (Some a)
    from oldest_due_Some(1) [OF Some] obtain t where t: "t \<in> ?due" "a = clock d - t_run_at t" by auto
    have "Max (?age ` ?due) = of_int a / of_int second"
    proof (rule Max_eqI)
      show "of_int a / of_int second \<in> ?age ` ?due" using t by blast
      show "y \<le> of_int a / of_int second" if "y \<in> ?age ` ?due" for y
        using that oldest_due_Some(2) [OF Some]
        by (auto intro!: divide_right_mono simp: second_def simp flip: of_int_diff)
    qed simp
    with Some t show ?thesis by auto
  qed
  show ?thesis
    unfolding Let_def depth option.sel sum_count_status queue_stats_fields age
    using nested completed_le_succeeded [of "clock d - day" ?ts]
    by (auto simp: count_status_def)
qed

section \<open>The retry curve\<close>

text \<open>
  C37. The delay internal/retry computes is never negative nor above the ceiling, which is
  the SQL policy's ceiling and never shrinks as attempts grow; and for the same random
  number it is the delay the SQL policy sets, to within a microsecond.
\<close>

theorem retry_matches_sql:
  assumes "0 \<le> random" and "random < 1" and "0 \<le> a" and "a \<le> b"
  shows "0 \<le> Backoff random a \<and> Backoff random a \<le> sql_backoff a * 1000000000
    \<and> sql_backoff a \<le> sql_backoff b \<and> sql_backoff b \<le> 300
    \<and> \<bar>Backoff random a - interval_seconds (random * of_int (sql_backoff a)) * 1000\<bar> \<le> 1000"
proof -
  let ?x = "random * of_int (sql_backoff a)"
  have pos: "0 \<le> sql_backoff a" using sql_backoff_bounds(1) [of a] by simp
  have x: "0 \<le> ?x" "?x \<le> of_int (sql_backoff a)"
    using assms(1,2) pos by (simp_all add: mult_left_le_one_le)
  have eq: "Backoff random a = \<lfloor>?x * 1000000000\<rfloor>"
    using x(1) by (simp add: Backoff_def Config_Backoff_def Duration_of_def Ceiling_default [OF assms(3)])
  have "0 \<le> ?x * 1000000000" and "?x * 1000000000 \<le> of_int (sql_backoff a * 1000000000)"
    using x by simp_all
  then have "0 \<le> Backoff random a" and "Backoff random a \<le> sql_backoff a * 1000000000"
    unfolding eq by (simp, metis floor_mono floor_of_int)
  moreover have "\<bar>Backoff random a - interval_seconds ?x * 1000\<bar> \<le> 1000"
  proof -
    have "\<bar>of_int (round (?x * 1000000)) - ?x * 1000000\<bar> \<le> 1 / 2" by (rule of_int_round_abs_le)
    moreover have "of_int \<lfloor>?x * 1000000000\<rfloor> \<le> ?x * 1000000000"
      "?x * 1000000000 < of_int \<lfloor>?x * 1000000000\<rfloor> + 1" by linarith+
    ultimately have "\<bar>of_int \<lfloor>?x * 1000000000\<rfloor> - of_int (round (?x * 1000000)) * 1000\<bar> \<le> (1000 :: real)"
      by linarith
    then have "\<bar>of_int (\<lfloor>?x * 1000000000\<rfloor> - round (?x * 1000000) * 1000)\<bar> \<le> (of_int 1000 :: real)"
      by simp
    then have "\<bar>\<lfloor>?x * 1000000000\<rfloor> - round (?x * 1000000) * 1000\<bar> \<le> 1000"
      by (simp only: of_int_abs [symmetric] of_int_le_iff)
    then show ?thesis by (simp add: eq interval_seconds_def second_def)
  qed
  ultimately show ?thesis using sql_backoff_mono [OF assms(4)] sql_backoff_bounds(2) by simp
qed

lemma retry_matches_sql_witness:
  "Backoff (1/4) 3 \<le> 40 * 1000000000 \<and> sql_backoff 3 \<le> sql_backoff 4"
  using retry_matches_sql [of "1/4" 3 4] by (simp add: sql_backoff_def)

section \<open>Schedules\<close>

lemma resume_point_frame: "schedules d' = schedules d \<Longrightarrow> resume_point d' i = resume_point d i"
  by (simp add: resume_point_def schedule_by_id_def)

text \<open>What may change of a schedule: the enabled flag, and the resume point, forward.\<close>

definition schedule_evolves :: "Schedule \<Rightarrow> Schedule \<Rightarrow> bool" where
  "schedule_evolves s s' \<longleftrightarrow>
    s'\<lparr>s_enabled := s_enabled s, s_last_materialized_at := s_last_materialized_at s\<rparr> = s
    \<and> (\<forall>p. s_last_materialized_at s = Some p \<longrightarrow> (\<exists>q \<ge> p. s_last_materialized_at s' = Some q))"

lemma schedule_evolves_refl [simp]: "schedule_evolves s s"
  by (simp add: schedule_evolves_def)

lemma schedule_evolves_trans:
  assumes one: "schedule_evolves s s'" and two: "schedule_evolves s' s''"
  shows "schedule_evolves s s''"
proof -
  have "s''\<lparr>s_enabled := s_enabled s, s_last_materialized_at := s_last_materialized_at s\<rparr> = s"
    using one two unfolding schedule_evolves_def by (cases s, cases s', cases s'') simp
  moreover have "\<exists>q \<ge> p. s_last_materialized_at s'' = Some q" if "s_last_materialized_at s = Some p" for p
    using that one two unfolding schedule_evolves_def by (meson order_trans)
  ultimately show ?thesis by (simp add: schedule_evolves_def)
qed

lemma schedule_by_id_frame: "schedules d' = schedules d \<Longrightarrow> schedule_by_id d' i = schedule_by_id d i"
  by (simp add: schedule_by_id_def)

lemma schedule_by_id_created:
  "schedule_by_id d i = Some s \<Longrightarrow> schedule_by_id (fst (CreateSchedule d sc)) i = Some s"
proof -
  assume s: "schedule_by_id d i = Some s"
  have "\<exists>new. schedules (fst (CreateSchedule d sc)) = schedules d @ new"
    by (simp add: CreateSchedule_def createScheduleSQL_def Let_def split: prod.split sum.split)
  with s show ?thesis by (auto simp: schedule_by_id_def by_key_append)
qed

lemma schedule_by_id_update:
  assumes "\<And>s. s_id (f s) = s_id s" and "schedule_by_id d i = Some s"
    and "\<And>s. p s \<Longrightarrow> schedule_evolves s (f s)"
  shows "\<exists>s'. schedule_by_id (update_schedules p f d) i = Some s' \<and> schedule_evolves s s'"
  using assms by (simp add: schedule_by_id_def by_key_update_where)

lemma store_step_schedules:
  assumes "store_step d ev d'" and "schedule_by_id d i = Some s"
  shows "\<exists>s'. schedule_by_id d' i = Some s' \<and> schedule_evolves s s'"
  using assms
proof (induction rule: store_step.induct)
  case (enqueue d t d' r)
  then have "schedules d' = schedules d"
    using enqueue_args_frame(2) [OF surjective_pairing, of d t] enqueueOne_fst [of d t]
    by (simp add: Enqueue_def)
  with enqueue show ?case by (metis schedule_by_id_frame schedule_evolves_refl)
next
  case (enqueue_bulk d ts d' r)
  then have "schedules d' = schedules d"
    using send_batch_frame [OF surjective_pairing, of d ts]
    by (cases rule: EnqueueBulk_cases [where d = d and ts = ts]) (auto simp: rollback_def)
  with enqueue_bulk show ?case by (metis schedule_by_id_frame schedule_evolves_refl)
next
  case (cancel d j d' e)
  then show ?case using Cancel_fst [of d j] schedule_by_id_frame [of d' d] by simp
next
  case (create_schedule d sc d' r)
  then show ?case using schedule_by_id_created [of d i s sc] by simp
next
  case (set_schedule_enabled d j b d' r)
  then have "d' = update_schedules (\<lambda>s. s_id s = j) (\<lambda>s. s\<lparr>s_enabled := b\<rparr>) d"
    by (auto simp: SetScheduleEnabled_def Let_def split: option.splits)
  then show ?case
    using set_schedule_enabled.prems
    by (simp only:) (intro schedule_by_id_update, auto simp: schedule_evolves_def)
next
  case (advance_resume_point d j pt)
  then show ?case
    unfolding AdvanceLastMaterializedAt_def
    by (intro schedule_by_id_update)
      (auto simp: schedule_evolves_def advance_where_def split: option.splits)
qed (auto simp: schedule_by_id_def Claim_def Let_def Heartbeat_def Complete_def
    Fail_def RecoverOrphans_def split: if_splits)

lemma store_run_schedules:
  "store_run d evs d' \<Longrightarrow> schedule_by_id d i = Some s \<Longrightarrow>
    \<exists>s'. schedule_by_id d' i = Some s' \<and> schedule_evolves s s'"
proof (induction rule: store_run.induct)
  case (more d evs d' ev d'')
  then obtain s' where "schedule_by_id d' i = Some s'" "schedule_evolves s s'" by blast
  with store_step_schedules [OF more.hyps(2)] show ?case by (meson schedule_evolves_trans)
qed auto

text \<open>
  C38. A schedule is never deleted, its definition never changes, and its resume point never
  moves back, whatever any node does: not by a late or repeated advance, by disabling and
  enabling the schedule, nor by any other method.
\<close>

theorem resume_point_never_moves_back:
  assumes "store_run d evs d'" and "schedule_by_id d i = Some s"
  shows "\<exists>s'. schedule_by_id d' i = Some s'
    \<and> s'\<lparr>s_enabled := s_enabled s, s_last_materialized_at := s_last_materialized_at s\<rparr> = s
    \<and> (\<forall>p. s_last_materialized_at s = Some p \<longrightarrow> (\<exists>q \<ge> p. s_last_materialized_at s' = Some q))"
  using store_run_schedules [OF assms] unfolding schedule_evolves_def by blast

lemma resume_point_never_moves_back_witness:
  "let d = (empty_db 0)\<lparr>schedules := [\<lparr>s_id = 1, s_cron = ''* * * * *'', s_timezone = ''UTC'',
      s_queue = ''q'', s_handler = ''h'', s_payload = Some ''{}'', s_priority = 0,
      s_max_attempts = 5, s_enabled = True, s_last_materialized_at = Some 600,
      s_created_at = 0\<rparr>]\<rparr>
   in \<exists>q \<ge> 600. resume_point (AdvanceLastMaterializedAt d 1 540) 1 = Some q"
proof -
  let ?d = "(empty_db 0)\<lparr>schedules := [\<lparr>s_id = 1, s_cron = ''* * * * *'', s_timezone = ''UTC'',
      s_queue = ''q'', s_handler = ''h'', s_payload = Some ''{}'', s_priority = 0,
      s_max_attempts = 5, s_enabled = True, s_last_materialized_at = Some 600,
      s_created_at = 0\<rparr>]\<rparr>"
  have "store_run ?d ([] @ [Quiet]) (AdvanceLastMaterializedAt ?d 1 540)"
    by (rule store_run.more [OF store_run.none store_step.advance_resume_point])
  from resume_point_never_moves_back [OF this, of 1] show ?thesis
    by (auto simp: Let_def resume_point_def schedule_by_id_def)
qed

end
