(* ===== verification/Queue_Refinement.thy ===== *)
theory Queue_Refinement
  imports Store_Properties
begin

text \<open>
  What internal/store/store.go promises, as an abstract queue: a finite map from task ids to
  jobs that wait, are held by one worker or are finished, and one rule per method with the
  answer it gives. Every call of the Postgres store is shown to be a call of this queue, with
  the same answer, under the abstraction that forgets times, payloads, queues and keys.
\<close>

section \<open>The abstract queue\<close>

datatype phase = Waiting | Held string | Finished Status

record job =
  j_phase :: phase
  j_used :: int
  j_limit :: int

type_synonym jobs = "int \<rightharpoonup> job"

text \<open>A call with the answer it got. Ids and counts are what the caller sees of the state.\<close>

datatype call =
    Submitted "(int \<times> bool) option"
  | SubmittedBulk "int list option"
  | Handed string "(int \<times> int) list"
  | Refreshed "int list" string nat
  | Succeeded int string "StoreErr option"
  | Failed int string "StoreErr option"
  | Reclaimed nat
  | Withdrawn int "StoreErr option"
  | Elsewhere

text \<open>New jobs wait with no attempt used and at least one allowed; the others stay.\<close>

definition adds :: "jobs \<Rightarrow> int set \<Rightarrow> jobs \<Rightarrow> bool" where
  "adds q ids q' \<longleftrightarrow>
    dom q' = dom q \<union> ids \<and> (\<forall>i \<in> dom q. q' i = q i)
    \<and> (\<forall>i \<in> ids - dom q. \<exists>n \<ge> 1. q' i = Some \<lparr>j_phase = Waiting, j_used = 0, j_limit = n\<rparr>)"

definition held_by :: "jobs \<Rightarrow> int \<Rightarrow> string \<Rightarrow> bool" where
  "held_by q i w \<longleftrightarrow> (\<exists>j. q i = Some j \<and> j_phase j = Held w)"

definition hand :: "string \<Rightarrow> job \<Rightarrow> job" where
  "hand w j = j\<lparr>j_phase := Held w, j_used := j_used j + 1\<rparr>"

definition finish :: "Status \<Rightarrow> job \<Rightarrow> job" where
  "finish s j = j\<lparr>j_phase := Finished s\<rparr>"

definition give_back :: "job \<Rightarrow> job" where
  "give_back j = j\<lparr>j_phase := if j_used j < j_limit j then Waiting else Finished StatusDead\<rparr>"

definition change :: "int set \<Rightarrow> (job \<Rightarrow> job) \<Rightarrow> jobs \<Rightarrow> jobs" where
  "change S f q = (\<lambda>i. if i \<in> S then map_option f (q i) else q i)"

inductive queue_call :: "jobs \<Rightarrow> call \<Rightarrow> jobs \<Rightarrow> bool" where
  refused: "queue_call q (Submitted None) q"
| created: "i \<notin> dom q \<Longrightarrow> adds q {i} q' \<Longrightarrow> queue_call q (Submitted (Some (i, True))) q'"
| known: "i \<in> dom q \<Longrightarrow> queue_call q (Submitted (Some (i, False))) q"
| bulk_refused: "queue_call q (SubmittedBulk None) q"
| bulk: "adds q (set ids) q' \<Longrightarrow> queue_call q (SubmittedBulk (Some ids)) q'"
| handed: "distinct (map fst ps) \<Longrightarrow>
    \<forall>(i, a) \<in> set ps. \<exists>j. q i = Some j \<and> j_phase j = Waiting \<and> a = j_used j + 1 \<and> a \<le> j_limit j \<Longrightarrow>
    queue_call q (Handed w ps) (change (fst ` set ps) (hand w) q)"
| refreshed: "n = card {i \<in> set ids. held_by q i w} \<Longrightarrow> queue_call q (Refreshed ids w n) q"
| succeeded: "held_by q i w \<Longrightarrow> queue_call q (Succeeded i w None) (change {i} (finish StatusSucceeded) q)"
| not_yours: "\<not> held_by q i w \<Longrightarrow> queue_call q (Succeeded i w (Some ErrClaimLost)) q"
| failed: "held_by q i w \<Longrightarrow> queue_call q (Failed i w None) (change {i} give_back q)"
| fail_not_yours: "\<not> held_by q i w \<Longrightarrow> queue_call q (Failed i w (Some ErrClaimLost)) q"
| reclaimed: "\<forall>i \<in> S. \<exists>w. held_by q i w \<Longrightarrow> n = card S \<Longrightarrow> finite S \<Longrightarrow>
    queue_call q (Reclaimed n) (change S give_back q)"
| withdrawn: "q i = Some j \<Longrightarrow> j_phase j = Waiting \<Longrightarrow>
    queue_call q (Withdrawn i None) (change {i} (finish StatusCancelled) q)"
| withdrawn_unknown: "q i = None \<Longrightarrow> queue_call q (Withdrawn i (Some ErrNotFound)) q"
| withdrawn_late: "q i = Some j \<Longrightarrow> j_phase j \<noteq> Waiting \<Longrightarrow>
    queue_call q (Withdrawn i (Some ErrNotCancellable)) q"
| elsewhere: "queue_call q Elsewhere q"

section \<open>The store's calls, and the abstraction\<close>

fun submit_answer :: "Task option \<times> StoreErr option \<Rightarrow> (int \<times> bool) option" where
  "submit_answer (None, e) = None"
| "submit_answer (Some t, e) = Some (t_id t, e = None)"

fun bulk_answer :: "StoreErr + Task list \<Rightarrow> int list option" where
  "bulk_answer (Inl e) = None"
| "bulk_answer (Inr ts) = Some (map t_id ts)"

inductive store_call :: "db \<Rightarrow> call \<Rightarrow> db \<Rightarrow> bool" where
  "clock d \<le> now \<Longrightarrow> store_call d Elsewhere (d\<lparr>clock := now\<rparr>)"
| "Enqueue d t = (d', r) \<Longrightarrow> store_call d (Submitted (submit_answer r)) d'"
| "EnqueueBulk d ts = (d', r) \<Longrightarrow> store_call d (SubmittedBulk (bulk_answer r)) d'"
| "Claim d locked q w n = (d', out) \<Longrightarrow> store_call d (Handed w (handed_out out)) d'"
| "Heartbeat d ids w = (d', n) \<Longrightarrow> store_call d (Refreshed ids w n) d'"
| "Complete d i w = (d', e) \<Longrightarrow> store_call d (Succeeded i w e) d'"
| "Fail random d i w err = (d', e) \<Longrightarrow> store_call d (Failed i w e) d'"
| "RecoverOrphans d = (d', n) \<Longrightarrow> store_call d (Reclaimed n) d'"
| "Cancel d i = (d', e) \<Longrightarrow> store_call d (Withdrawn i e) d'"
| "CreateSchedule d sc = (d', r) \<Longrightarrow> store_call d Elsewhere d'"
| "SetScheduleEnabled d i b = (d', r') \<Longrightarrow> store_call d Elsewhere d'"
| "store_call d Elsewhere (AdvanceLastMaterializedAt d i pt)"

text \<open>The calls are the steps of the store, with their answers.\<close>

lemma store_step_is_call: "store_step d ev d' \<longleftrightarrow>
    (\<exists>c. store_call d c d' \<and> ev = (case c of Handed w ps \<Rightarrow> Delivered w ps | _ \<Rightarrow> Quiet))"
proof
  show "store_step d ev d' \<Longrightarrow> \<exists>c. store_call d c d' \<and> ev = (case c of Handed w ps \<Rightarrow> Delivered w ps | _ \<Rightarrow> Quiet)"
    by (induction rule: store_step.induct) (force intro: store_call.intros)+
next
  assume "\<exists>c. store_call d c d' \<and> ev = (case c of Handed w ps \<Rightarrow> Delivered w ps | _ \<Rightarrow> Quiet)"
  then obtain c where "store_call d c d'" and "ev = (case c of Handed w ps \<Rightarrow> Delivered w ps | _ \<Rightarrow> Quiet)"
    by blast
  then show "store_step d ev d'"
    by (induction rule: store_call.induct) (auto intro: store_step.intros)
qed

fun phase_of :: "Status \<Rightarrow> string option \<Rightarrow> phase" where
  "phase_of StatusPending w = Waiting"
| "phase_of StatusRunning (Some w) = Held w"
| "phase_of s w = Finished s"

definition job_of :: "Task \<Rightarrow> job" where
  "job_of t = \<lparr>j_phase = phase_of (t_status t) (t_claimed_by t), j_used = t_attempts t,
               j_limit = t_max_attempts t\<rparr>"

definition jobs_of :: "db \<Rightarrow> jobs" where
  "jobs_of d = (\<lambda>i. map_option job_of (task_by_id d i))"

lemma phase_of_simps [simp]:
  "phase_of s c = Waiting \<longleftrightarrow> s = StatusPending"
  "phase_of s c = Held w \<longleftrightarrow> s = StatusRunning \<and> c = Some w"
  by (cases s; cases c; simp)+

lemma job_of_simps [simp]:
  "j_phase (job_of t) = phase_of (t_status t) (t_claimed_by t)"
  "j_used (job_of t) = t_attempts t" "j_limit (job_of t) = t_max_attempts t"
  by (simp_all add: job_of_def)

text \<open>The six row updates, seen through the abstraction.\<close>

lemma job_of_rows [simp]:
  "job_of (claim_row w now t) = hand w (job_of t)"
  "job_of (heartbeat_row now t) = job_of t"
  "job_of (complete_row t) = finish StatusSucceeded (job_of t)"
  "job_of (fail_row random now msg t) = give_back (job_of t)"
  "job_of (recover_row now t) = give_back (job_of t)"
  "job_of (cancel_row t) = finish StatusCancelled (job_of t)"
  by (simp_all add: job_of_def row_defs hand_def finish_def give_back_def)

lemma held_by_iff:
  assumes "db_inv d"
  shows "held_by (jobs_of d) i w \<longleftrightarrow> (\<exists>t. task_by_id d i = Some t \<and> t_claimed_by t = Some w)"
  using task_by_id_row_inv [OF assms, of i]
  by (auto simp: held_by_def jobs_of_def dest!: row_inv_claimed)

lemma jobs_of_update:
  assumes "db_inv d" and "keeps_identity f"
    and "\<And>t. t \<in> set (tasks d) \<Longrightarrow> p t \<Longrightarrow> job_of (f t) = g (job_of t)"
  shows "jobs_of (update_tasks p f d) = change {t_id t |t. t \<in> set (tasks d) \<and> p t} g (jobs_of d)"
proof
  fix i
  show "jobs_of (update_tasks p f d) i = change {t_id t |t. t \<in> set (tasks d) \<and> p t} g (jobs_of d) i"
  proof (cases "task_by_id d i")
    case (Some t)
    have "(\<exists>u. u \<in> set (tasks d) \<and> p u \<and> t_id u = i) \<longleftrightarrow> p t"
      using Some assms(1) task_by_id_iff [OF assms(1), of i] by (metis option.inject)
    then show ?thesis
      using Some assms(3) [of t] task_by_id_SomeD [OF Some]
      by (auto simp: jobs_of_def change_def task_by_id_update [OF assms(2)])
  qed (simp add: jobs_of_def change_def task_by_id_update [OF assms(2)])
qed

lemma change_none: "change {} f q = q"
  by (simp add: change_def)

lemma change_id: "change S (\<lambda>j. j) q = q"
  by (simp add: change_def option.map_ident fun_eq_iff)

lemma jobs_of_frame: "tasks d' = tasks d \<Longrightarrow> jobs_of d' = jobs_of d"
  by (simp add: jobs_of_def task_by_id_def)

section \<open>Each method\<close>

lemma dom_jobs_of: "dom (jobs_of d) = t_id ` set (tasks d)"
proof (rule set_eqI)
  fix i
  have "task_by_id d i = None \<longleftrightarrow> i \<notin> t_id ` set (tasks d)"
    by (simp only: task_by_id_def by_key_None)
  then show "i \<in> dom (jobs_of d) \<longleftrightarrow> i \<in> t_id ` set (tasks d)"
    by (cases "task_by_id d i") (simp_all add: jobs_of_def dom_def)
qed

lemma adds_refl: "i \<in> dom q \<Longrightarrow> adds q {i} q" "adds q {} q"
  by (auto simp: adds_def)

lemma adds_trans: "adds q I q1 \<Longrightarrow> adds q1 J q' \<Longrightarrow> adds q (I \<union> J) q'"
proof -
  assume one: "adds q I q1" and two: "adds q1 J q'"
  have keep: "q' i = q1 i" if "i \<in> dom q \<union> I" for i
    using one two that by (simp add: adds_def)
  have "\<exists>n \<ge> 1. q' i = Some \<lparr>j_phase = Waiting, j_used = 0, j_limit = n\<rparr>" if "i \<in> I \<union> J - dom q" for i
  proof (cases "i \<in> I")
    case True
    then show ?thesis using one that keep [of i] by (simp add: adds_def)
  next
    case False
    then show ?thesis using one two that by (simp add: adds_def)
  qed
  then show "adds q (I \<union> J) q'"
    using one two keep by (auto simp: adds_def)
qed

lemma adds_row:
  assumes "db_inv d" and "args_ok d t"
    and "tasks d' = tasks d @ [row_for d t]"
  shows "t_id (row_for d t) \<notin> dom (jobs_of d)" and "adds (jobs_of d) {t_id (row_for d t)} (jobs_of d')"
proof -
  show fresh: "t_id (row_for d t) \<notin> dom (jobs_of d)"
    using db_inv_seq [OF assms(1)] unfolding dom_jobs_of row_for_simps(1) by force
  have "jobs_of d' i = (if i = next_task_id d then Some (job_of (row_for d t)) else jobs_of d i)" for i
    using fresh assms(3)
    by (auto simp: jobs_of_def task_by_id_def by_key_append dom_def split: option.split)
  moreover have "job_of (row_for d t) = \<lparr>j_phase = Waiting, j_used = 0,
      j_limit = (if t_max_attempts t = 0 then 5 else t_max_attempts t)\<rparr>"
    by (simp add: job_of_def)
  moreover have "1 \<le> (if t_max_attempts t = 0 then 5 else t_max_attempts t)"
    using assms(2) by (simp add: args_ok_def)
  ultimately show "adds (jobs_of d) {t_id (row_for d t)} (jobs_of d')"
    using fresh by (auto simp: adds_def dom_def)
qed

lemma Enqueue_refines:
  assumes "db_inv d" and "Enqueue d t = (d', r)"
  shows "queue_call (jobs_of d) (Submitted (submit_answer r)) (jobs_of d')"
proof (cases rule: Enqueue_cases [where d = d and t = t])
  case created
  have "tasks d' = tasks d @ [row_for d t]" "r = (Some (row_for d t), None)"
    using created(1) assms(2) by auto
  then show ?thesis
    using adds_row [OF assms(1) created(3)] by (auto intro: queue_call.created)
next
  case (duplicate k u)
  then have "jobs_of d' = jobs_of d" "r = (Some u, Some ErrDuplicateIdempotencyKey)"
    using assms(2) by (auto intro!: jobs_of_frame)
  moreover have "t_id u \<in> dom (jobs_of d)" using duplicate by (simp add: dom_jobs_of)
  ultimately show ?thesis by (auto intro: queue_call.known)
next
  case (refused d1 e)
  then have "jobs_of d' = jobs_of d" "fst r = None"
    using assms(2) by (auto intro!: jobs_of_frame)
  then show ?thesis by (cases r) (auto intro: queue_call.refused)
qed

lemma enqueue_each_adds:
  "db_inv d \<Longrightarrow> enqueue_each d ts = (d', Inr out) \<Longrightarrow> adds (jobs_of d) (t_id ` set out) (jobs_of d')"
proof (induction ts arbitrary: d out)
  case (Cons t ts)
  obtain d1 r e rest where one: "Enqueue d t = (d1, Some r, e)"
    and more: "enqueue_each d1 ts = (d', Inr rest)" and out: "out = r # rest"
    using Cons.prems(2) by (auto split: prod.splits option.splits sum.splits)
  have inv: "db_inv d1" using Enqueue_inv [OF Cons.prems(1), of t] one by simp
  have "adds (jobs_of d) {t_id r} (jobs_of d1)"
    using Enqueue_refines [OF Cons.prems(1) one]
    by (auto elim!: queue_call.cases intro: adds_refl(1) [OF domI])
  from adds_trans [OF this Cons.IH [OF inv more]] show ?case by (simp add: out)
qed (simp add: adds_refl)

lemma EnqueueBulk_refines:
  assumes "db_inv d" and "EnqueueBulk d ts = (d', r)"
  shows "queue_call (jobs_of d) (SubmittedBulk (bulk_answer r)) (jobs_of d')"
proof (cases rule: EnqueueBulk_cases [where d = d and ts = ts])
  case (ok d1 out)
  then show ?thesis
    using enqueue_each_adds [OF assms(1) ok(2)] assms(2) by (auto intro: queue_call.bulk)
next
  case (failed d1 e)
  then have "jobs_of d' = jobs_of d" using assms(2) by (auto simp: rollback_def intro!: jobs_of_frame)
  then show ?thesis using failed assms(2) by (auto intro: queue_call.bulk_refused)
qed

lemma Claim_refines:
  assumes inv: "db_inv d" and claim: "Claim d locked queue w n = (d', out)"
  shows "queue_call (jobs_of d) (Handed w (handed_out out)) (jobs_of d')"
proof -
  define C where "C = claim_candidates d locked queue n"
  have d': "d' = update_tasks (\<lambda>t. t_id t \<in> t_id ` set C) (claim_row w (clock d)) d"
    and out: "out = map (claim_row w (clock d)) C"
    using claim Claim_eq [OF inv, of locked queue w n] by (simp_all add: C_def)
  have ps: "handed_out out = map (\<lambda>t. (t_id t, t_attempts t + 1)) C"
    by (simp add: handed_out_def out claim_row_def)
  have cand: "t \<in> set (tasks d) \<and> t_status t = StatusPending" if "t \<in> set C" for t
    using candidates_claimable [of t d locked queue n] that by (simp add: C_def claimable_def)
  have "{t_id t |t. t \<in> set (tasks d) \<and> t_id t \<in> t_id ` set C} = fst ` set (handed_out out)"
    using cand by (auto simp: ps image_image)
  then have "jobs_of d' = change (fst ` set (handed_out out)) (hand w) (jobs_of d)"
    unfolding d' by (subst jobs_of_update [OF inv row_laws(1), where g = "hand w"]) simp_all
  moreover have "distinct (map fst (handed_out out))"
    using distinct_candidates [OF inv, of locked queue n] by (simp add: ps C_def comp_def)
  moreover have "jobs_of d (t_id t) = Some (job_of t) \<and> j_phase (job_of t) = Waiting
      \<and> t_attempts t + 1 \<le> j_limit (job_of t)" if "t \<in> set C" for t
    using cand [OF that] task_by_id_iff [OF inv, of "t_id t" t] row_inv_pending [OF db_inv_row [OF inv], of t]
    by (simp add: jobs_of_def)
  then have "\<forall>(i, a) \<in> set (handed_out out). \<exists>j. jobs_of d i = Some j \<and> j_phase j = Waiting
      \<and> a = j_used j + 1 \<and> a \<le> j_limit j"
    by (auto simp: ps)
  ultimately show ?thesis by (simp add: queue_call.handed)
qed

lemma ids_of_owned:
  assumes "db_inv d"
  shows "{t_id t |t. t \<in> set (tasks d) \<and> owned_by i w t} = (if held_by (jobs_of d) i w then {i} else {})"
  by (auto simp: held_by_iff [OF assms] task_by_id_iff [OF assms] owned_by_def)

lemma owned_rows:
  "db_inv d \<Longrightarrow> rows_affected (owned_by i w) (tasks d) = 0 \<longleftrightarrow> \<not> held_by (jobs_of d) i w"
  by (auto simp: rows_affected_zero held_by_iff task_by_id_iff owned_by_def)

lemma owned_update_refines:
  assumes "db_inv d" and "keeps_identity f" and "\<And>t. job_of (f t) = g (job_of t)"
  shows "jobs_of (update_tasks (owned_by i w) f d)
    = (if held_by (jobs_of d) i w then change {i} g (jobs_of d) else jobs_of d)"
  using jobs_of_update [OF assms(1,2), of "owned_by i w" g] ids_of_owned [OF assms(1), of i w] assms(3)
  by (simp add: change_none)

lemma Complete_refines:
  assumes "db_inv d" and "Complete d i w = (d', e)"
  shows "queue_call (jobs_of d) (Succeeded i w e) (jobs_of d')"
  using assms(2) owned_update_refines [OF assms(1) row_laws(3), of "finish StatusSucceeded" i w]
    owned_rows [OF assms(1), of i w]
  by (auto simp: Complete_def intro: queue_call.succeeded queue_call.not_yours split: if_splits)

lemma Fail_refines:
  assumes "db_inv d" and "Fail random d i w err = (d', e)"
  shows "queue_call (jobs_of d) (Failed i w e) (jobs_of d')"
  using assms(2) owned_update_refines [OF assms(1) row_laws(4), of _ _ _ give_back i w]
    owned_rows [OF assms(1), of i w]
  by (auto simp: Fail_def Let_def intro: queue_call.failed queue_call.fail_not_yours split: if_splits)

lemma rows_affected_ids:
  assumes "db_inv d"
  shows "rows_affected p (tasks d) = card {t_id t |t. t \<in> set (tasks d) \<and> p t}"
proof -
  have "inj_on t_id {t \<in> set (tasks d). p t}"
    using distinct_key_eq [OF db_inv_ids [OF assms]] by (auto intro!: inj_onI)
  then have "card (t_id ` {t \<in> set (tasks d). p t}) = card {t \<in> set (tasks d). p t}"
    by (rule card_image)
  moreover have "t_id ` {t \<in> set (tasks d). p t} = {t_id t |t. t \<in> set (tasks d) \<and> p t}" by auto
  ultimately show ?thesis by (simp add: rows_affected_card [OF assms])
qed

lemma Heartbeat_refines:
  assumes "db_inv d" and "Heartbeat d ids w = (d', n)"
  shows "queue_call (jobs_of d) (Refreshed ids w n) (jobs_of d')"
proof -
  have "{t_id t |t. t \<in> set (tasks d) \<and> heartbeat_where ids w t} = {i \<in> set ids. held_by (jobs_of d) i w}"
    using row_inv_claimed [OF db_inv_row [OF assms(1)]]
    by (force simp: held_by_iff [OF assms(1)] task_by_id_iff [OF assms(1)] heartbeat_where_def)
  then have "n = card {i \<in> set ids. held_by (jobs_of d) i w}"
    using assms(2) rows_affected_ids [OF assms(1), of "heartbeat_where ids w"]
    by (auto simp: Heartbeat_def split: if_splits)
  moreover have "jobs_of d' = jobs_of d"
    using assms(2) jobs_of_update [OF assms(1) row_laws(2), of "heartbeat_where ids w" "clock d" "\<lambda>j. j"]
    by (auto simp: Heartbeat_def change_id split: if_splits)
  ultimately show ?thesis by (simp add: queue_call.refreshed)
qed

lemma RecoverOrphans_refines:
  assumes "db_inv d" and "RecoverOrphans d = (d', n)"
  shows "queue_call (jobs_of d) (Reclaimed n) (jobs_of d')"
proof -
  let ?S = "{t_id t |t. t \<in> set (tasks d) \<and> orphaned (clock d) t}"
  have "\<exists>w. held_by (jobs_of d) i w" if "i \<in> ?S" for i
    using that row_inv_claimed [OF db_inv_row [OF assms(1)]]
    by (fastforce simp: held_by_iff [OF assms(1)] task_by_id_iff [OF assms(1)] orphaned_def)
  moreover have "n = card ?S" and "jobs_of d' = change ?S give_back (jobs_of d)"
    using assms(2) rows_affected_ids [OF assms(1)] jobs_of_update [OF assms(1) row_laws(5), of "orphaned (clock d)"]
    by (auto simp: RecoverOrphans_def)
  ultimately show ?thesis by (simp add: queue_call.reclaimed)
qed

lemma Cancel_refines:
  assumes "db_inv d" and "Cancel d i = (d', e)"
  shows "queue_call (jobs_of d) (Withdrawn i e) (jobs_of d')"
proof (cases "task_by_id d i")
  case None
  then show ?thesis
    using Cancel_by_status [OF assms] by (simp add: jobs_of_def queue_call.withdrawn_unknown)
next
  case (Some t)
  have job: "jobs_of d i = Some (job_of t)" using Some by (simp add: jobs_of_def)
  show ?thesis
  proof (cases "t_status t = StatusPending")
    case True
    then have e: "e = None" and rows: "\<And>j. task_by_id d' j = (if j = i then Some (cancel_row t) else task_by_id d j)"
      using Cancel_by_status [OF assms] Some by (simp_all add: cancel_row_def)
    have "jobs_of d' = change {i} (finish StatusCancelled) (jobs_of d)"
      using Some by (auto simp: jobs_of_def change_def rows)
    then show ?thesis using job True e by (simp add: queue_call.withdrawn)
  next
    case False
    then show ?thesis
      using Cancel_by_status [OF assms] Some job
        queue_call.withdrawn_late [of "jobs_of d" i "job_of t"] by simp
  qed
qed

lemma Elsewhere_refines:
  "queue_call (jobs_of d) Elsewhere (jobs_of (d\<lparr>clock := now\<rparr>))"
  "CreateSchedule d sc = (d', r) \<Longrightarrow> queue_call (jobs_of d) Elsewhere (jobs_of d')"
  "SetScheduleEnabled d i b = (d', r') \<Longrightarrow> queue_call (jobs_of d) Elsewhere (jobs_of d')"
  "queue_call (jobs_of d) Elsewhere (jobs_of (AdvanceLastMaterializedAt d i pt))"
  by (simp_all add: jobs_of_def other_steps_frame queue_call.elsewhere)

lemmas call_refines = Enqueue_refines EnqueueBulk_refines Claim_refines Heartbeat_refines
  Complete_refines Fail_refines RecoverOrphans_refines Cancel_refines
  Elsewhere_refines

text \<open>
  C10. The Postgres store implements the abstract queue: whatever call any node makes in any
  state the system can reach, the tasks before and after it, seen as jobs, are related by the
  rule of the queue for that call with the answer the caller gets. So a submission adds one
  waiting job or none, a claim hands out jobs that wait and have an attempt left, only the
  worker that holds a job can end it and every other one is told so, a job that fails or
  whose worker is lost waits again or is dead, and a job is withdrawn only while it waits.
\<close>

theorem store_refines_queue:
  assumes "reachable d" and "store_call d c d'"
  shows "queue_call (jobs_of d) c (jobs_of d')"
proof -
  have "db_inv d" by (rule reachable_inv [OF assms(1)])
  with assms(2) show ?thesis
    by (induction rule: store_call.induct) (blast intro: call_refines)+
qed

lemma store_refines_queue_witness:
  "queue_call (jobs_of sample_claimed) (Succeeded 1 ''w2'' (snd (Complete sample_claimed 1 ''w2'')))
    (jobs_of (fst (Complete sample_claimed 1 ''w2'')))"
  by (rule store_refines_queue [OF sample_reachable(2) store_call.intros(6) [OF surjective_pairing]])

section \<open>What the abstract queue guarantees\<close>

text \<open>Finished jobs never change, whoever calls what.\<close>

lemma queue_call_finished:
  assumes "queue_call q c q'" and "q i = Some j" and "j_phase j = Finished s"
  shows "q' i = Some j"
  using assms
  by (induction rule: queue_call.induct)
    (auto simp: adds_def change_def held_by_def simp del: Diff_iff split: option.splits dest: bspec [OF _ domI])

end
