(* ===== verification/Concurrency.thy ===== *)
theory Concurrency
  imports Lifecycle
begin

text \<open>
  Claims as they overlap. A claim first selects its rows with FOR UPDATE SKIP LOCKED and only
  later commits its update, at the time its transaction began; in between, other claims
  select around its rows, other statements cannot change them, and the claim may also abort.
  Every interleaving of any number of workers is a run of the relation below.
\<close>

section \<open>Overlapping claims\<close>

record claim_tx =
  tx_worker :: string
  tx_now :: instant
  tx_rows :: "int list"

record conc =
  c_db :: db
  c_open :: "claim_tx list"

definition locked_ids :: "conc \<Rightarrow> int list" where
  "locked_ids s = concat (map tx_rows (c_open s))"

definition lock_rows :: "conc \<Rightarrow> string \<Rightarrow> string \<Rightarrow> nat \<Rightarrow> claim_tx" where
  "lock_rows s queue workerID limit =
    \<lparr>tx_worker = workerID, tx_now = clock (c_db s),
     tx_rows = map t_id (claim_candidates (c_db s) (locked_ids s) queue limit)\<rparr>"

definition commit_rows :: "claim_tx \<Rightarrow> db \<Rightarrow> db" where
  "commit_rows tx d = update_tasks (\<lambda>t. t_id t \<in> set (tx_rows tx)) (claim_row (tx_worker tx) (tx_now tx)) d"

definition delivery :: "claim_tx \<Rightarrow> db \<Rightarrow> (int \<times> int) list" where
  "delivery tx d =
    map (\<lambda>t. (t_id t, t_attempts t + 1)) (filter (\<lambda>t. t_id t \<in> set (tx_rows tx)) (tasks d))"

inductive conc_step :: "conc \<Rightarrow> event \<Rightarrow> conc \<Rightarrow> bool" where
  begins: "conc_step s Quiet (s\<lparr>c_open := lock_rows s queue w limit # c_open s\<rparr>)"
| commits: "c_open s = before @ tx # after \<Longrightarrow>
    conc_step s (Delivered (tx_worker tx) (delivery tx (c_db s)))
      (s\<lparr>c_db := commit_rows tx (c_db s), c_open := before @ after\<rparr>)"
| aborts: "c_open s = before @ tx # after \<Longrightarrow> conc_step s Quiet (s\<lparr>c_open := before @ after\<rparr>)"
| other: "store_step (c_db s) Quiet d' \<Longrightarrow>
    (\<And>i. i \<in> set (locked_ids s) \<Longrightarrow> task_by_id d' i = task_by_id (c_db s) i) \<Longrightarrow>
    clock (c_db s) \<le> clock d' \<Longrightarrow> conc_step s Quiet (s\<lparr>c_db := d'\<rparr>)"

inductive conc_run :: "conc \<Rightarrow> event list \<Rightarrow> conc \<Rightarrow> bool" where
  conc_none: "conc_run s [] s"
| conc_more: "conc_run s evs s' \<Longrightarrow> conc_step s' ev s'' \<Longrightarrow> conc_run s (evs @ [ev]) s''"

section \<open>What a lock protects\<close>

text \<open>
  No row is locked twice, and a locked row is in the table, pending, and was due when its
  claim began.
\<close>

definition conc_inv :: "conc \<Rightarrow> bool" where
  "conc_inv s \<longleftrightarrow> db_inv (c_db s) \<and> distinct (locked_ids s)
    \<and> (\<forall>tx \<in> set (c_open s). tx_now tx \<le> clock (c_db s)
        \<and> (\<forall>i \<in> set (tx_rows tx). \<exists>t. task_by_id (c_db s) i = Some t
            \<and> t_status t = StatusPending \<and> t_run_at t \<le> tx_now tx))"

lemma locked_ids_simps:
  "locked_ids (s\<lparr>c_open := tx # txs\<rparr>) = tx_rows tx @ concat (map tx_rows txs)"
  "locked_ids (s\<lparr>c_db := d\<rparr>) = locked_ids s"
  "c_open s = before @ tx # after \<Longrightarrow>
    locked_ids s = concat (map tx_rows before) @ tx_rows tx @ concat (map tx_rows after)"
  "locked_ids (s\<lparr>c_open := before @ after\<rparr>) = concat (map tx_rows before) @ concat (map tx_rows after)"
  by (simp_all add: locked_ids_def)

lemma claim_row_inv_at:
  "row_inv now t \<Longrightarrow> t_status t = StatusPending \<Longrightarrow> now' \<le> now \<Longrightarrow> row_inv now (claim_row w now' t)"
  by (auto simp: row_inv_def tasks_checks_iff tasks_not_null_def claim_row_def)

lemma begins_inv:
  assumes "conc_inv s"
  shows "conc_inv (s\<lparr>c_open := lock_rows s queue w limit # c_open s\<rparr>)"
proof -
  have inv: "db_inv (c_db s)" using assms by (simp add: conc_inv_def)
  let ?C = "claim_candidates (c_db s) (locked_ids s) queue limit"
  have cand: "t \<in> set (tasks (c_db s)) \<and> claimable (c_db s) queue t \<and> t_id t \<notin> set (locked_ids s)"
    if "t \<in> set ?C" for t
    using candidates_claimable [OF that] .
  have "distinct (map t_id ?C @ locked_ids s)"
    using distinct_candidates [OF inv] assms cand by (auto simp: conc_inv_def)
  moreover have "\<exists>t. task_by_id (c_db s) i = Some t \<and> t_status t = StatusPending
      \<and> t_run_at t \<le> clock (c_db s)" if "i \<in> t_id ` set ?C" for i
    using that cand by (force simp: claimable_def task_by_id_iff [OF inv])
  ultimately show ?thesis
    using assms by (auto simp: conc_inv_def lock_rows_def locked_ids_def)
qed

lemma commit_task_by_id:
  assumes "task_by_id d i = Some t"
  shows "task_by_id (commit_rows tx d) i = Some (if i \<in> set (tx_rows tx)
    then claim_row (tx_worker tx) (tx_now tx) t else t)"
  using assms task_by_id_SomeD [OF assms] by (simp add: commit_rows_def task_by_id_update row_laws)

lemma commits_inv:
  assumes "conc_inv s" and open_tx: "c_open s = before @ tx # after"
  shows "conc_inv (s\<lparr>c_db := commit_rows tx (c_db s), c_open := before @ after\<rparr>)"
proof -
  have inv: "db_inv (c_db s)" using assms(1) by (simp add: conc_inv_def)
  have locks: "distinct (locked_ids s)" using assms(1) by (simp add: conc_inv_def)
  have tx: "tx_now tx \<le> clock (c_db s)" "\<And>i. i \<in> set (tx_rows tx) \<Longrightarrow>
      \<exists>t. task_by_id (c_db s) i = Some t \<and> t_status t = StatusPending"
    using assms by (auto simp: conc_inv_def)
  have "db_inv (commit_rows tx (c_db s))"
    unfolding commit_rows_def
  proof (rule db_inv_update [OF inv row_laws(1)])
    fix t assume t: "t \<in> set (tasks (c_db s))" "t_id t \<in> set (tx_rows tx)" "row_inv (clock (c_db s)) t"
    then have "t_status t = StatusPending" using tx(2) [of "t_id t"] by (auto simp: task_by_id_iff [OF inv] dest: distinct_key_eq [OF db_inv_ids [OF inv]])
    then show "row_inv (clock (c_db s)) (claim_row (tx_worker tx) (tx_now tx) t)"
      using claim_row_inv_at t(3) tx(1) by blast
  qed
  moreover have "\<exists>t. task_by_id (commit_rows tx (c_db s)) i = Some t \<and> t_status t = StatusPending
      \<and> t_run_at t \<le> tx_now tx'" if "tx' \<in> set (before @ after)" "i \<in> set (tx_rows tx')" for tx' i
  proof -
    have "tx' \<in> set (c_open s)" using that(1) open_tx by auto
    then have "\<forall>i \<in> set (tx_rows tx'). \<exists>t. task_by_id (c_db s) i = Some t
        \<and> t_status t = StatusPending \<and> t_run_at t \<le> tx_now tx'"
      using assms(1) unfolding conc_inv_def by blast
    with that(2) obtain t where t: "task_by_id (c_db s) i = Some t" "t_status t = StatusPending"
      "t_run_at t \<le> tx_now tx'" by blast
    have "i \<notin> set (tx_rows tx)"
      using locks that by (auto simp: locked_ids_simps(3) [OF open_tx])
    then show ?thesis using commit_task_by_id [OF t(1), of tx] t by simp
  qed
  moreover have "clock (commit_rows tx (c_db s)) = clock (c_db s)" by (simp add: commit_rows_def)
  ultimately show ?thesis
    using assms locks unfolding conc_inv_def
    by (auto simp: locked_ids_simps(3) [OF open_tx] locked_ids_def)
qed

lemma conc_step_inv: "conc_step s ev s' \<Longrightarrow> conc_inv s \<Longrightarrow> conc_inv s'"
proof (induction rule: conc_step.induct)
  case (begins s queue w limit)
  then show ?case by (rule begins_inv)
next
  case (commits s before tx after)
  then show ?case by (simp add: commits_inv)
next
  case (aborts s before tx after)
  then show ?case
    by (auto simp: conc_inv_def locked_ids_simps(3) [OF aborts.hyps] locked_ids_def)
next
  case (other s d')
  have rows: "i \<in> set (locked_ids s)" if "tx \<in> set (c_open s)" "i \<in> set (tx_rows tx)" for tx i
    using that by (auto simp: locked_ids_def)
  have "db_inv d'" using store_step_inv [OF other.hyps(1)] other.prems by (simp add: conc_inv_def)
  then show ?case
    using other rows unfolding conc_inv_def locked_ids_simps(2) by simp (meson order_trans)
qed

section \<open>Who gets which attempt\<close>

lemma delivery_attempts:
  assumes inv: "db_inv d" and t: "task_by_id d i = Some t"
  shows "event_attempts i (Delivered w (delivery tx d)) =
    (if i \<in> set (tx_rows tx) then [t_attempts t + 1] else [])"
proof -
  let ?held = "\<lambda>u. t_id u \<in> set (tx_rows tx)"
  have one: "filter (\<lambda>u. t_id u = i) (tasks d) = [t]"
    using filter_key_singleton [OF db_inv_ids [OF inv], of i] t by (simp add: task_by_id_def)
  have "filter (\<lambda>u. t_id u = i \<and> ?held u) (tasks d) = filter ?held (filter (\<lambda>u. t_id u = i) (tasks d))"
    by (simp add: conj_commute)
  then have "filter (\<lambda>u. t_id u = i \<and> ?held u) (tasks d) = (if i \<in> set (tx_rows tx) then [t] else [])"
    unfolding one using task_by_id_SomeD [OF t] by simp
  then show ?thesis
    by (simp add: delivery_def filter_map comp_def conj_commute)
qed

lemma conc_step_row:
  assumes "conc_step s ev s'" and "conc_inv s" and "task_by_id (c_db s) i = Some t"
  shows "\<exists>t'. task_by_id (c_db s') i = Some t' \<and> t_max_attempts t' = t_max_attempts t
    \<and> t_attempts t \<le> t_attempts t' \<and> event_attempts i ev = [t_attempts t + 1 .. t_attempts t']"
  using assms
proof (induction rule: conc_step.induct)
  case (commits s before tx after)
  have inv: "db_inv (c_db s)" using commits.prems(1) by (simp add: conc_inv_def)
  show ?case
    using delivery_attempts [OF inv commits.prems(2), of "tx_worker tx" tx]
      commit_task_by_id [OF commits.prems(2), of tx]
    by (simp add: claim_row_def)
next
  case (other s d')
  have inv: "db_inv (c_db s)" using other.prems(1) by (simp add: conc_inv_def)
  obtain t' where "task_by_id d' i = Some t'" "row_step Quiet t t'"
    using store_step_row [OF other.hyps(1) inv other.prems(2)] by blast
  then show ?case by (simp add: row_step_def evolves_def)
qed simp_all

lemma conc_run_inv: "conc_run s evs s' \<Longrightarrow> conc_inv s \<Longrightarrow> conc_inv s'"
  by (induction rule: conc_run.induct) (auto intro: conc_step_inv)

lemma conc_run_row:
  assumes "conc_run s evs s'" and "conc_inv s" and "task_by_id (c_db s) i = Some t"
  shows "\<exists>t'. task_by_id (c_db s') i = Some t' \<and> t_max_attempts t' = t_max_attempts t
    \<and> t_attempts t \<le> t_attempts t' \<and> attempts_of i evs = [t_attempts t + 1 .. t_attempts t']"
  using assms
proof (induction rule: conc_run.induct)
  case (conc_more s evs s' ev s'')
  then obtain t' where t': "task_by_id (c_db s') i = Some t'" "t_max_attempts t' = t_max_attempts t"
    "t_attempts t \<le> t_attempts t'" "attempts_of i evs = [t_attempts t + 1 .. t_attempts t']" by blast
  have "conc_inv s'" using conc_more conc_run_inv by blast
  from conc_step_row [OF conc_more.hyps(2) this t'(1)] t' show ?case by (auto simp: upto_append)
qed simp

text \<open>
  C1. However any number of workers' claims overlap, no two open claims ever hold the same
  row, each row they hold is pending and due, and over the whole run the attempts a task is
  handed out with are its next attempt numbers, each exactly once and never beyond its
  maximum: no attempt of a task goes to two workers.
\<close>

theorem concurrent_claims_are_exclusive:
  assumes "reachable d" and "conc_run \<lparr>c_db = d, c_open = []\<rparr> evs s"
  shows "distinct (locked_ids s)
    \<and> (\<forall>tx \<in> set (c_open s). \<forall>i \<in> set (tx_rows tx). \<exists>t. task_by_id (c_db s) i = Some t
        \<and> t_status t = StatusPending \<and> t_run_at t \<le> tx_now tx)
    \<and> (\<forall>i t. task_by_id d i = Some t \<longrightarrow> (\<exists>t'. task_by_id (c_db s) i = Some t'
        \<and> attempts_of i evs = [t_attempts t + 1 .. t_attempts t']
        \<and> t_attempts t' \<le> t_max_attempts t))"
proof -
  have start: "conc_inv \<lparr>c_db = d, c_open = []\<rparr>"
    using reachable_inv [OF assms(1)] by (simp add: conc_inv_def locked_ids_def)
  have inv: "conc_inv s" by (rule conc_run_inv [OF assms(2) start])
  then have db: "db_inv (c_db s)" by (simp add: conc_inv_def)
  have "\<exists>t'. task_by_id (c_db s) i = Some t' \<and> attempts_of i evs = [t_attempts t + 1 .. t_attempts t']
      \<and> t_attempts t' \<le> t_max_attempts t" if "task_by_id d i = Some t" for i t
    using conc_run_row [OF assms(2) start, of i t] that row_inv_attempts(2) [OF task_by_id_row_inv [OF db]]
    by fastforce
  with inv show ?thesis by (auto simp: conc_inv_def)
qed

lemma concurrent_claims_are_exclusive_witness:
  "distinct (locked_ids \<lparr>c_db = sample_submitted,
    c_open = [lock_rows \<lparr>c_db = sample_submitted, c_open = []\<rparr> ''default'' ''w1'' 10]\<rparr>)"
proof -
  have "conc_run \<lparr>c_db = sample_submitted, c_open = []\<rparr> ([] @ [Quiet])
      (\<lparr>c_db = sample_submitted, c_open = []\<rparr>\<lparr>c_open :=
        [lock_rows \<lparr>c_db = sample_submitted, c_open = []\<rparr> ''default'' ''w1'' 10]\<rparr>)"
    by (rule conc_run.conc_more [OF conc_run.conc_none])
      (use conc_step.begins [of "\<lparr>c_db = sample_submitted, c_open = []\<rparr>" "''default''" "''w1''" 10] in simp)
  from concurrent_claims_are_exclusive [OF sample_reachable(1) this] show ?thesis by simp
qed

end
