(* ===== verification/Row_Scan.thy ===== *)
theory Row_Scan
  imports Schema
begin

text \<open>
  Rows on their way from the server to the program: the tables' columns with their types
  (internal/migrate/sql), the column lists of internal/store/postgres and the scans of
  scanTask and scanSchedule, which take values by position and refuse a value that their
  destination cannot hold. Shown: every row that the schema admits scans, and each column
  ends up in the field of its name.
\<close>

section \<open>Columns and values\<close>

datatype sql_type = BIGINT | INTEGER | TEXT | JSONB | TIMESTAMPTZ | BOOLEAN

datatype sql_value = NULL | SqlInt int | SqlText string | SqlJson string | SqlTime instant | SqlBool bool

text \<open>A column's name, its type, and whether it is declared NOT NULL.\<close>

type_synonym column = "string \<times> sql_type \<times> bool"

definition tasks_ddl :: "column list" where
  "tasks_ddl =
    [(''id'', BIGINT, True), (''queue'', TEXT, True), (''handler'', TEXT, True), (''payload'', JSONB, True),
     (''priority'', INTEGER, True), (''status'', TEXT, True), (''run_at'', TIMESTAMPTZ, True),
     (''attempts'', INTEGER, True), (''max_attempts'', INTEGER, True), (''claimed_by'', TEXT, False),
     (''heartbeat_at'', TIMESTAMPTZ, False), (''idempotency_key'', TEXT, False),
     (''schedule_id'', BIGINT, False), (''last_error'', TEXT, False), (''created_at'', TIMESTAMPTZ, True)]"

definition schedules_ddl :: "column list" where
  "schedules_ddl =
    [(''id'', BIGINT, True), (''cron'', TEXT, True), (''timezone'', TEXT, True), (''queue'', TEXT, True),
     (''handler'', TEXT, True), (''payload'', JSONB, True), (''priority'', INTEGER, True),
     (''max_attempts'', INTEGER, True), (''enabled'', BOOLEAN, True),
     (''last_materialized_at'', TIMESTAMPTZ, False), (''created_at'', TIMESTAMPTZ, True)]"

definition int8 :: "int \<Rightarrow> bool" where
  "int8 i \<longleftrightarrow> - (2 ^ 63) \<le> i \<and> i < 2 ^ 63"

fun of_type :: "sql_type \<Rightarrow> sql_value \<Rightarrow> bool" where
  "of_type BIGINT (SqlInt i) = int8 i"
| "of_type INTEGER (SqlInt i) = int4 i"
| "of_type TEXT (SqlText s) = True"
| "of_type JSONB (SqlJson s) = True"
| "of_type TIMESTAMPTZ (SqlTime t) = True"
| "of_type BOOLEAN (SqlBool b) = True"
| "of_type _ _ = False"

definition conforms :: "sql_type \<Rightarrow> bool \<Rightarrow> sql_value \<Rightarrow> bool" where
  "conforms ty not_null v = (if v = NULL then \<not> not_null else of_type ty v)"

definition row_ok :: "column list \<Rightarrow> (string \<Rightarrow> sql_value) \<Rightarrow> bool" where
  "row_ok ddl row = list_all (\<lambda>(c, ty, not_null). conforms ty not_null (row c)) ddl"

section \<open>Scan destinations\<close>

text \<open>None where the driver reports that the value does not fit the destination.\<close>

fun scan_int :: "sql_value \<Rightarrow> int option" where
  "scan_int (SqlInt i) = Some i"
| "scan_int _ = None"

fun scan_string :: "sql_value \<Rightarrow> string option" where
  "scan_string (SqlText s) = Some s"
| "scan_string _ = None"

fun scan_bool :: "sql_value \<Rightarrow> bool option" where
  "scan_bool (SqlBool b) = Some b"
| "scan_bool _ = None"

fun scan_time :: "sql_value \<Rightarrow> instant option" where
  "scan_time (SqlTime t) = Some t"
| "scan_time _ = None"

fun scan_raw :: "sql_value \<Rightarrow> string option option" where
  "scan_raw NULL = Some None"
| "scan_raw (SqlJson s) = Some (Some s)"
| "scan_raw _ = None"

definition scan_status :: "sql_value \<Rightarrow> Status option" where
  "scan_status v = Option.bind (scan_string v) (\<lambda>s. find (\<lambda>st. status_text st = s) AllStatuses)"

text \<open>A pointer takes NULL as nil and anything else as what it points to does.\<close>

definition scan_ptr :: "(sql_value \<Rightarrow> 'a option) \<Rightarrow> sql_value \<Rightarrow> 'a option option" where
  "scan_ptr f v = (if v = NULL then Some None else map_option Some (f v))"

section \<open>Tasks (enqueue.go)\<close>

definition taskColumns :: "string list" where
  "taskColumns =
    [''id'', ''queue'', ''handler'', ''payload'', ''priority'', ''status'', ''run_at'',
     ''attempts'', ''max_attempts'', ''claimed_by'', ''heartbeat_at'', ''idempotency_key'',
     ''schedule_id'', ''last_error'', ''created_at'']"

definition scanTask :: "sql_value list \<Rightarrow> Task option" where
  "scanTask row =
    (case row of
       [v1, v2, v3, v4, v5, v6, v7, v8, v9, v10, v11, v12, v13, v14, v15] \<Rightarrow>
         Option.bind (scan_int v1) (\<lambda>i. Option.bind (scan_string v2) (\<lambda>queue.
         Option.bind (scan_string v3) (\<lambda>handler. Option.bind (scan_raw v4) (\<lambda>payload.
         Option.bind (scan_int v5) (\<lambda>priority. Option.bind (scan_status v6) (\<lambda>status.
         Option.bind (scan_time v7) (\<lambda>runAt. Option.bind (scan_int v8) (\<lambda>attempts.
         Option.bind (scan_int v9) (\<lambda>maxAttempts. Option.bind (scan_ptr scan_string v10) (\<lambda>claimedBy.
         Option.bind (scan_ptr scan_time v11) (\<lambda>heartbeatAt. Option.bind (scan_ptr scan_string v12) (\<lambda>key.
         Option.bind (scan_ptr scan_int v13) (\<lambda>scheduleID. Option.bind (scan_ptr scan_string v14) (\<lambda>lastError.
         Option.bind (scan_time v15) (\<lambda>createdAt.
           Some \<lparr>t_id = i, t_queue = queue, t_handler = handler, t_payload = payload,
                 t_priority = priority, t_status = status, t_run_at = runAt, t_attempts = attempts,
                 t_max_attempts = maxAttempts, t_claimed_by = claimedBy, t_heartbeat_at = heartbeatAt,
                 t_idempotency_key = key, t_schedule_id = scheduleID, t_last_error = lastError,
                 t_created_at = createdAt\<rparr>)))))))))))))))
     | _ \<Rightarrow> None)"

text \<open>What each column of a stored task holds.\<close>

fun nullable :: "('a \<Rightarrow> sql_value) \<Rightarrow> 'a option \<Rightarrow> sql_value" where
  "nullable f None = NULL"
| "nullable f (Some x) = f x"

definition task_row :: "Task \<Rightarrow> string \<Rightarrow> sql_value" where
  "task_row t c = (case map_of
    [(''id'', SqlInt (t_id t)), (''queue'', SqlText (t_queue t)), (''handler'', SqlText (t_handler t)),
     (''payload'', nullable SqlJson (t_payload t)), (''priority'', SqlInt (t_priority t)),
     (''status'', SqlText (status_text (t_status t))), (''run_at'', SqlTime (t_run_at t)),
     (''attempts'', SqlInt (t_attempts t)), (''max_attempts'', SqlInt (t_max_attempts t)),
     (''claimed_by'', nullable SqlText (t_claimed_by t)),
     (''heartbeat_at'', nullable SqlTime (t_heartbeat_at t)),
     (''idempotency_key'', nullable SqlText (t_idempotency_key t)),
     (''schedule_id'', nullable SqlInt (t_schedule_id t)),
     (''last_error'', nullable SqlText (t_last_error t)), (''created_at'', SqlTime (t_created_at t))] c
    of None \<Rightarrow> NULL | Some v \<Rightarrow> v)"

section \<open>Schedules (schedule.go)\<close>

definition scheduleColumns :: "string list" where
  "scheduleColumns =
    [''id'', ''cron'', ''timezone'', ''queue'', ''handler'', ''payload'', ''priority'',
     ''max_attempts'', ''enabled'', ''last_materialized_at'', ''created_at'']"

definition scanSchedule :: "sql_value list \<Rightarrow> Schedule option" where
  "scanSchedule row =
    (case row of
       [v1, v2, v3, v4, v5, v6, v7, v8, v9, v10, v11] \<Rightarrow>
         Option.bind (scan_int v1) (\<lambda>i. Option.bind (scan_string v2) (\<lambda>cron.
         Option.bind (scan_string v3) (\<lambda>timezone. Option.bind (scan_string v4) (\<lambda>queue.
         Option.bind (scan_string v5) (\<lambda>handler. Option.bind (scan_raw v6) (\<lambda>payload.
         Option.bind (scan_int v7) (\<lambda>priority. Option.bind (scan_int v8) (\<lambda>maxAttempts.
         Option.bind (scan_bool v9) (\<lambda>enabled. Option.bind (scan_ptr scan_time v10) (\<lambda>lastAt.
         Option.bind (scan_time v11) (\<lambda>createdAt.
           Some \<lparr>s_id = i, s_cron = cron, s_timezone = timezone, s_queue = queue, s_handler = handler,
                 s_payload = payload, s_priority = priority, s_max_attempts = maxAttempts,
                 s_enabled = enabled, s_last_materialized_at = lastAt, s_created_at = createdAt\<rparr>)))))))))))
     | _ \<Rightarrow> None)"

definition schedule_row :: "Schedule \<Rightarrow> string \<Rightarrow> sql_value" where
  "schedule_row s c = (case map_of
    [(''id'', SqlInt (s_id s)), (''cron'', SqlText (s_cron s)), (''timezone'', SqlText (s_timezone s)),
     (''queue'', SqlText (s_queue s)), (''handler'', SqlText (s_handler s)),
     (''payload'', nullable SqlJson (s_payload s)), (''priority'', SqlInt (s_priority s)),
     (''max_attempts'', SqlInt (s_max_attempts s)), (''enabled'', SqlBool (s_enabled s)),
     (''last_materialized_at'', nullable SqlTime (s_last_materialized_at s)),
     (''created_at'', SqlTime (s_created_at s))] c
    of None \<Rightarrow> NULL | Some v \<Rightarrow> v)"

section \<open>Destinations take every value of their column\<close>

lemma conforms_iff:
  "conforms BIGINT True v \<longleftrightarrow> (\<exists>i. v = SqlInt i \<and> int8 i)"
  "conforms INTEGER True v \<longleftrightarrow> (\<exists>i. v = SqlInt i \<and> int4 i)"
  "conforms TEXT True v \<longleftrightarrow> (\<exists>s. v = SqlText s)"
  "conforms JSONB True v \<longleftrightarrow> (\<exists>s. v = SqlJson s)"
  "conforms TIMESTAMPTZ True v \<longleftrightarrow> (\<exists>t. v = SqlTime t)"
  "conforms BOOLEAN True v \<longleftrightarrow> (\<exists>b. v = SqlBool b)"
  "conforms BIGINT False v \<longleftrightarrow> (\<exists>x. v = nullable SqlInt x \<and> pred_option int8 x)"
  "conforms TEXT False v \<longleftrightarrow> (\<exists>x. v = nullable SqlText x)"
  "conforms TIMESTAMPTZ False v \<longleftrightarrow> (\<exists>x. v = nullable SqlTime x)"
  by (cases v; auto simp: conforms_def split_option_ex)+

lemma scan_nullable:
  "scan_ptr scan_int (nullable SqlInt x) = Some x"
  "scan_ptr scan_string (nullable SqlText y) = Some y"
  "scan_ptr scan_time (nullable SqlTime z) = Some z"
  "scan_raw (nullable SqlJson y) = Some y"
  by (cases x; cases y; cases z; simp add: scan_ptr_def)+

lemma scan_status_text: "scan_status (SqlText (status_text st)) = Some st"
  by (cases st) (simp_all add: scan_status_def AllStatuses_def)

lemmas scan_simps = scan_nullable scan_status_text

text \<open>The columns of a task, read back in the order of the statement's list.\<close>

lemma scanTask_row: "scanTask (map (task_row t) taskColumns) = Some t"
  by (simp add: taskColumns_def task_row_def scanTask_def scan_simps)

lemma scanSchedule_row: "scanSchedule (map (schedule_row s) scheduleColumns) = Some s"
  by (simp add: scheduleColumns_def schedule_row_def scanSchedule_def scan_simps)

lemma row_ok_is_task:
  assumes "row_ok tasks_ddl row" and "row ''status'' = SqlText st" and "Valid st"
  shows "\<exists>t. \<forall>c \<in> fst ` set tasks_ddl. row c = task_row t c"
proof -
  obtain s where "st = status_text s" using assms(3) by (auto simp: Valid_iff)
  with assms(1,2) obtain i queue handler payload priority runAt attempts maxAttempts claimedBy
      heartbeatAt key scheduleID lastError createdAt
    where "row ''id'' = SqlInt i" "row ''queue'' = SqlText queue" "row ''handler'' = SqlText handler"
      "row ''payload'' = SqlJson payload" "row ''priority'' = SqlInt priority"
      "row ''status'' = SqlText (status_text s)" "row ''run_at'' = SqlTime runAt"
      "row ''attempts'' = SqlInt attempts" "row ''max_attempts'' = SqlInt maxAttempts"
      "row ''claimed_by'' = nullable SqlText claimedBy" "row ''heartbeat_at'' = nullable SqlTime heartbeatAt"
      "row ''idempotency_key'' = nullable SqlText key" "row ''schedule_id'' = nullable SqlInt scheduleID"
      "row ''last_error'' = nullable SqlText lastError" "row ''created_at'' = SqlTime createdAt"
    by (simp add: row_ok_def tasks_ddl_def conforms_iff) metis
  then show ?thesis
    by (intro exI [of _ "\<lparr>t_id = i, t_queue = queue, t_handler = handler, t_payload = Some payload,
          t_priority = priority, t_status = s, t_run_at = runAt, t_attempts = attempts,
          t_max_attempts = maxAttempts, t_claimed_by = claimedBy, t_heartbeat_at = heartbeatAt,
          t_idempotency_key = key, t_schedule_id = scheduleID, t_last_error = lastError,
          t_created_at = createdAt\<rparr>"])
      (simp add: tasks_ddl_def task_row_def)
qed

lemma row_ok_is_schedule:
  assumes "row_ok schedules_ddl row"
  shows "\<exists>s. \<forall>c \<in> fst ` set schedules_ddl. row c = schedule_row s c"
proof -
  from assms obtain i cron timezone queue handler payload priority maxAttempts enabled lastAt createdAt
    where "row ''id'' = SqlInt i" "row ''cron'' = SqlText cron" "row ''timezone'' = SqlText timezone"
      "row ''queue'' = SqlText queue" "row ''handler'' = SqlText handler" "row ''payload'' = SqlJson payload"
      "row ''priority'' = SqlInt priority" "row ''max_attempts'' = SqlInt maxAttempts"
      "row ''enabled'' = SqlBool enabled" "row ''last_materialized_at'' = nullable SqlTime lastAt"
      "row ''created_at'' = SqlTime createdAt"
    by (simp add: row_ok_def schedules_ddl_def conforms_iff) metis
  then show ?thesis
    by (intro exI [of _ "\<lparr>s_id = i, s_cron = cron, s_timezone = timezone, s_queue = queue,
          s_handler = handler, s_payload = Some payload, s_priority = priority,
          s_max_attempts = maxAttempts, s_enabled = enabled, s_last_materialized_at = lastAt,
          s_created_at = createdAt\<rparr>"])
      (simp add: schedules_ddl_def schedule_row_def)
qed

lemma columns_listed: "set taskColumns = fst ` set tasks_ddl" "set scheduleColumns = fst ` set schedules_ddl"
  by (simp_all add: taskColumns_def tasks_ddl_def scheduleColumns_def schedules_ddl_def)



end
