(* ===== verification/Go_Text.thy ===== *)
theory Go_Text
  imports Go_Strings
begin

text \<open>
  The text functions of Go's strings package that the program calls: TrimSpace, Fields,
  HasPrefix and Join, on the bytes of a string, with the space characters of
  unicode.IsSpace in their UTF-8 encodings.
\<close>

section \<open>Space\<close>

definition ascii_space :: "char \<Rightarrow> bool" where
  "ascii_space c \<longleftrightarrow> (of_char c :: nat) \<in> {9, 10, 11, 12, 13, 32}"

text \<open>U+0085, U+00A0, U+1680, U+2000 to U+200A, U+2028, U+2029, U+202F, U+205F, U+3000.\<close>

definition wide_spaces :: "string list" where
  "wide_spaces =
    [[CHR 0xC2, CHR 0x85], [CHR 0xC2, CHR 0xA0], [CHR 0xE1, CHR 0x9A, CHR 0x80],
     [CHR 0xE2, CHR 0x80, CHR 0x80], [CHR 0xE2, CHR 0x80, CHR 0x81], [CHR 0xE2, CHR 0x80, CHR 0x82],
     [CHR 0xE2, CHR 0x80, CHR 0x83], [CHR 0xE2, CHR 0x80, CHR 0x84], [CHR 0xE2, CHR 0x80, CHR 0x85],
     [CHR 0xE2, CHR 0x80, CHR 0x86], [CHR 0xE2, CHR 0x80, CHR 0x87], [CHR 0xE2, CHR 0x80, CHR 0x88],
     [CHR 0xE2, CHR 0x80, CHR 0x89], [CHR 0xE2, CHR 0x80, CHR 0x8A], [CHR 0xE2, CHR 0x80, CHR 0xA8],
     [CHR 0xE2, CHR 0x80, CHR 0xA9], [CHR 0xE2, CHR 0x80, CHR 0xAF], [CHR 0xE2, CHR 0x81, CHR 0x9F],
     [CHR 0xE3, CHR 0x80, CHR 0x80]]"

definition prefix_of :: "string \<Rightarrow> string \<Rightarrow> bool" where
  "prefix_of p s \<longleftrightarrow> take (length p) s = p"

text \<open>
  The bytes of the space that a string starts with, none when it starts with another
  character. No byte of a space but its first is the first byte of one, so reading a
  string byte by byte finds the same spaces as reading it rune by rune.
\<close>

definition space_bytes :: "string \<Rightarrow> nat" where
  "space_bytes s =
    (case s of [] \<Rightarrow> 0
     | c # _ \<Rightarrow>
         if (of_char c :: nat) < 128 then (if ascii_space c then 1 else 0)
         else (case find (\<lambda>w. prefix_of w s) wide_spaces of None \<Rightarrow> 0 | Some w \<Rightarrow> length w))"

definition space_bytes_end :: "string \<Rightarrow> nat" where
  "space_bytes_end s =
    (case rev s of [] \<Rightarrow> 0
     | c # _ \<Rightarrow>
         if (of_char c :: nat) < 128 then (if ascii_space c then 1 else 0)
         else (case find (\<lambda>w. prefix_of (rev w) (rev s)) wide_spaces of
                 None \<Rightarrow> 0 | Some w \<Rightarrow> length w))"

section \<open>TrimSpace, Fields, HasPrefix and Join\<close>

function TrimLeftSpace :: "string \<Rightarrow> string" where
  "TrimLeftSpace s =
    (if s = [] \<or> space_bytes s = 0 then s else TrimLeftSpace (drop (space_bytes s) s))"
  by auto
termination by (relation "measure length") auto

function TrimRightSpace :: "string \<Rightarrow> string" where
  "TrimRightSpace s =
    (if s = [] \<or> space_bytes_end s = 0 then s
     else TrimRightSpace (take (length s - space_bytes_end s) s))"
  by auto
termination by (relation "measure length") auto

declare TrimLeftSpace.simps [simp del] TrimRightSpace.simps [simp del]

definition TrimSpace :: "string \<Rightarrow> string" where
  "TrimSpace s = TrimRightSpace (TrimLeftSpace s)"

function fields_from :: "string \<Rightarrow> string \<Rightarrow> string list" where
  "fields_from cur [] = (if cur = [] then [] else [rev cur])"
| "fields_from cur (c # cs) =
    (if space_bytes (c # cs) = 0 then fields_from (c # cur) cs
     else (if cur = [] then [] else [rev cur]) @ fields_from [] (drop (space_bytes (c # cs) - 1) cs))"
  by pat_completeness auto
termination by (relation "measure (length \<circ> snd)") auto

definition Fields :: "string \<Rightarrow> string list" where
  "Fields s = fields_from [] s"

definition HasPrefix :: "string \<Rightarrow> string \<Rightarrow> bool" where
  "HasPrefix s p \<longleftrightarrow> prefix_of p s"

fun Join :: "string list \<Rightarrow> string \<Rightarrow> string" where
  "Join [] sep = []"
| "Join [s] sep = s"
| "Join (s # t # ss) sep = s @ sep @ Join (t # ss) sep"

lemma Fields_example: "Fields '' 0 12  * * 1-5 '' = [''0'', ''12'', ''*'', ''*'', ''1-5'']"
  by code_simp

lemma TrimSpace_example: "TrimSpace (CHR 0x09 # '' @daily '') = ''@daily''"
  by code_simp

lemma fields_nonempty: "f \<in> set (fields_from cur s) \<Longrightarrow> f \<noteq> []"
  by (induction cur s rule: fields_from.induct) (auto split: if_splits)

lemma Fields_nonempty: "f \<in> set (Fields s) \<Longrightarrow> f \<noteq> []"
  unfolding Fields_def by (rule fields_nonempty)

section \<open>Quoting\<close>

text \<open>
  strconv.Quote, as %q prints a string: quotes, backslashes and control characters are
  escaped; other bytes stand for themselves, as Go keeps printable characters.
\<close>

definition hex_digit :: "nat \<Rightarrow> char" where
  "hex_digit n = (if n < 10 then char_of (48 + n) else char_of (87 + n))"

definition quote_char :: "char \<Rightarrow> string" where
  "quote_char c =
    (let n = of_char c :: nat
     in if n = 34 \<or> n = 92 then [CHR 0x5C, c]
        else if n = 7 then [CHR 0x5C, CHR ''a'']
        else if n = 8 then [CHR 0x5C, CHR ''b'']
        else if n = 9 then [CHR 0x5C, CHR ''t'']
        else if n = 10 then [CHR 0x5C, CHR ''n'']
        else if n = 11 then [CHR 0x5C, CHR ''v'']
        else if n = 12 then [CHR 0x5C, CHR ''f'']
        else if n = 13 then [CHR 0x5C, CHR ''r'']
        else if n < 32 \<or> n = 127 then [CHR 0x5C, CHR ''x'', hex_digit (n div 16), hex_digit (n mod 16)]
        else [c])"

definition quote :: "string \<Rightarrow> string" where
  "quote s = [CHR 0x22] @ concat (map quote_char s) @ [CHR 0x22]"

end
