(* ===== verification/Cron.thy ===== *)
theory Cron
  imports Domain Go_Text
begin

text \<open>
  internal/cron: parsing a cron expression with the error that names the offending field,
  and the loop that lists the next fire times of a schedule in a time zone. The two
  parsers and the Next of a parsed expression are robfig/cron's: they are arguments here,
  and so is the host's zone database.
\<close>

section \<open>Parse (cron.go)\<close>

text \<open>A parser's answer is its error text or the parsed expression.\<close>

type_synonym 'spec parser = "string \<Rightarrow> string + 'spec"

record 'spec cron_schedule =
  spec :: 'spec
  expr :: string

text \<open>The errors of Parse; all of them wrap domain.ErrInvalidCron.\<close>

datatype cron_error =
    BadDescriptor string string
  | WrongFieldCount string nat
  | BadField string string string
  | BadCombination string string

definition fieldNames :: "string list" where
  "fieldNames = [''minute'', ''hour'', ''day-of-month'', ''month'', ''day-of-week'']"

definition trial_expr :: "nat \<Rightarrow> string \<Rightarrow> string" where
  "trial_expr i field = Join ((replicate 5 ''*'')[i := field]) '' ''"

fun locate_from :: "'spec parser \<Rightarrow> nat \<Rightarrow> string list \<Rightarrow> string list \<Rightarrow> (string \<times> string) option" where
  "locate_from parser i (name # names) (field # flds) =
    (case parser (trial_expr i field) of
       Inl err \<Rightarrow> Some (name, err)
     | Inr _ \<Rightarrow> locate_from parser (i + 1) names flds)"
| "locate_from parser i _ _ = None"

definition locateBadField :: "'spec parser \<Rightarrow> string list \<Rightarrow> (string \<times> string) option" where
  "locateBadField parser flds = locate_from parser 0 fieldNames flds"

definition Parse :: "'spec parser \<Rightarrow> 'spec parser \<Rightarrow> string \<Rightarrow> cron_error + 'spec cron_schedule" where
  "Parse parser descriptorParser ex =
    (let trimmed = TrimSpace ex
     in if HasPrefix trimmed ''@''
        then (case descriptorParser trimmed of
                Inl err \<Rightarrow> Inl (BadDescriptor ex err)
              | Inr sp \<Rightarrow> Inr \<lparr>spec = sp, expr = ex\<rparr>)
        else
          let flds = Fields trimmed
          in if length flds \<noteq> 5 then Inl (WrongFieldCount ex (length flds))
             else (case parser trimmed of
                     Inl err \<Rightarrow>
                       (case locateBadField parser flds of
                          Some (field, fieldErr) \<Rightarrow> Inl (BadField ex field fieldErr)
                        | None \<Rightarrow> Inl (BadCombination ex err))
                   | Inr sp \<Rightarrow> Inr \<lparr>spec = sp, expr = ex\<rparr>))"

section \<open>NextN (nextn.go)\<close>

text \<open>
  Next gives the fire time after an instant in a zone, and the zero time when there is
  none. The loop goes on past a candidate it does not report, so nothing in the code
  bounds it: the model is partial, None for a loop that never ends.
\<close>

type_synonym 'spec next_fire = "'spec \<Rightarrow> location \<Rightarrow> instant \<Rightarrow> instant"

definition wall_clock :: "location \<Rightarrow> instant \<Rightarrow> string" where
  "wall_clock loc t = Format_wall (In t loc)"

definition roundTrips :: "instant \<Rightarrow> location \<Rightarrow> bool" where
  "roundTrips t loc \<longleftrightarrow> Date (reading_of (In t loc)) loc = t"

partial_function (option) nextn_loop ::
    "'spec next_fire \<Rightarrow> 'spec \<Rightarrow> location \<Rightarrow> nat \<Rightarrow> instant \<Rightarrow> string \<Rightarrow> instant list
      \<Rightarrow> instant list option" where
  "nextn_loop Next sp loc n t lastWallClock out =
    (if length out < n
     then let t' = Next sp loc t
          in if IsZero t' then Some out
             else if \<not> roundTrips t' loc then nextn_loop Next sp loc n t' lastWallClock out
             else if wall_clock loc t' = lastWallClock
             then nextn_loop Next sp loc n t' lastWallClock out
             else nextn_loop Next sp loc n t' (wall_clock loc t') (out @ [t'])
     else Some out)"

declare nextn_loop.simps [code]

definition Schedule_NextN ::
    "'spec next_fire \<Rightarrow> 'spec cron_schedule \<Rightarrow> location \<Rightarrow> instant \<Rightarrow> int \<Rightarrow> instant list option" where
  "Schedule_NextN Next s loc after n =
    (if n \<le> 0 then Some []
     else nextn_loop Next (spec s) loc (nat n) after (wall_clock loc after) [])"

datatype nextn_error = NextNCron cron_error | NextNTimezone string

definition NextN :: "'spec parser \<Rightarrow> 'spec parser \<Rightarrow> 'spec next_fire \<Rightarrow> (string \<Rightarrow> location option) \<Rightarrow>
    string \<Rightarrow> string \<Rightarrow> instant \<Rightarrow> int \<Rightarrow> (nextn_error + instant list) option" where
  "NextN parser descriptorParser Next LoadLocation ex tz after n =
    (case Parse parser descriptorParser ex of
       Inl err \<Rightarrow> Some (Inl (NextNCron err))
     | Inr sched \<Rightarrow>
         (case LoadLocation tz of
            None \<Rightarrow> Some (Inl (NextNTimezone tz))
          | Some loc \<Rightarrow> map_option Inr (Schedule_NextN Next sched loc after n)))"

text \<open>What the callers of the package take from outside: the expression library and the zone database.\<close>

record 'spec cron_env =
  env_parser :: "'spec parser"
  env_descriptorParser :: "'spec parser"
  env_next :: "'spec next_fire"
  env_zones :: "string \<Rightarrow> location option"

text \<open>The errors as Error() prints them.\<close>

fun cron_error_text :: "cron_error \<Rightarrow> string" where
  "cron_error_text (BadDescriptor ex err) = ''invalid cron expression: '' @ quote ex @ '': '' @ err"
| "cron_error_text (WrongFieldCount ex n) =
    ''invalid cron expression: '' @ quote ex @ '': expected 5 fields ('' @ Join fieldNames '' ''
    @ ''), got '' @ show_nat n"
| "cron_error_text (BadField ex field err) =
    ''invalid cron expression: '' @ quote ex @ '': invalid '' @ field @ '' field: '' @ err"
| "cron_error_text (BadCombination ex err) = ''invalid cron expression: '' @ quote ex @ '': '' @ err"

end
