(* ===== verification/Cron_Facts.thy ===== *)
theory Cron_Facts
  imports Cron
begin

text \<open>
  What NextN promises: its loop ends, it reports fire times in order and none twice, it
  leaves out only what its two tests reject, and resuming from the last fire time goes on
  exactly where it stopped. The expression library is asked for two documented facts only:
  the next fire time is later than the instant asked about, and on a whole second.
\<close>

section \<open>Parse\<close>

lemma locate_from_Some:
  "locate_from parser i names flds = Some (name, err) \<Longrightarrow>
    \<exists>j < length names. j < length flds \<and> name = names ! j
      \<and> parser (trial_expr (i + j) (flds ! j)) = Inl err
      \<and> (\<forall>k < j. \<exists>sp. parser (trial_expr (i + k) (flds ! k)) = Inr sp)"
proof (induction parser i names flds rule: locate_from.induct)
  case (1 parser i n names f flds)
  show ?case
  proof (cases "parser (trial_expr i f)")
    case (Inl e)
    then show ?thesis using 1(2) by (intro exI [of _ 0]) simp
  next
    case (Inr sp)
    with 1 obtain j where j: "j < length names" "j < length flds" "name = names ! j"
      "parser (trial_expr (i + 1 + j) (flds ! j)) = Inl err"
      "\<forall>k < j. \<exists>sp. parser (trial_expr (i + 1 + k) (flds ! k)) = Inr sp" by auto
    have "\<exists>sp. parser (trial_expr (i + k) ((f # flds) ! k)) = Inr sp" if "k < Suc j" for k
      using that Inr j(5) by (cases k) auto
    with j show ?thesis by (intro exI [of _ "Suc j"]) simp
  qed
qed simp_all

lemma locate_from_None:
  "locate_from parser i names flds = None \<Longrightarrow> k < length names \<Longrightarrow> k < length flds \<Longrightarrow>
    \<exists>sp. parser (trial_expr (i + k) (flds ! k)) = Inr sp"
proof (induction parser i names flds arbitrary: k rule: locate_from.induct)
  case (1 parser i n names f flds)
  then obtain sp where sp: "parser (trial_expr i f) = Inr sp" by (auto split: sum.splits)
  show ?case
  proof (cases k)
    case (Suc j)
    then show ?thesis using 1 sp by auto
  qed (use sp in simp)
qed simp_all

lemma locateBadField_None:
  assumes "locateBadField parser flds = None" and "k < 5" and "length flds = 5"
  shows "\<exists>sp. parser (trial_expr k (flds ! k)) = Inr sp"
  using locate_from_None [OF assms(1) [unfolded locateBadField_def], of k] assms
  by (simp add: fieldNames_def)

lemma locateBadField_Some:
  assumes "locateBadField parser flds = Some (name, err)"
  shows "\<exists>i < 5. name = fieldNames ! i \<and> parser (trial_expr i (flds ! i)) = Inl err
    \<and> (\<forall>k < i. \<exists>sp. parser (trial_expr k (flds ! k)) = Inr sp)"
proof -
  have "length fieldNames = 5" by (simp add: fieldNames_def)
  then show ?thesis using locate_from_Some [OF assms [unfolded locateBadField_def]] by auto
qed

text \<open>
  C22. Parse accepts a descriptor (leading at-sign) as its parser does and otherwise only five
  fields that the field parser takes together. Every rejection says why: the descriptor's
  error, the number of fields, or the first field that fails on its own while every field
  before it parses; only when each field parses alone does it blame their combination.
\<close>

theorem parse_names_the_bad_field:
  assumes "trimmed = TrimSpace ex" and "flds = Fields trimmed"
  shows "case Parse parser descriptorParser ex of
      Inr s \<Rightarrow> expr s = ex \<and>
        (if HasPrefix trimmed ''@'' then descriptorParser trimmed = Inr (spec s)
         else length flds = 5 \<and> parser trimmed = Inr (spec s))
    | Inl (BadDescriptor ex' err) \<Rightarrow> ex' = ex \<and> HasPrefix trimmed ''@'' \<and> descriptorParser trimmed = Inl err
    | Inl (WrongFieldCount ex' n) \<Rightarrow> ex' = ex \<and> \<not> HasPrefix trimmed ''@'' \<and> n = length flds \<and> n \<noteq> 5
    | Inl (BadField ex' name err) \<Rightarrow> ex' = ex \<and> \<not> HasPrefix trimmed ''@'' \<and> length flds = 5
        \<and> (\<exists>i < 5. name = fieldNames ! i \<and> parser (trial_expr i (flds ! i)) = Inl err
            \<and> (\<forall>k < i. \<exists>sp. parser (trial_expr k (flds ! k)) = Inr sp))
    | Inl (BadCombination ex' err) \<Rightarrow> ex' = ex \<and> \<not> HasPrefix trimmed ''@'' \<and> length flds = 5
        \<and> parser trimmed = Inl err \<and> (\<forall>k < 5. \<exists>sp. parser (trial_expr k (flds ! k)) = Inr sp)"
proof -
  consider (descriptor) "HasPrefix trimmed ''@''" | (count) "\<not> HasPrefix trimmed ''@''" "length flds \<noteq> 5"
    | (five) "\<not> HasPrefix trimmed ''@''" "length flds = 5" by blast
  then show ?thesis
  proof cases
    case descriptor
    then show ?thesis
      by (cases "descriptorParser trimmed") (simp_all add: Parse_def assms Let_def)
  next
    case count
    then show ?thesis by (simp add: Parse_def assms Let_def)
  next
    case five
    show ?thesis
    proof (cases "parser trimmed")
      case (Inl err)
      with five show ?thesis
        using locateBadField_None [of parser flds] locateBadField_Some [of parser flds]
        by (cases "locateBadField parser flds") (auto simp: Parse_def assms Let_def)
    qed (use five in \<open>simp add: Parse_def assms Let_def\<close>)
  qed
qed

lemma parse_names_the_bad_field_witness:
  "let parser = (\<lambda>s. if s \<in> {''* * * * *'', ''0 * * * *''} then Inr () else Inl ''bad'')
   in Parse parser parser ''0 99 * * *'' = Inl (BadField ''0 99 * * *'' ''hour'' ''bad'')
     \<and> (\<exists>i < 5. ''hour'' = fieldNames ! i)"
proof -
  let ?p = "\<lambda>s. if s \<in> {''* * * * *'', ''0 * * * *''} then Inr () else Inl ''bad''"
  have bad: "Parse ?p ?p ''0 99 * * *'' = Inl (BadField ''0 99 * * *'' ''hour'' ''bad'')"
    by code_simp
  from parse_names_the_bad_field [OF refl refl, of "''0 99 * * *''" ?p ?p] show ?thesis
    unfolding bad Let_def by auto
qed

section \<open>The loop as a relation\<close>

definition next_ok :: "'spec next_fire \<Rightarrow> 'spec \<Rightarrow> location \<Rightarrow> bool" where
  "next_ok Next sp loc \<longleftrightarrow>
    (\<forall>t. \<not> IsZero (Next sp loc t) \<longrightarrow> t < Next sp loc t \<and> second dvd Next sp loc t)"

text \<open>
  fires n t last fs: from t, with last the text of the latest fire time, fs are the next
  fire times, n of them or all there are.
\<close>

inductive fires :: "'spec next_fire \<Rightarrow> 'spec \<Rightarrow> location \<Rightarrow> nat \<Rightarrow> instant \<Rightarrow> string \<Rightarrow> instant list \<Rightarrow> bool"
  for Next :: "'spec next_fire" and sp :: 'spec and loc :: location where
  enough: "fires Next sp loc 0 t lw []"
| exhausted: "IsZero (Next sp loc t) \<Longrightarrow> fires Next sp loc n t lw []"
| dropped: "t' = Next sp loc t \<Longrightarrow> \<not> IsZero t' \<Longrightarrow> \<not> roundTrips t' loc \<or> wall_clock loc t' = lw \<Longrightarrow>
    fires Next sp loc (Suc n) t' lw fs \<Longrightarrow> fires Next sp loc (Suc n) t lw fs"
| reported: "t' = Next sp loc t \<Longrightarrow> \<not> IsZero t' \<Longrightarrow> roundTrips t' loc \<Longrightarrow> wall_clock loc t' \<noteq> lw \<Longrightarrow>
    fires Next sp loc n t' (wall_clock loc t') fs \<Longrightarrow> fires Next sp loc (Suc n) t lw (t' # fs)"

lemma fires_loop:
  "fires Next sp loc n t lw fs \<Longrightarrow>
    nextn_loop Next sp loc (length out + n) t lw out = Some (out @ fs)"
proof (induction arbitrary: out rule: fires.induct)
  case (enough t lw)
  then show ?case by (subst nextn_loop.simps) simp
next
  case (exhausted t n lw)
  then show ?case by (subst nextn_loop.simps) (simp add: Let_def)
next
  case (dropped t' t lw n fs)
  then show ?case by (subst nextn_loop.simps) (auto simp: Let_def)
next
  case (reported t' t lw n fs)
  from reported.IH [of "out @ [t']"] reported.hyps show ?case
    by (subst nextn_loop.simps) (simp add: Let_def)
qed

lemma fires_NextN:
  assumes "fires Next (spec s) loc (nat n) after (wall_clock loc after) fs"
  shows "Schedule_NextN Next s loc after n = Some fs"
proof (cases "n \<le> 0")
  case True
  have "nextn_loop Next (spec s) loc 0 after (wall_clock loc after) [] = Some []"
    by (subst nextn_loop.simps) simp
  then show ?thesis using True assms fires_loop [OF assms, of "[]"] by (simp add: Schedule_NextN_def)
next
  case False
  then show ?thesis using fires_loop [OF assms, of "[]"] by (simp add: Schedule_NextN_def)
qed

lemma fires_length: "fires Next sp loc n t lw fs \<Longrightarrow> length fs \<le> n"
  by (induction rule: fires.induct) auto

lemma fires_sorted:
  "fires Next sp loc n t lw fs \<Longrightarrow> next_ok Next sp loc \<Longrightarrow> sorted_wrt (<) (t # fs)"
proof (induction rule: fires.induct)
  case (dropped t' t lw n fs)
  then have "t < t'" by (simp add: next_ok_def)
  with dropped show ?case by fastforce
next
  case (reported t' t lw n fs)
  then have "t < t'" by (simp add: next_ok_def)
  with reported show ?case by fastforce
qed simp_all

lemma fires_roundTrips: "fires Next sp loc n t lw fs \<Longrightarrow> f \<in> set fs \<Longrightarrow> roundTrips f loc"
  by (induction rule: fires.induct) auto

lemma fires_new_wall_clock:
  "fires Next sp loc n t lw fs \<Longrightarrow> fs \<noteq> [] \<Longrightarrow> wall_clock loc (hd fs) \<noteq> lw"
  by (induction rule: fires.induct) auto

text \<open>A schedule resumed from its last fire time goes on where it stopped.\<close>

lemma fires_append:
  "fires Next sp loc n t lw fs \<Longrightarrow> length fs = n \<Longrightarrow> fs \<noteq> [] \<Longrightarrow>
    fires Next sp loc m (last fs) (wall_clock loc (last fs)) gs \<Longrightarrow>
    fires Next sp loc (n + m) t lw (fs @ gs)"
proof (induction rule: fires.induct)
  case (dropped t' t lw n fs)
  then show ?case using fires.dropped [of t' Next sp loc t lw "n + m" "fs @ gs"] by simp
next
  case (reported t' t lw n fs)
  then have "fires Next sp loc (n + m) t' (wall_clock loc t') (fs @ gs)"
    by (cases "fs = []") (auto elim: fires.cases)
  with reported.hyps show ?case
    using fires.reported [of t' Next sp loc t lw "n + m" "fs @ gs"] by simp
qed simp_all

section \<open>What may be left out\<close>

text \<open>The candidates after t: what the library steps through.\<close>

inductive follows :: "'spec next_fire \<Rightarrow> 'spec \<Rightarrow> location \<Rightarrow> instant \<Rightarrow> instant \<Rightarrow> bool"
  for Next :: "'spec next_fire" and sp :: 'spec and loc :: location where
  first: "\<not> IsZero (Next sp loc t) \<Longrightarrow> follows Next sp loc t (Next sp loc t)"
| later: "\<not> IsZero (Next sp loc t) \<Longrightarrow> follows Next sp loc (Next sp loc t) c \<Longrightarrow> follows Next sp loc t c"

lemma follows_later: "follows Next sp loc t c \<Longrightarrow> next_ok Next sp loc \<Longrightarrow> t < c"
proof (induction rule: follows.induct)
  case (first t)
  then show ?case by (simp add: next_ok_def)
next
  case (later t c)
  then have "t < Next sp loc t" by (simp add: next_ok_def)
  with later show ?case by simp
qed

lemma fires_follow: "fires Next sp loc n t lw fs \<Longrightarrow> f \<in> set fs \<Longrightarrow> follows Next sp loc t f"
  by (induction rule: fires.induct) (auto intro: follows.intros)

lemma fires_complete:
  "fires Next sp loc n t lw fs \<Longrightarrow> next_ok Next sp loc \<Longrightarrow> follows Next sp loc t c \<Longrightarrow>
    length fs < n \<or> fs \<noteq> [] \<and> c \<le> last fs \<Longrightarrow>
    c \<in> set fs \<or> \<not> roundTrips c loc \<or> wall_clock loc c = lw
    \<or> (\<exists>g \<in> set fs. g < c \<and> wall_clock loc g = wall_clock loc c)"
proof (induction rule: fires.induct)
  case (enough t lw)
  then show ?case by simp
next
  case (exhausted t n lw)
  then show ?case by (auto elim: follows.cases)
next
  case (dropped t' t lw n fs)
  from dropped.prems(2) consider "c = t'" | "follows Next sp loc t' c"
    using dropped.hyps(1) by (cases rule: follows.cases) auto
  then show ?case using dropped by cases auto
next
  case (reported t' t lw n fs)
  from reported.prems(2) consider "c = t'" | (rest) "follows Next sp loc t' c"
    using reported.hyps(1) by (cases rule: follows.cases) auto
  then show ?case
  proof cases
    case rest
    note less = follows_later [OF rest reported.prems(1)]
    have "length fs < n \<or> fs \<noteq> [] \<and> c \<le> last fs"
      using reported.prems(3) less by (cases "fs = []") auto
    then show ?thesis using reported.IH [OF reported.prems(1) rest] less by auto
  qed simp
qed

section \<open>The loop ends\<close>

fun final_offset :: "int \<Rightarrow> (int \<times> int) list \<Rightarrow> int" where
  "final_offset off [] = off"
| "final_offset off ((w, off') # ts) = final_offset off' ts"

lemma lookup_from_after:
  "\<forall>p \<in> set ts. fst p \<le> s \<Longrightarrow> (case st of None \<Rightarrow> True | Some a \<Rightarrow> a \<le> s) \<Longrightarrow>
    \<exists>st'. lookup_from off st ts s = (final_offset off ts, st', None)
      \<and> (case st' of None \<Rightarrow> True | Some a \<Rightarrow> st = Some a \<or> a \<in> fst ` set ts)"
proof (induction ts arbitrary: off st)
  case Nil
  then show ?case by (auto split: option.split)
next
  case (Cons p ts)
  obtain w off' where p: "p = (w, off')" by fastforce
  with Cons.prems have "\<not> s < w" by auto
  moreover from Cons.IH [of "Some w" off'] Cons.prems p
  obtain st' where "lookup_from off' (Some w) ts s = (final_offset off' ts, st', None)"
    "case st' of None \<Rightarrow> True | Some a \<Rightarrow> Some w = Some a \<or> a \<in> fst ` set ts" by auto
  ultimately show ?case using p by (auto split: option.splits)
qed

definition last_offset :: "location \<Rightarrow> int" where
  "last_offset loc = final_offset (first_offset loc) (transitions loc)"

text \<open>Past its last transition, read as an instant and as a wall clock, a zone is constant.\<close>

definition settled :: "location \<Rightarrow> instant \<Rightarrow> bool" where
  "settled loc t \<longleftrightarrow>
    (\<forall>p \<in> set (transitions loc). fst p \<le> t div second \<and> fst p \<le> t div second + last_offset loc)"

lemma settled_mono: "settled loc t \<Longrightarrow> t \<le> t' \<Longrightarrow> settled loc t'"
proof -
  assume "settled loc t" and "t \<le> t'"
  moreover have "t div second \<le> t' div second" using \<open>t \<le> t'\<close> by (simp add: zdiv_mono1)
  ultimately show ?thesis unfolding settled_def by force
qed

lemma settled_eventually: "\<exists>M. \<forall>t \<ge> M. settled loc t"
proof -
  have "\<exists>b. \<forall>p \<in> set ts. fst p \<le> b" for ts :: "(int \<times> int) list"
  proof (induction ts)
    case (Cons p ts)
    then obtain b where "\<forall>q \<in> set ts. fst q \<le> b" by blast
    then show ?case by (intro exI [of _ "max b (fst p)"]) auto
  qed simp
  then obtain b where b: "\<forall>p \<in> set (transitions loc). fst p \<le> b" by blast
  let ?s = "max b (b - last_offset loc)"
  have "settled loc (?s * second)" using b by (auto simp: settled_def)
  then show ?thesis using settled_mono by blast
qed

lemma settled_lookup:
  assumes "settled loc t"
  shows "\<exists>st. lookup loc (t div second) = (last_offset loc, st, None)
      \<and> (\<forall>a. st = Some a \<longrightarrow> a \<le> t div second)"
    and "\<exists>st. lookup loc (t div second + last_offset loc) = (last_offset loc, st, None)
      \<and> (\<forall>a. st = Some a \<longrightarrow> a \<le> t div second)"
proof -
  have le: "\<forall>p \<in> set (transitions loc). fst p \<le> t div second"
    "\<forall>p \<in> set (transitions loc). fst p \<le> t div second + last_offset loc"
    using assms by (auto simp: settled_def)
  show "\<exists>st. lookup loc (t div second) = (last_offset loc, st, None)
      \<and> (\<forall>a. st = Some a \<longrightarrow> a \<le> t div second)"
    using lookup_from_after [OF le(1), of None "first_offset loc"] le(1)
    by (fastforce simp: lookup_def last_offset_def split: option.splits)
  show "\<exists>st. lookup loc (t div second + last_offset loc) = (last_offset loc, st, None)
      \<and> (\<forall>a. st = Some a \<longrightarrow> a \<le> t div second)"
    using lookup_from_after [OF le(2), of None "first_offset loc"] le(1)
    by (fastforce simp: lookup_def last_offset_def split: option.splits)
qed

lemma offset_settled: "settled loc t \<Longrightarrow> offset_at loc t = last_offset loc * second"
  using settled_lookup(1) [of loc t] by (auto simp: offset_at_def)

lemma In_div_second: "In t loc div second = t div second + fst (lookup loc (t div second))"
  by (simp add: In_def offset_at_def)

lemma roundTrips_settled:
  assumes "settled loc t"
  shows "roundTrips t loc"
proof -
  have off: "fst (lookup loc (t div second)) = last_offset loc"
    using settled_lookup(1) [OF assms] by auto
  obtain st where "lookup loc (In t loc div second) = (last_offset loc, st, None)"
    and st: "\<forall>a. st = Some a \<longrightarrow> a \<le> t div second"
    using settled_lookup(2) [OF assms] by (auto simp: In_div_second off)
  then have "Date (reading_of (In t loc)) loc = In t loc - last_offset loc * second"
    using off by (auto simp: Date_def Let_def In_div_second in_zone_def split: option.split)
  then show ?thesis by (simp add: roundTrips_def In_def offset_settled [OF assms])
qed

lemma wall_clock_eq_iff:
  "wall_clock loc t = wall_clock loc t' \<longleftrightarrow> In t loc div second = In t' loc div second"
  by (simp add: wall_clock_def Format_wall_eq_iff)

lemma settled_wall_clock:
  assumes "settled loc t" and "second dvd t" and "second dvd t'" and "t < t'"
  shows "wall_clock loc t' \<noteq> wall_clock loc t"
proof -
  have "settled loc t'" using settled_mono assms(1,4) by simp
  then have "wall_clock loc t' = wall_clock loc t \<longleftrightarrow> t' div second = t div second"
    using settled_lookup(1) [OF assms(1)] settled_lookup(1) [of loc t']
    by (auto simp: wall_clock_eq_iff In_div_second)
  with assms(2-4) show ?thesis by (auto elim!: dvdE)
qed

lemma fires_settled:
  assumes "next_ok Next sp loc"
  shows "settled loc t \<Longrightarrow> \<exists>fs. fires Next sp loc n t lw fs"
proof (induction n arbitrary: t lw)
  case 0
  then show ?case by (blast intro: fires.enough)
next
  case (Suc n)
  let ?a = "Next sp loc t" and ?b = "Next sp loc (Next sp loc t)"
  have step: "\<not> IsZero (Next sp loc u) \<Longrightarrow> u < Next sp loc u \<and> second dvd Next sp loc u" for u
    using assms by (simp add: next_ok_def)
  show ?case
  proof (cases "IsZero ?a")
    case True
    then show ?thesis by (blast intro: fires.exhausted)
  next
    case a: False
    have sa: "settled loc ?a" using settled_mono [OF Suc.prems] step [OF a] by simp
    note ra = roundTrips_settled [OF sa]
    show ?thesis
    proof (cases "wall_clock loc ?a = lw")
      case False
      with Suc.IH [OF sa] a ra show ?thesis by (blast intro: fires.reported)
    next
      case same: True
      show ?thesis
      proof (cases "IsZero ?b")
        case True
        with a same show ?thesis by (blast intro: fires.dropped fires.exhausted)
      next
        case b: False
        have sb: "settled loc ?b" using settled_mono [OF sa] step [OF b] by simp
        have "wall_clock loc ?b \<noteq> lw"
          using settled_wall_clock [OF sa] step [OF a] step [OF b] same by simp
        with Suc.IH [OF sb] b roundTrips_settled [OF sb]
        obtain fs where "fires Next sp loc (Suc n) ?a lw fs" by (blast intro: fires.reported)
        with a same show ?thesis by (blast intro: fires.dropped)
      qed
    qed
  qed
qed

lemma fires_exist:
  assumes ok: "next_ok Next sp loc"
  shows "\<exists>fs. fires Next sp loc n t lw fs"
proof -
  obtain M where M: "\<And>t. M \<le> t \<Longrightarrow> settled loc t" using settled_eventually by blast
  show ?thesis
  proof (induction "nat (M - t)" arbitrary: n t lw rule: less_induct)
    case less
    show ?case
    proof (cases "M \<le> t")
      case True
      then show ?thesis using fires_settled [OF ok] M by blast
    next
      case False
      let ?a = "Next sp loc t"
      consider "IsZero ?a \<or> n = 0" | (step) m where "\<not> IsZero ?a" "n = Suc m" by (cases n) auto
      then show ?thesis
      proof cases
        case step
        then have "t < ?a" using ok by (simp add: next_ok_def)
        then have "nat (M - ?a) < nat (M - t)" using False by simp
        from less [OF this] step show ?thesis
          by (metis fires.dropped fires.reported)
      qed (auto intro: fires.enough fires.exhausted)
    qed
  qed
qed

lemma fires_unique:
  assumes "fires Next sp loc n t lw fs" and "fires Next sp loc n t lw gs"
  shows "fs = gs"
  using fires_loop [OF assms(1), of "[]"] fires_loop [OF assms(2), of "[]"] by simp

lemma NextN_fires:
  assumes "next_ok Next (spec s) loc"
  shows "Schedule_NextN Next s loc after n = Some fs \<longleftrightarrow>
    fires Next (spec s) loc (nat n) after (wall_clock loc after) fs"
  using fires_exist [OF assms] fires_NextN fires_unique by (metis option.inject)

text \<open>For a library that keeps its promises on every expression and zone, no call hangs.\<close>

definition env_ok :: "'spec cron_env \<Rightarrow> bool" where
  "env_ok e \<longleftrightarrow> (\<forall>sp loc. next_ok (env_next e) sp loc)"

lemma Schedule_NextN_total: "env_ok e \<Longrightarrow> \<exists>fs. Schedule_NextN (env_next e) sched loc t n = Some fs"
  using fires_exist [of "env_next e" "spec sched" loc] fires_NextN by (fastforce simp: env_ok_def)

lemma NextN_total:
  "env_ok e \<Longrightarrow> \<exists>r. NextN (env_parser e) (env_descriptorParser e) (env_next e) (env_zones e) ex tz t n = Some r"
  using Schedule_NextN_total by (fastforce simp: NextN_def split: sum.splits option.splits)

text \<open>An instance to evaluate: five stars only, firing once, a minute after the epoch.\<close>

definition once_env :: "unit cron_env" where
  "once_env =
    \<lparr>env_parser = (\<lambda>s. if s = ''* * * * *'' then Inr () else Inl ''unsupported''),
     env_descriptorParser = (\<lambda>s. Inl ''unsupported''),
     env_next = (\<lambda>sp loc t. if t < minute then minute else zero_time),
     env_zones = (\<lambda>z. if z = ''UTC'' then Some UTC else None)\<rparr>"

lemma once_env_ok: "env_ok once_env"
  by (simp add: env_ok_def next_ok_def once_env_def IsZero_def minute_def)

section \<open>Properties of NextN\<close>

text \<open>An instance to evaluate: the start of every minute, as the library answers for five stars.\<close>

definition every_minute :: "unit \<Rightarrow> location \<Rightarrow> instant \<Rightarrow> instant" where
  "every_minute sp loc t = (t div minute + 1) * minute"

lemma every_minute_ok: "next_ok every_minute () loc"
proof -
  have "t < (t div minute + 1) * minute" for t
    using mult_div_mod_eq [of minute t] pos_mod_bound [of minute t]
    by (simp add: minute_def second_def algebra_simps)
  moreover have "second dvd (t div minute + 1) * minute" for t
    by (simp add: minute_def)
  ultimately show ?thesis by (simp add: next_ok_def every_minute_def)
qed

text \<open>
  C19. NextN returns for every schedule, zone and count: at most as many fire times as asked
  for, all of them candidates of the expression after the given instant, in strictly
  increasing order, each of them the instant its own wall clock reading denotes.
\<close>

theorem nextn_returns_in_order:
  assumes "next_ok Next (spec s) loc"
  shows "\<exists>fs. Schedule_NextN Next s loc after n = Some fs \<and> length fs \<le> nat n
    \<and> sorted_wrt (<) (after # fs)
    \<and> (\<forall>f \<in> set fs. follows Next (spec s) loc after f \<and> roundTrips f loc)"
proof -
  obtain fs where fs: "fires Next (spec s) loc (nat n) after (wall_clock loc after) fs"
    using fires_exist [OF assms] by blast
  show ?thesis
    using fires_NextN [OF fs] fires_length [OF fs] fires_sorted [OF fs assms]
      fires_follow [OF fs] fires_roundTrips [OF fs] by blast
qed

lemma nextn_returns_in_order_witness:
  "\<exists>fs. Schedule_NextN every_minute \<lparr>spec = (), expr = ''* * * * *''\<rparr> UTC 0 2 = Some fs
    \<and> sorted_wrt (<) (0 # fs)"
  using nextn_returns_in_order [of every_minute "\<lparr>spec = (), expr = ''* * * * *''\<rparr>" UTC 0 2]
    every_minute_ok [of UTC] by auto

text \<open>
  C20. NextN leaves out no candidate in the span it covers (up to its last fire time, or
  without end when it found fewer than asked for) but those its tests reject: an instant that
  is not the one its wall clock reading denotes, or a wall clock reading already fired at, or
  shown at the starting instant.
\<close>

theorem nextn_leaves_out_only_repeats:
  assumes "next_ok Next (spec s) loc" and "Schedule_NextN Next s loc after n = Some fs"
    and "follows Next (spec s) loc after c" and "length fs < nat n \<or> fs \<noteq> [] \<and> c \<le> last fs"
  shows "c \<in> set fs \<or> \<not> roundTrips c loc
    \<or> (\<exists>g \<in> insert after (set fs). g < c \<and> wall_clock loc g = wall_clock loc c)"
  using fires_complete [OF _ assms(1,3,4)] NextN_fires [OF assms(1)] assms(2)
    follows_later [OF assms(3,1)] by fastforce

lemma roundTrips_UTC: "roundTrips t UTC"
  by (simp add: roundTrips_def)

lemma NextN_every_minute:
  "Schedule_NextN every_minute \<lparr>spec = (), expr = e\<rparr> UTC 0 2 = Some [60000000, 120000000]"
proof -
  have "fires every_minute () UTC 2 0 (wall_clock UTC 0) [60000000, 120000000]"
    unfolding numeral_2_eq_2
    by (intro fires.reported fires.enough)
      (simp_all add: roundTrips_UTC wall_clock_eq_iff every_minute_def IsZero_def zero_time_def
        minute_def second_def)
  then show ?thesis using fires_NextN [of every_minute "\<lparr>spec = (), expr = e\<rparr>" UTC 2 0] by simp
qed

lemma nextn_leaves_out_only_repeats_witness:
  "(60000000 :: int) \<in> set [60000000, 120000000] \<or> \<not> roundTrips 60000000 UTC
    \<or> (\<exists>g \<in> {0, 60000000, 120000000}. g < 60000000 \<and> wall_clock UTC g = wall_clock UTC 60000000)"
proof -
  have "every_minute () UTC 0 = 60000000" by (simp add: every_minute_def minute_def second_def)
  then have "follows every_minute () UTC 0 60000000"
    using follows.first [of every_minute "()" UTC 0] by (simp add: IsZero_def zero_time_def second_def)
  with nextn_leaves_out_only_repeats [OF _ NextN_every_minute [of "''* * * * *''"], of 60000000]
    every_minute_ok [of UTC]
  show ?thesis by simp
qed

section \<open>A zone whose clock changes once\<close>

definition single_offset :: "int \<Rightarrow> int \<Rightarrow> int \<Rightarrow> int \<Rightarrow> int" where
  "single_offset T a b u =
    (let off = (if u < T then a else b)
     in if off = 0 then 0
        else if (u < T) = (u - off < T) then off
        else if u - off < T then a else b)"

text \<open>
  C21. Around a single change of the clock from offset a to offset b, the round trip test
  rejects nothing when the clock jumps ahead; when it falls back it rejects exactly one of
  the two instants of each repeated reading: the first one, before the change, where the new
  offset is zero or east of Greenwich, and the second one where the old offset is zero or west.
\<close>

theorem round_trips_at_one_transition:
  assumes "0 \<le> b \<or> a \<le> 0 \<or> a \<le> b"
  shows "roundTrips t \<lparr>first_offset = a, transitions = [(T, b)]\<rparr> =
    (let s = t div second
     in \<not> (b < a \<and> 0 \<le> b \<and> s < T \<and> T \<le> s + a - b)
        \<and> \<not> (b < a \<and> \<not> 0 \<le> b \<and> T \<le> s \<and> s + b - a < T))"
proof -
  let ?loc = "\<lparr>first_offset = a, transitions = [(T, b)]\<rparr> :: location"
  define s where "s = t div second"
  have lk: "lookup ?loc u = (if u < T then (a, None, Some T) else (b, Some T, None))" for u
    by (simp add: lookup_def)
  define off where "off = (if s < T then a else b)"
  have t_eq: "In t ?loc = t + off * second" by (simp add: In_def offset_at_def lk off_def s_def)
  have u: "In t ?loc div second = s + off" by (simp add: t_eq s_def)
  have D: "Date (reading_of w) ?loc = w - single_offset T a b (w div second) * second" for w
    by (cases "w div second < T")
      (simp_all add: Date_def Let_def lk in_zone_def single_offset_def)
  have "roundTrips t ?loc \<longleftrightarrow> single_offset T a b (s + off) = off"
    unfolding roundTrips_def D u by (auto simp: t_eq)
  also have "\<dots> \<longleftrightarrow> \<not> (b < a \<and> 0 \<le> b \<and> s < T \<and> T \<le> s + a - b)
        \<and> \<not> (b < a \<and> \<not> 0 \<le> b \<and> T \<le> s \<and> s + b - a < T)"
    using assms unfolding single_offset_def off_def Let_def by (auto split: if_splits)
  finally show ?thesis by (simp add: s_def Let_def)
qed

text \<open>Berlin in 2024: at 01:00 UTC on October 27, offset 7200 becomes 3600; 00:30 UTC is dropped.\<close>

lemma round_trips_at_one_transition_witness:
  "\<not> roundTrips (1729989000 * second) \<lparr>first_offset = 7200, transitions = [(1729990800, 3600)]\<rparr>
    \<and> roundTrips (1729992600 * second) \<lparr>first_offset = 7200, transitions = [(1729990800, 3600)]\<rparr>"
  by (simp add: round_trips_at_one_transition second_def)

end
