(* ===== verification/Go_Duration.thy ===== *)
theory Go_Duration
  imports Go_Text
begin

text \<open>
  Go's time.Duration as the configuration and the worker use it: a signed 64-bit count of
  nanoseconds, its text (Duration.String) and its parser (time.ParseDuration). The parser's
  fraction is computed exactly here and in double precision there, which may differ in the
  last nanosecond of a fraction with many digits.
\<close>

type_synonym nanos = int

definition ns_millisecond :: nanos where
  "ns_millisecond = 1000000"

definition ns_second :: nanos where
  "ns_second = 1000 * ns_millisecond"

definition ns_minute :: nanos where
  "ns_minute = 60 * ns_second"

definition ns_hour :: nanos where
  "ns_hour = 60 * ns_minute"

text \<open>Arithmetic on an int64 wraps around.\<close>

definition int64 :: "int \<Rightarrow> int" where
  "int64 i = (i + 2 ^ 63) mod 2 ^ 64 - 2 ^ 63"

lemma int64_id: "- (2 ^ 63) \<le> i \<Longrightarrow> i < 2 ^ 63 \<Longrightarrow> int64 i = i"
  by (simp add: int64_def)

section \<open>String\<close>

fun drop_zeros :: "string \<Rightarrow> string" where
  "drop_zeros [] = []"
| "drop_zeros (c # cs) = (if c = CHR ''0'' then drop_zeros cs else c # cs)"

definition frac_text :: "nat \<Rightarrow> nat \<Rightarrow> string" where
  "frac_text v prec =
    (let ds = rev (drop_zeros (rev (pad0 prec (v mod 10 ^ prec))))
     in if ds = [] then [] else CHR ''.'' # ds)"

definition micro_sign :: string where
  "micro_sign = [CHR 0xC2, CHR 0xB5]"

definition magnitude_text :: "nat \<Rightarrow> string" where
  "magnitude_text u =
    (if u = 0 then ''0s''
     else if u < 1000 then show_nat u @ ''ns''
     else if u < 1000000 then show_nat (u div 1000) @ frac_text u 3 @ micro_sign @ ''s''
     else if u < 1000000000 then show_nat (u div 1000000) @ frac_text u 6 @ ''ms''
     else
       let s = u div 1000000000; m = s div 60; h = m div 60;
           secs = show_nat (s mod 60) @ frac_text u 9 @ ''s''
       in if m = 0 then secs
          else if h = 0 then show_nat (m mod 60) @ ''m'' @ secs
          else show_nat h @ ''h'' @ show_nat (m mod 60) @ ''m'' @ secs)"

definition Duration_String :: "nanos \<Rightarrow> string" where
  "Duration_String d =
    (if d < 0 then CHR ''-'' # magnitude_text (nat (- d)) else magnitude_text (nat d))"

section \<open>ParseDuration\<close>

definition digits_value :: "string \<Rightarrow> int" where
  "digits_value s = foldl (\<lambda>acc c. 10 * acc + (of_char c - 48)) 0 s"

definition leadingInt :: "string \<Rightarrow> (int \<times> string) option" where
  "leadingInt s =
    (let v = digits_value (takeWhile is_digit s)
     in if v > 2 ^ 63 then None else Some (v, dropWhile is_digit s))"

text \<open>Digits beyond what 63 bits hold are read and ignored.\<close>

fun leadingFraction :: "int \<Rightarrow> int \<Rightarrow> bool \<Rightarrow> string \<Rightarrow> int \<times> int \<times> string" where
  "leadingFraction x scale full [] = (x, scale, [])"
| "leadingFraction x scale full (c # cs) =
    (if \<not> is_digit c then (x, scale, c # cs)
     else if full \<or> x > (2 ^ 63 - 1) div 10 \<or> x * 10 + (of_char c - 48) > 2 ^ 63
     then leadingFraction x scale True cs
     else leadingFraction (x * 10 + (of_char c - 48)) (scale * 10) False cs)"

definition unitMap :: "string \<Rightarrow> int option" where
  "unitMap u =
    (if u = ''ns'' then Some 1
     else if u \<in> {''us'', micro_sign @ ''s'', [CHR 0xCE, CHR 0xBC] @ ''s''} then Some 1000
     else if u = ''ms'' then Some 1000000
     else if u = ''s'' then Some 1000000000
     else if u = ''m'' then Some 60000000000
     else if u = ''h'' then Some 3600000000000
     else None)"

definition number_char :: "char \<Rightarrow> bool" where
  "number_char c \<longleftrightarrow> c = CHR ''.'' \<or> is_digit c"

definition parse_fraction :: "string \<Rightarrow> int \<times> int \<times> bool \<times> string" where
  "parse_fraction s =
    (if s \<noteq> [] \<and> hd s = CHR ''.''
     then (let (f, scale, rest) = leadingFraction 0 1 False (tl s)
           in (f, scale, rest \<noteq> tl s, rest))
     else (0, 1, False, s))"

text \<open>One number with its unit; what is left of the text comes with it.\<close>

definition parse_term :: "string \<Rightarrow> (int \<times> string) option" where
  "parse_term s =
    (if s = [] \<or> \<not> number_char (hd s) then None
     else case leadingInt s of None \<Rightarrow> None
     | Some (v, s1) \<Rightarrow>
         (let pre = (s1 \<noteq> s); (f, scale, post, s2) = parse_fraction s1;
              u = takeWhile (\<lambda>c. \<not> number_char c) s2; s3 = dropWhile (\<lambda>c. \<not> number_char c) s2
          in if \<not> pre \<and> \<not> post then None
             else case unitMap u of None \<Rightarrow> None
             | Some unit \<Rightarrow>
                 if v > 2 ^ 63 div unit then None
                 else let w = v * unit + f * unit div scale
                      in if w > 2 ^ 63 then None else Some (w, s3)))"

lemma unitMap_Nil [simp]: "unitMap [] = None"
  by (simp add: unitMap_def micro_sign_def)

lemma leadingFraction_length:
  "leadingFraction x scale full s = (f, sc, rest) \<Longrightarrow> length rest \<le> length s"
  by (induction x scale full s rule: leadingFraction.induct) (auto split: if_splits)

lemma parse_term_shorter:
  assumes "parse_term s = Some (w, rest)"
  shows "length rest < length s"
proof -
  obtain v s1 f scale post s2 where s1: "leadingInt s = Some (v, s1)"
    and s2: "parse_fraction s1 = (f, scale, post, s2)"
    and unit: "unitMap (takeWhile (\<lambda>c. \<not> number_char c) s2) \<noteq> None"
    and rest: "rest = dropWhile (\<lambda>c. \<not> number_char c) s2"
    using assms
    by (auto simp: parse_term_def Let_def split: if_splits option.splits prod.splits)
  have "takeWhile (\<lambda>c. \<not> number_char c) s2 \<noteq> []" using unit by auto
  then have "length rest < length s2"
    unfolding rest by (cases s2) (auto simp: le_imp_less_Suc length_dropWhile_le)
  moreover have "length s2 \<le> length s1"
    using s2 leadingFraction_length [of 0 1 False "tl s1"]
    by (auto simp: parse_fraction_def Let_def split: if_splits prod.splits)
  moreover have "length s1 \<le> length s"
    using s1 by (auto simp: leadingInt_def Let_def length_dropWhile_le split: if_splits)
  ultimately show ?thesis by simp
qed

function parse_terms :: "int \<Rightarrow> string \<Rightarrow> int option" where
  "parse_terms d s =
    (if s = [] then Some d
     else case parse_term s of None \<Rightarrow> None
     | Some (w, rest) \<Rightarrow> if d + w > 2 ^ 63 then None else parse_terms (d + w) rest)"
  by auto
termination
  by (relation "measure (length \<circ> snd)") (auto dest: parse_term_shorter)

declare parse_terms.simps [simp del]

definition ParseDuration :: "string \<Rightarrow> nanos option" where
  "ParseDuration orig =
    (let neg = (orig \<noteq> [] \<and> hd orig = CHR ''-'');
         s = (if orig \<noteq> [] \<and> hd orig \<in> {CHR ''-'', CHR ''+''} then tl orig else orig)
     in if s = ''0'' then Some 0
        else if s = [] then None
        else case parse_terms 0 s of None \<Rightarrow> None
        | Some d \<Rightarrow> if neg then Some (- d)
                   else if d > 2 ^ 63 - 1 then None else Some d)"

lemma ParseDuration_examples:
  "ParseDuration ''90s'' = Some (90 * ns_second)"
  "ParseDuration ''1h30m'' = Some (90 * ns_minute)"
  "ParseDuration ''1.5s'' = Some (1500 * ns_millisecond)"
  "ParseDuration ''30'' = None"
  by code_simp+

lemma digit_value: "is_digit c \<Longrightarrow> (48 :: int) \<le> of_char c"
  by (simp add: is_digit_def) (metis of_nat_numeral of_nat_of_char zle_int)

lemma digits_value_nonneg: "\<forall>c \<in> set s. is_digit c \<Longrightarrow> 0 \<le> digits_value s"
proof (induction s rule: rev_induct)
  case (snoc c s)
  with digit_value [of c] show ?case by (simp add: digits_value_def)
qed (simp add: digits_value_def)

lemma leadingFraction_nonneg:
  "leadingFraction x scale full s = (f, sc, rest) \<Longrightarrow> 0 \<le> x \<Longrightarrow> 0 < scale \<Longrightarrow> 0 \<le> f \<and> 0 < sc"
proof (induction x scale full s rule: leadingFraction.induct)
  case (2 x scale full c cs)
  then show ?case using digit_value [of c] by (auto split: if_splits)
qed simp

lemma parse_term_nonneg:
  assumes "parse_term s = Some (w, rest)"
  shows "0 \<le> w"
proof -
  obtain v s1 f scale post s2 unit where s1: "leadingInt s = Some (v, s1)"
    and s2: "parse_fraction s1 = (f, scale, post, s2)"
    and unit: "unitMap (takeWhile (\<lambda>c. \<not> number_char c) s2) = Some unit"
    and w: "w = v * unit + f * unit div scale"
    using assms
    by (auto simp: parse_term_def Let_def split: if_splits option.splits prod.splits)
  have "0 \<le> v"
    using s1 digits_value_nonneg [of "takeWhile is_digit s"]
    by (auto simp: leadingInt_def Let_def split: if_splits dest: set_takeWhileD)
  moreover have "0 \<le> f \<and> 0 < scale"
    using s2 leadingFraction_nonneg [of 0 1 False "tl s1"]
    by (auto simp: parse_fraction_def Let_def split: if_splits prod.splits)
  moreover have "0 < unit" using unit by (auto simp: unitMap_def split: if_splits)
  ultimately show ?thesis by (simp add: w pos_imp_zdiv_nonneg_iff)
qed

lemma parse_terms_nonneg: "parse_terms d s = Some r \<Longrightarrow> 0 \<le> d \<Longrightarrow> 0 \<le> r"
proof (induction d s rule: parse_terms.induct)
  case (1 d s)
  show ?case
  proof (cases "s = []")
    case True
    then show ?thesis using "1.prems" parse_terms.simps [of d s] by simp
  next
    case False
    with "1.prems" obtain w rest where w: "parse_term s = Some (w, rest)" "\<not> d + w > 2 ^ 63"
      "parse_terms (d + w) rest = Some r"
      by (auto simp: parse_terms.simps [of d s] split: option.splits if_splits)
    have "0 \<le> d + w" using "1.prems"(2) parse_term_nonneg [OF w(1)] by simp
    then show ?thesis using "1.IH" [OF False w(1) refl w(2,3)] by simp
  qed
qed

text \<open>Every parsed duration is below the 64-bit limit.\<close>

lemma ParseDuration_less:
  "ParseDuration s = Some d \<Longrightarrow> 0 < d \<Longrightarrow> d < 2 ^ 63"
proof -
  assume parsed: "ParseDuration s = Some d" and "0 < d"
  show ?thesis
  proof (cases "d > 2 ^ 63 - 1")
    case True
    with parsed \<open>0 < d\<close> obtain r u where "parse_terms 0 u = Some r" "d = - r"
      by (auto simp: ParseDuration_def Let_def split: if_splits option.splits)
    then show ?thesis using parse_terms_nonneg [of 0 u r] \<open>0 < d\<close> by simp
  qed simp
qed

section \<open>strconv.Atoi and strconv.ParseInt\<close>

definition Atoi :: "string \<Rightarrow> int option" where
  "Atoi s =
    (let neg = (s \<noteq> [] \<and> hd s = CHR ''-'');
         ds = (if s \<noteq> [] \<and> hd s \<in> {CHR ''-'', CHR ''+''} then tl s else s);
         n = (if neg then - digits_value ds else digits_value ds)
     in if ds = [] \<or> \<not> list_all is_digit ds \<or> n < - (2 ^ 63) \<or> 2 ^ 63 \<le> n then None else Some n)"

text \<open>An int has 64 bits, so ParseInt in base 10 with 64 bits reads the same numbers.\<close>

definition ParseInt :: "string \<Rightarrow> int option" where
  "ParseInt s = Atoi s"

end
