(* ===== verification/Materializer.thy ===== *)
theory Materializer
  imports Cron_Facts Go_Duration
begin

text \<open>
  internal/materializer: planning the fire times a schedule owes, turning them into tasks,
  and the pass over every enabled schedule. The store is the package's own interface, a
  record of its three methods; the locale states what the package relies on, and what
  follows from it is proved once, for any store that keeps these laws.
\<close>

section \<open>Plan (plan.go)\<close>

datatype plan_error = PlanTimezone StoreErr | PlanCron cron_error

definition MaxPlannedFireTimes :: int where
  "MaxPlannedFireTimes = 10000"

fun up_to :: "instant \<Rightarrow> instant list \<Rightarrow> instant list" where
  "up_to until [] = []"
| "up_to until (c # cs) = (if until < c then [] else c # up_to until cs)"

definition plan_after :: "Schedule \<Rightarrow> instant \<Rightarrow> instant" where
  "plan_after s now = (case s_last_materialized_at s of None \<Rightarrow> now | Some p \<Rightarrow> p)"

definition Plan :: "'spec cron_env \<Rightarrow> Schedule \<Rightarrow> instant \<Rightarrow> duration
    \<Rightarrow> (plan_error + instant list) option" where
  "Plan e s now horizon =
    (case Location (env_zones e) s of
       Inl err \<Rightarrow> Some (Inl (PlanTimezone err))
     | Inr loc \<Rightarrow>
         (case Parse (env_parser e) (env_descriptorParser e) (s_cron s) of
            Inl err \<Rightarrow> Some (Inl (PlanCron err))
          | Inr sched \<Rightarrow>
              (let until = now + horizon
               in case Schedule_NextN (env_next e) sched loc (plan_after s now) MaxPlannedFireTimes of
                    None \<Rightarrow> None
                  | Some candidates \<Rightarrow> Some (Inr (up_to until candidates)))))"

text \<open>
  The instants of the model are whole microseconds, so an instant lies within a duration of
  another exactly when it lies within the whole microseconds of that duration.
\<close>

definition micros :: "nanos \<Rightarrow> duration" where
  "micros n = n div 1000"

section \<open>The store (materialize.go, run.go)\<close>

record 'st mat_store =
  op_EnqueueBulk :: "'st \<Rightarrow> Task list \<Rightarrow> 'st \<times> (StoreErr + Task list)"
  op_ListEnabledSchedules :: "'st \<Rightarrow> 'st \<times> (StoreErr + Schedule list)"
  op_AdvanceLastMaterializedAt :: "'st \<Rightarrow> int \<Rightarrow> instant \<Rightarrow> 'st \<times> StoreErr option"

definition Materialize :: "'st mat_store \<Rightarrow> 'st \<Rightarrow> Schedule \<Rightarrow> instant list
    \<Rightarrow> 'st \<times> (StoreErr + Task list)" where
  "Materialize store st s fireTimes =
    (if fireTimes = [] then (st, Inr [])
     else op_EnqueueBulk store st (map (TaskFor s) fireTimes))"

section \<open>Runner (run.go)\<close>

record runner =
  r_horizon :: nanos
  r_interval :: nanos

definition DefaultInterval :: nanos where
  "DefaultInterval = 30 * ns_second"

definition DefaultHorizon :: nanos where
  "DefaultHorizon = 5 * ns_minute"

definition New_runner :: "nanos \<Rightarrow> nanos \<Rightarrow> runner" where
  "New_runner horizon interval =
    \<lparr>r_horizon = (if horizon \<le> 0 then DefaultHorizon else horizon),
     r_interval = (if interval \<le> 0 then DefaultInterval else interval)\<rparr>"

datatype mat_error = PlanFailed plan_error | StoreFailed StoreErr

definition materializeOne :: "'spec cron_env \<Rightarrow> 'st mat_store \<Rightarrow> duration \<Rightarrow> 'st \<Rightarrow> instant
    \<Rightarrow> Schedule \<Rightarrow> ('st \<times> mat_error option) option" where
  "materializeOne e store horizon st now s =
    (case Plan e s now horizon of
       None \<Rightarrow> None
     | Some (Inl err) \<Rightarrow> Some (st, Some (PlanFailed err))
     | Some (Inr fireTimes) \<Rightarrow>
         if fireTimes = [] then Some (st, None)
         else (case Materialize store st s fireTimes of
                 (st', Inl err) \<Rightarrow> Some (st', Some (StoreFailed err))
               | (st', Inr _) \<Rightarrow>
                   (case op_AdvanceLastMaterializedAt store st' (s_id s) (last fireTimes) of
                      (st'', err) \<Rightarrow> Some (st'', map_option StoreFailed err))))"

text \<open>What a pass logs: it could not list the schedules, or one of them failed.\<close>

datatype log_entry = ListingFailed StoreErr | ScheduleFailed int mat_error

fun materialize_each :: "'spec cron_env \<Rightarrow> 'st mat_store \<Rightarrow> duration \<Rightarrow> instant \<Rightarrow> 'st
    \<Rightarrow> Schedule list \<Rightarrow> ('st \<times> log_entry list) option" where
  "materialize_each e store horizon now st [] = Some (st, [])"
| "materialize_each e store horizon now st (s # ss) =
    (case materializeOne e store horizon st now s of
       None \<Rightarrow> None
     | Some (st', err) \<Rightarrow>
         (case materialize_each e store horizon now st' ss of
            None \<Rightarrow> None
          | Some (st'', logs) \<Rightarrow>
              Some (st'', (case err of None \<Rightarrow> logs
                           | Some x \<Rightarrow> ScheduleFailed (s_id s) x # logs))))"

definition RunOnce :: "'spec cron_env \<Rightarrow> 'st mat_store \<Rightarrow> runner \<Rightarrow> 'st \<Rightarrow> instant
    \<Rightarrow> ('st \<times> log_entry list) option" where
  "RunOnce e store r st now =
    (case op_ListEnabledSchedules store st of
       (st', Inl err) \<Rightarrow> Some (st', [ListingFailed err])
     | (st', Inr ss) \<Rightarrow> materialize_each e store (micros (r_horizon r)) now st' ss)"

text \<open>
  Run: one pass at once, then one per tick until the context ends. Each pass comes with its
  node's clock and with what the rest of the system did to the store since the one before.
\<close>

fun Run :: "'spec cron_env \<Rightarrow> 'st mat_store \<Rightarrow> runner \<Rightarrow> 'st \<Rightarrow> (('st \<Rightarrow> 'st) \<times> instant) list
    \<Rightarrow> ('st \<times> log_entry list) option" where
  "Run e store r st [] = Some (st, [])"
| "Run e store r st ((wait, now) # ticks) =
    (case RunOnce e store r (wait st) now of
       None \<Rightarrow> None
     | Some (st', logs) \<Rightarrow>
         (case Run e store r st' ticks of
            None \<Rightarrow> None
          | Some (st'', logs') \<Rightarrow> Some (st'', logs @ logs')))"

section \<open>The plan\<close>

lemma up_to_takeWhile: "up_to u cs = takeWhile (\<lambda>c. c \<le> u) cs"
  by (induction cs) auto

text \<open>Any first part of a list of fire times is itself the answer to a smaller question.\<close>

lemma fires_prefix_eq:
  "fires Next sp loc n t lw fs \<Longrightarrow> fs = xs @ ys \<Longrightarrow> fires Next sp loc (length xs) t lw xs"
proof (induction arbitrary: xs rule: fires.induct)
  case (dropped t' t lw n fs)
  show ?case
  proof (cases xs)
    case (Cons x zs)
    from dropped.IH [OF dropped.prems] Cons have "fires Next sp loc (Suc (length zs)) t' lw xs" by simp
    then have "fires Next sp loc (Suc (length zs)) t lw xs"
      by (rule fires.dropped [where Next = Next and sp = sp and loc = loc and t = t, OF dropped.hyps(1-3)])
    with Cons show ?thesis by simp
  qed (auto intro: fires.enough)
next
  case (reported t' t lw n fs)
  show ?case
  proof (cases xs)
    case (Cons x zs)
    with reported.prems have "x = t'" "fs = zs @ ys" by auto
    then have "fires Next sp loc (length zs) t' (wall_clock loc t') zs" using reported.IH by simp
    then have "fires Next sp loc (Suc (length zs)) t lw (t' # zs)"
      by (rule fires.reported [where Next = Next and sp = sp and loc = loc and t = t, OF reported.hyps(1-4)])
    with Cons \<open>x = t'\<close> show ?thesis by simp
  qed (auto intro: fires.enough)
qed (auto intro: fires.enough)

lemma fires_prefix:
  "fires Next sp loc n t lw (xs @ ys) \<Longrightarrow> fires Next sp loc (length xs) t lw xs"
  by (rule fires_prefix_eq [OF _ refl])

lemma fires_short:
  "fires Next sp loc n t lw fs \<Longrightarrow> length fs < n \<Longrightarrow> n \<le> m \<Longrightarrow> fires Next sp loc m t lw fs"
proof (induction arbitrary: m rule: fires.induct)
  case (exhausted t n lw)
  then show ?case by (auto intro: fires.exhausted)
next
  case (dropped t' t lw n fs)
  then obtain k where k: "m = Suc k" by (cases m) simp_all
  with dropped.IH dropped.prems have "fires Next sp loc (Suc k) t' lw fs" by blast
  then show ?case
    unfolding k
    by (rule fires.dropped [where Next = Next and sp = sp and loc = loc and t = t, OF dropped.hyps(1-3)])
next
  case (reported t' t lw n fs)
  then obtain k where k: "m = Suc k" by (cases m) simp_all
  with reported.IH reported.prems have "fires Next sp loc k t' (wall_clock loc t') fs" by simp
  then show ?case
    unfolding k
    by (rule fires.reported [where Next = Next and sp = sp and loc = loc and t = t, OF reported.hyps(1-4)])
qed simp

lemma fires_takeWhile:
  "fires Next sp loc n t lw cs \<Longrightarrow>
    fires Next sp loc (length (takeWhile P cs)) t lw (takeWhile P cs)"
  using fires_prefix [of Next sp loc n t lw "takeWhile P cs" "dropWhile P cs"] by simp

text \<open>The longer answer starts with the shorter one.\<close>

lemma fires_longer:
  assumes "next_ok Next sp loc" and "fires Next sp loc n t lw fs" and "fires Next sp loc m t lw gs"
    and "n \<le> m"
  shows "\<exists>hs. gs = fs @ hs"
proof (cases "length fs = n \<and> fs \<noteq> []")
  case True
  obtain hs where hs: "fires Next sp loc (m - n) (last fs) (wall_clock loc (last fs)) hs"
    using fires_exist [OF assms(1)] by blast
  have "fires Next sp loc (n + (m - n)) t lw (fs @ hs)"
    by (rule fires_append [OF assms(2) _ _ hs]) (use True in auto)
  then have "fires Next sp loc m t lw (fs @ hs)" using assms(4) by simp
  from fires_unique [OF assms(3) this] show ?thesis by blast
next
  case False
  then show ?thesis
  proof (cases "fs = []")
    case False
    with \<open>\<not> (length fs = n \<and> fs \<noteq> [])\<close> have "length fs < n" using fires_length [OF assms(2)] by auto
    then have "fires Next sp loc m t lw fs" by (rule fires_short [OF assms(2) _ assms(4)])
    from fires_unique [OF assms(3) this] show ?thesis by simp
  qed simp
qed

text \<open>Of the first candidates up to a bound, none that a longer answer has is missing.\<close>

lemma due_prefix_complete:
  assumes ok: "next_ok Next sp loc" and cs: "fires Next sp loc k t lw cs"
    and fs: "fs = takeWhile (\<lambda>c. c \<le> u) cs" and short: "length fs < k"
    and gs: "fires Next sp loc n t lw gs" and g: "g \<in> set gs" "g \<le> u"
  shows "g \<in> set fs"
proof -
  define m where "m = max k n"
  have m: "k \<le> m" "n \<le> m" by (simp_all add: m_def)
  obtain bs where bs: "fires Next sp loc m t lw bs" using fires_exist [OF ok] by blast
  from fires_longer [OF ok gs bs m(2)] g(1) have gb: "g \<in> set bs" by auto
  from fires_longer [OF ok cs bs m(1)] obtain hs where b: "bs = cs @ hs" by blast
  have sorted: "sorted_wrt (<) bs" using fires_sorted [OF bs ok] by simp
  show ?thesis
  proof (cases "dropWhile (\<lambda>c. c \<le> u) cs")
    case Nil
    then have "fs = cs" using fs by (metis takeWhile_dropWhile_id append_Nil2)
    with short have "fires Next sp loc m t lw cs" using fires_short [OF cs _ m(1)] by simp
    from fires_unique [OF bs this] gb \<open>fs = cs\<close> show ?thesis by simp
  next
    case (Cons c ds)
    then have "u < c" using hd_dropWhile [of "\<lambda>c. c \<le> u" cs] by simp
    have "bs = fs @ c # ds @ hs" using b Cons fs by (metis append.assoc append_Cons takeWhile_dropWhile_id)
    moreover from this sorted have "c < x" if "x \<in> set (ds @ hs)" for x
      using that by (simp add: sorted_wrt_append)
    ultimately show ?thesis using gb g(2) \<open>u < c\<close> by force
  qed
qed

lemma Plan_returns:
  assumes "env_ok e"
  shows "\<exists>r. Plan e s now h = Some r"
proof -
  note total = Schedule_NextN_total [OF assms]
  show ?thesis
  proof (cases "Location (env_zones e) s")
    case loc: (Inr loc)
    show ?thesis
    proof (cases "Parse (env_parser e) (env_descriptorParser e) (s_cron s)")
      case (Inr sched)
      obtain fs where "Schedule_NextN (env_next e) sched loc (plan_after s now) MaxPlannedFireTimes
          = Some fs" using total by blast
      with loc Inr show ?thesis by (simp add: Plan_def Let_def)
    qed (simp add: Plan_def loc)
  qed (simp add: Plan_def)
qed

lemma Plan_SomeD:
  assumes "Plan e s now h = Some (Inr fs)"
  obtains loc sched cands where "Location (env_zones e) s = Inr loc"
    and "Parse (env_parser e) (env_descriptorParser e) (s_cron s) = Inr sched"
    and "Schedule_NextN (env_next e) sched loc (plan_after s now) 10000 = Some cands"
    and "fs = takeWhile (\<lambda>c. c \<le> now + h) cands"
  using assms
  by (auto simp: Plan_def Let_def up_to_takeWhile MaxPlannedFireTimes_def
      split: sum.splits option.splits)

section \<open>What the materializer relies on\<close>

definition key_held :: "Task list \<Rightarrow> string \<Rightarrow> string \<Rightarrow> bool" where
  "key_held rows q k \<longleftrightarrow> (\<exists>u \<in> set rows. t_queue u = q \<and> t_idempotency_key u = Some k)"

definition fire_held :: "Task list \<Rightarrow> Schedule \<Rightarrow> instant \<Rightarrow> bool" where
  "fire_held rows s f \<longleftrightarrow> key_held rows (s_queue s) (IdempotencyKeyFor (s_id s) f)"

lemma key_held_append: "key_held rows q k \<Longrightarrow> key_held (rows @ new) q k"
  by (auto simp: key_held_def)

text \<open>
  The store's side: rows are only ever added; a bulk insert that reports success leaves every
  key of its tasks held, and one whose keys are all held adds nothing, whatever it reports; the resume point of a schedule only moves forward, and reaches the
  point it is advanced to.
\<close>

locale materializer_store =
  fixes store :: "'st mat_store" and rows :: "'st \<Rightarrow> Task list"
    and resume :: "'st \<Rightarrow> int \<Rightarrow> instant option" and known :: "'st \<Rightarrow> int \<Rightarrow> bool"
    and ok :: "'st \<Rightarrow> bool"
  assumes bulk_ok: "ok st \<Longrightarrow> ok (fst (op_EnqueueBulk store st ts))"
    and bulk_extends: "\<exists>new. rows (fst (op_EnqueueBulk store st ts)) = rows st @ new"
    and bulk_holds: "op_EnqueueBulk store st ts = (st', Inr out) \<Longrightarrow> t \<in> set ts \<Longrightarrow>
      t_idempotency_key t = Some k \<Longrightarrow> key_held (rows st') (t_queue t) k"
    and bulk_repeats: "(\<And>t. t \<in> set ts \<Longrightarrow> \<exists>k. t_idempotency_key t = Some k
      \<and> key_held (rows st) (t_queue t) k) \<Longrightarrow> rows (fst (op_EnqueueBulk store st ts)) = rows st"
    and bulk_resume: "resume (fst (op_EnqueueBulk store st ts)) = resume st"
    and bulk_known: "known (fst (op_EnqueueBulk store st ts)) = known st"
    and advance_ok: "ok st \<Longrightarrow> ok (fst (op_AdvanceLastMaterializedAt store st i pt))"
    and advance_rows: "rows (fst (op_AdvanceLastMaterializedAt store st i pt)) = rows st"
    and advance_known: "known (fst (op_AdvanceLastMaterializedAt store st i pt)) = known st"
    and advance_forward: "resume st j = Some p \<Longrightarrow>
      \<exists>q \<ge> p. resume (fst (op_AdvanceLastMaterializedAt store st i pt)) j = Some q"
    and advance_reaches: "known st i \<Longrightarrow>
      op_AdvanceLastMaterializedAt store st i pt = (st', None) \<Longrightarrow>
      \<exists>q \<ge> pt. resume st' i = Some q"
    and list_reads: "op_ListEnabledSchedules store st = (st', r) \<Longrightarrow> st' = st"
    and list_known: "ok st \<Longrightarrow> op_ListEnabledSchedules store st = (st', Inr ss) \<Longrightarrow> s \<in> set ss \<Longrightarrow>
      s_enabled s \<and> known st (s_id s) \<and> resume st (s_id s) = s_last_materialized_at s"
begin

lemma materialize_extends: "\<exists>new. rows (fst (Materialize store st s fs)) = rows st @ new"
  using bulk_extends by (auto simp: Materialize_def)

lemma materialize_resume: "resume (fst (Materialize store st s fs)) = resume st"
  using bulk_resume by (simp add: Materialize_def)

lemma materialize_known: "known (fst (Materialize store st s fs)) = known st"
  using bulk_known by (simp add: Materialize_def)

lemma materialize_ok: "ok st \<Longrightarrow> ok (fst (Materialize store st s fs))"
  using bulk_ok by (simp add: Materialize_def)

lemma materialize_holds:
  assumes "Materialize store st s fs = (st', Inr out)" and "f \<in> set fs"
  shows "fire_held (rows st') s f"
  using assms bulk_holds [of st "map (TaskFor s) fs" st' out "TaskFor s f"]
  by (auto simp: Materialize_def fire_held_def TaskFor_def split: if_splits)

lemma materialize_again:
  assumes "\<And>f. f \<in> set fs \<Longrightarrow> fire_held (rows st) s f"
  shows "rows (fst (Materialize store st s fs)) = rows st"
proof -
  have "\<exists>k. t_idempotency_key t = Some k \<and> key_held (rows st) (t_queue t) k"
    if "t \<in> set (map (TaskFor s) fs)" for t
    using that assms by (auto simp: fire_held_def TaskFor_def)
  from bulk_repeats [of "map (TaskFor s) fs" st, OF this] show ?thesis by (auto simp: Materialize_def)
qed

text \<open>One schedule: its resume point stays, or all its fire times are held and recorded.\<close>

lemma materializeOne_cases:
  assumes "materializeOne e store h st now s = Some (st', err)"
  obtains (plan_failed) p where "Plan e s now h = Some (Inl p)" "st' = st" "err = Some (PlanFailed p)"
  | (nothing_due) "Plan e s now h = Some (Inr [])" "st' = st" "err = None"
  | (insert_failed) fs x where "Plan e s now h = Some (Inr fs)" "fs \<noteq> []" "err = Some (StoreFailed x)"
      "\<exists>new. rows st' = rows st @ new" "resume st' = resume st" "known st' = known st"
  | (inserted) fs st1 where "Plan e s now h = Some (Inr fs)" "fs \<noteq> []"
      "st1 = fst (Materialize store st s fs)" "\<And>f. f \<in> set fs \<Longrightarrow> fire_held (rows st1) s f"
      "op_AdvanceLastMaterializedAt store st1 (s_id s) (last fs) = (st', None) \<and> err = None
        \<or> (\<exists>x. op_AdvanceLastMaterializedAt store st1 (s_id s) (last fs) = (st', Some x)
          \<and> err = Some (StoreFailed x))"
proof (cases "Plan e s now h")
  case None
  then show ?thesis using assms by (simp add: materializeOne_def)
next
  case (Some r)
  show ?thesis
  proof (cases r)
    case (Inl p)
    then show ?thesis using plan_failed Some assms by (simp add: materializeOne_def)
  next
    case fs: (Inr fs)
    show ?thesis
    proof (cases "fs = []")
      case True
      then show ?thesis using nothing_due Some fs assms by (simp add: materializeOne_def)
    next
      case False
      obtain st1 res where m: "Materialize store st s fs = (st1, res)" by fastforce
      show ?thesis
      proof (cases res)
        case (Inl x)
        have "st' = st1" and err: "err = Some (StoreFailed x)"
          using assms Some fs False m Inl by (auto simp: materializeOne_def)
        moreover have "\<exists>new. rows st1 = rows st @ new"
          using m materialize_extends [of st s fs] by simp
        ultimately show ?thesis
          using insert_failed [OF _ False err] Some fs m materialize_resume [of st s fs]
            materialize_known [of st s fs] by simp
      next
        case (Inr out)
        obtain st2 x where adv: "op_AdvanceLastMaterializedAt store st1 (s_id s) (last fs) = (st2, x)"
          by fastforce
        then have "st' = st2" and "err = map_option StoreFailed x"
          using assms Some fs False m Inr by (auto simp: materializeOne_def)
        then show ?thesis
          using inserted [of fs st1] materialize_holds [OF m [unfolded Inr]] Some fs False m adv
          by (cases x) auto
      qed
    qed
  qed
qed

lemma materializeOne_frame:
  assumes "materializeOne e store h st now s = Some (st', err)"
  shows "\<exists>new. rows st' = rows st @ new" and "known st' = known st"
    and "resume st j = Some p \<Longrightarrow> \<exists>q \<ge> p. resume st' j = Some q"
proof -
  have "(\<exists>new. rows st' = rows st @ new) \<and> known st' = known st
      \<and> (resume st j = Some p \<longrightarrow> (\<exists>q \<ge> p. resume st' j = Some q))"
    using assms
  proof (cases rule: materializeOne_cases)
    case (inserted fs st1)
    have adv: "st' = fst (op_AdvanceLastMaterializedAt store st1 (s_id s) (last fs))"
      using inserted(5) by (metis fst_conv)
    have "resume st1 = resume st" and "known st1 = known st"
      by (simp_all add: inserted(3) materialize_resume materialize_known)
    then show ?thesis
      using adv advance_rows advance_known advance_forward materialize_extends [of st s fs] inserted(3)
      by metis
  qed auto
  then show "\<exists>new. rows st' = rows st @ new" and "known st' = known st"
    and "resume st j = Some p \<Longrightarrow> \<exists>q \<ge> p. resume st' j = Some q" by blast+
qed

lemma materializeOne_done:
  assumes "materializeOne e store h st now s = Some (st', None)" and "known st (s_id s)"
    and "Plan e s now h = Some (Inr fs)" and "f \<in> set fs"
  shows "fire_held (rows st') s f \<and> (\<exists>q \<ge> last fs. resume st' (s_id s) = Some q)"
  using assms(1)
proof (cases rule: materializeOne_cases)
  case (inserted fs' st1)
  have "fs' = fs" using inserted(1) assms(3) by simp
  have "known st1 (s_id s)" using assms(2) by (simp add: inserted(3) materialize_known)
  then have "\<exists>q \<ge> last fs. resume st' (s_id s) = Some q"
    using inserted(5) advance_reaches \<open>fs' = fs\<close> by blast
  moreover have "rows st' = rows st1"
    using inserted(5) advance_rows [of st1 "s_id s" "last fs'"] by (metis fst_conv)
  ultimately show ?thesis using inserted(4) assms(4) \<open>fs' = fs\<close> by simp
qed (use assms in auto)

text \<open>
  A pass: every schedule that is not logged has the fire times it planned held and its
  resume point at the last of them or beyond, whatever became of the others.
\<close>

lemma materialize_each_frame:
  "materialize_each e store h now st ss = Some (st', logs) \<Longrightarrow>
    (\<exists>new. rows st' = rows st @ new) \<and> known st' = known st
    \<and> (\<forall>j p. resume st j = Some p \<longrightarrow> (\<exists>q \<ge> p. resume st' j = Some q))"
proof (induction ss arbitrary: st logs)
  case (Cons s ss)
  obtain st1 err where one: "materializeOne e store h st now s = Some (st1, err)"
    using Cons.prems by (auto split: option.splits)
  obtain logs1 where rest: "materialize_each e store h now st1 ss = Some (st', logs1)"
    using Cons.prems one by (auto split: option.splits)
  note frame = materializeOne_frame [OF one]
  from Cons.IH [OF rest] frame(1,2)
  have "(\<exists>new. rows st' = rows st @ new) \<and> known st' = known st" by auto
  moreover have "\<exists>q \<ge> p. resume st' j = Some q" if "resume st j = Some p" for j p
    using frame(3) [OF that] Cons.IH [OF rest] by (meson order_trans)
  ultimately show ?case by blast
qed auto

lemma materialize_each_done:
  "materialize_each e store h now st ss = Some (st', logs) \<Longrightarrow>
    s \<in> set ss \<Longrightarrow> known st (s_id s) \<Longrightarrow> (\<And>x. ScheduleFailed (s_id s) x \<notin> set logs) \<Longrightarrow>
    Plan e s now h = Some (Inr fs) \<Longrightarrow> f \<in> set fs \<Longrightarrow>
    fire_held (rows st') s f \<and> (\<exists>q \<ge> last fs. resume st' (s_id s) = Some q)"
proof (induction ss arbitrary: st logs)
  case (Cons r ss)
  obtain st1 err where one: "materializeOne e store h st now r = Some (st1, err)"
    using Cons.prems(1) by (auto split: option.splits)
  obtain logs1 where rest: "materialize_each e store h now st1 ss = Some (st', logs1)"
    and logs: "logs = (case err of None \<Rightarrow> logs1 | Some x \<Rightarrow> ScheduleFailed (s_id r) x # logs1)"
    using Cons.prems(1) one by (auto split: option.splits)
  note frame = materializeOne_frame [OF one] and later = materialize_each_frame [OF rest]
  show ?case
  proof (cases "s \<in> set ss")
    case True
    have "\<And>x. ScheduleFailed (s_id s) x \<notin> set logs1"
      using Cons.prems(4) logs by (auto split: option.splits)
    moreover have "known st1 (s_id s)" using Cons.prems(3) frame(2) by simp
    ultimately show ?thesis using Cons.IH [OF rest True] Cons.prems(5,6) by blast
  next
    case False
    then have r: "r = s" using Cons.prems(2) by simp
    have "err = None" using Cons.prems(4) logs r by (auto split: option.splits)
    from materializeOne_done [OF one [unfolded this r] Cons.prems(3,5,6)]
    obtain q where held: "fire_held (rows st1) s f" and q: "last fs \<le> q" "resume st1 (s_id s) = Some q"
      by blast
    have "fire_held (rows st') s f"
      using held later key_held_append unfolding fire_held_def by metis
    moreover have "\<exists>q \<ge> last fs. resume st' (s_id s) = Some q"
      using later q by (meson order_trans)
    ultimately show ?thesis ..
  qed
qed simp

lemma materializeOne_returns:
  "env_ok e \<Longrightarrow> \<exists>res. materializeOne e store h st now s = Some res"
  using Plan_returns [of e s now h]
  by (auto simp: materializeOne_def split: sum.split prod.split)

lemma materialize_each_returns:
  "env_ok e \<Longrightarrow> \<exists>res. materialize_each e store h now st ss = Some res"
proof (induction ss arbitrary: st)
  case (Cons s ss)
  obtain st1 err where "materializeOne e store h st now s = Some (st1, err)"
    using materializeOne_returns [OF Cons.prems] by (metis prod.collapse)
  moreover obtain st2 logs where "materialize_each e store h now st1 ss = Some (st2, logs)"
    using Cons.IH [OF Cons.prems] by (metis prod.collapse)
  ultimately show ?case by simp
qed simp

lemma run_once:
  assumes "ok st" and "RunOnce e store r st now = Some (st', logs)"
    and "op_ListEnabledSchedules store st = (st1, Inr ss)" and "s \<in> set ss"
    and "\<And>x. ScheduleFailed (s_id s) x \<notin> set logs"
    and "Plan e s now (micros (r_horizon r)) = Some (Inr fs)" and "f \<in> set fs"
  shows "fire_held (rows st') s f \<and> (\<exists>q \<ge> last fs. resume st' (s_id s) = Some q)"
proof -
  have "st1 = st" using list_reads [OF assms(3)] .
  then have "materialize_each e store (micros (r_horizon r)) now st ss = Some (st', logs)"
    using assms(2,3) by (simp add: RunOnce_def)
  moreover have "known st (s_id s)" using list_known [OF assms(1,3,4)] by simp
  ultimately show ?thesis using assms(4-7) by (blast dest: materialize_each_done)
qed

lemma run_once_returns: "env_ok e \<Longrightarrow> \<exists>res. RunOnce e store r st now = Some res"
  using materialize_each_returns by (fastforce simp: RunOnce_def split: prod.split sum.split)

lemma run_returns: "env_ok e \<Longrightarrow> \<exists>res. Run e store r st ticks = Some res"
proof (induction ticks arbitrary: st)
  case (Cons tick ticks)
  obtain wait now where tick: "tick = (wait, now)" by (cases tick)
  obtain st1 logs where "RunOnce e store r (wait st) now = Some (st1, logs)"
    using run_once_returns [OF Cons.prems] by (metis prod.collapse)
  moreover obtain st2 logs' where "Run e store r st1 ticks = Some (st2, logs')"
    using Cons.IH [OF Cons.prems] by (metis prod.collapse)
  ultimately show ?case by (simp add: tick)
qed simp

end

end
