(* ===== verification/Store_Faults.thy ===== *)
theory Store_Faults
  imports Lifecycle Queue_Stats Go_Text
begin

text \<open>
  The methods of internal/store/postgres over a connection that may fail. The other theories
  of the store say what each statement does on the server; here every statement is a round
  trip that may be lost, before the server ran it or after, and each method wraps the
  driver's error the way its Go code does. A context that ends during a call is such a loss
  too. Whatever is lost, the database only ever takes steps of the fault-free methods, so
  every invariant of theirs holds over failing connections; and a submission that is
  retried under its idempotency key is stored once.
\<close>

section \<open>Round trips\<close>

text \<open>
  What becomes of one statement: it runs and its result arrives; or the driver reports an
  error, and the statement did not run (a refused connection, a context that was done) or
  did (the connection broke before the result arrived).
\<close>

datatype fault = Fine | LostBefore string | LostAfter string

definition round_trip :: "fault \<Rightarrow> 'st \<Rightarrow> 'st \<times> 'a \<Rightarrow> 'st \<times> (string + 'a)" where
  "round_trip f st r =
    (case f of
       Fine \<Rightarrow> (fst r, Inr (snd r))
     | LostBefore e \<Rightarrow> (st, Inl e)
     | LostAfter e \<Rightarrow> (fst r, Inl e))"

text \<open>fmt.Errorf with its %w verb last.\<close>

definition wrapped :: "string \<Rightarrow> string \<Rightarrow> StoreErr" where
  "wrapped doing e = ErrWrapped (doing @ '': '' @ e)"

definition call :: "string \<Rightarrow> fault \<Rightarrow> 'st \<Rightarrow> 'st \<times> 'a \<Rightarrow> 'st \<times> (StoreErr + 'a)" where
  "call doing f st r =
    (case round_trip f st r of
       (st', Inl e) \<Rightarrow> (st', Inl (wrapped doing e))
     | (st', Inr x) \<Rightarrow> (st', Inr x))"

text \<open>A statement that only reads: it does not matter whether it ran.\<close>

definition read_call :: "string \<Rightarrow> string option \<Rightarrow> 'a \<Rightarrow> StoreErr + 'a" where
  "read_call doing f x = (case f of Some e \<Rightarrow> Inl (wrapped doing e) | None \<Rightarrow> Inr x)"

section \<open>The worker's methods\<close>

text \<open>The rows of a claim are read one by one after the query was sent.\<close>

definition net_Claim :: "fault \<Rightarrow> fault \<Rightarrow> db \<Rightarrow> int list \<Rightarrow> string \<Rightarrow> string \<Rightarrow> nat
    \<Rightarrow> db \<times> (StoreErr + Task list)" where
  "net_Claim query rows d locked queue workerID limit =
    (case call ''claiming tasks'' query d (Claim d locked queue workerID limit) of
       (d', Inl err) \<Rightarrow> (d', Inl err)
     | (d', Inr claimed) \<Rightarrow> call ''iterating claimed tasks'' rows d (d', claimed))"

definition net_Heartbeat :: "fault \<Rightarrow> db \<Rightarrow> int list \<Rightarrow> string \<Rightarrow> db \<times> (StoreErr + nat)" where
  "net_Heartbeat f d ids workerID =
    (if ids = [] then (d, Inr 0)
     else call (''sending heartbeat for worker '' @ quote workerID) f d (Heartbeat d ids workerID))"

text \<open>Complete and Fail look at the number of rows once the statement's result is there.\<close>

definition net_Complete :: "fault \<Rightarrow> db \<Rightarrow> int \<Rightarrow> string \<Rightarrow> db \<times> StoreErr option" where
  "net_Complete f d i workerID =
    (case call (''completing task '' @ Itoa i) f d (Complete d i workerID) of
       (d', Inl err) \<Rightarrow> (d', Some err)
     | (d', Inr r) \<Rightarrow> (d', r))"

definition net_Fail :: "fault \<Rightarrow> real \<Rightarrow> db \<Rightarrow> int \<Rightarrow> string \<Rightarrow> string option \<Rightarrow> db \<times> StoreErr option" where
  "net_Fail f random d i workerID execErr =
    (case call (''failing task '' @ Itoa i) f d (Fail random d i workerID execErr) of
       (d', Inl err) \<Rightarrow> (d', Some err)
     | (d', Inr r) \<Rightarrow> (d', r))"

definition net_RecoverOrphans :: "fault \<Rightarrow> db \<Rightarrow> db \<times> (StoreErr + nat)" where
  "net_RecoverOrphans f d = call ''recovering orphaned tasks'' f d (RecoverOrphans d)"

section \<open>Inspection\<close>

definition net_Get :: "string option \<Rightarrow> db \<Rightarrow> int \<Rightarrow> StoreErr + Task" where
  "net_Get f d i =
    (case f of Some e \<Rightarrow> Inl (wrapped (''getting task '' @ Itoa i) e) | None \<Rightarrow> Get d i)"

text \<open>Cancel sends its update, and a second statement when that matched no row.\<close>

definition net_Cancel :: "fault \<Rightarrow> string option \<Rightarrow> db \<Rightarrow> int \<Rightarrow> db \<times> StoreErr option" where
  "net_Cancel f g d i =
    (case call (''cancelling task '' @ Itoa i) f d
            (update_tasks (cancel_where i) cancel_row d, rows_affected (cancel_where i) (tasks d)) of
       (d', Inl err) \<Rightarrow> (d', Some err)
     | (d', Inr n) \<Rightarrow>
         if 0 < n then (d', None)
         else (case net_Get g d' i of
                 Inl err \<Rightarrow> (d', Some err)
               | Inr _ \<Rightarrow> (d', Some ErrNotCancellable)))"

definition net_QueueStats :: "string option \<Rightarrow> db \<Rightarrow> string \<Rightarrow> StoreErr + StoreQueueStats" where
  "net_QueueStats f d queue =
    read_call (''getting queue stats for '' @ quote queue) f (QueueStats d queue)"

section \<open>Submissions\<close>

text \<open>The insert, and the lookup of the row that made it skip.\<close>

definition net_Enqueue :: "fault \<Rightarrow> string option \<Rightarrow> db \<Rightarrow> Task \<Rightarrow> db \<times> Task option \<times> StoreErr option" where
  "net_Enqueue f g d t =
    (case round_trip f d (enqueue_args d t) of
       (d', Inl e) \<Rightarrow> (d', None, Some (wrapped ''enqueuing task'' e))
     | (d', Inr (Inr (Some inserted))) \<Rightarrow> (d', Some inserted, None)
     | (d', Inr (Inl e)) \<Rightarrow> (d', None, Some (ErrWrapped ''enqueuing task''))
     | (d', Inr (Inr None)) \<Rightarrow>
         (case t_idempotency_key t of
            None \<Rightarrow> (d', None, Some (ErrWrapped ''enqueuing task''))
          | Some key \<Rightarrow>
              (case g of
                 Some e \<Rightarrow> (d', None, Some (wrapped ''resolving duplicate idempotency key'' e))
               | None \<Rightarrow>
                   (case selectByIdempotencyKeySQL d' (t_queue t) key of
                      None \<Rightarrow> (d', None, Some (ErrWrapped ''resolving duplicate idempotency key''))
                    | Some existing \<Rightarrow> (d', Some existing, Some ErrDuplicateIdempotencyKey)))))"

text \<open>
  Where a bulk submission may fail: beginning its transaction, reading the result of an
  insert (the server may have run some more of the batch by then), closing the batch,
  looking up a duplicate, committing. A commit whose answer is lost may have happened.
\<close>

record bulk_faults =
  bf_begin :: "string option"
  bf_row :: "nat \<Rightarrow> (string \<times> nat) option"
  bf_close :: "string option"
  bf_select :: "nat \<Rightarrow> string option"
  bf_commit :: fault

definition no_bulk_faults :: bulk_faults where
  "no_bulk_faults =
    \<lparr>bf_begin = None, bf_row = (\<lambda>_. None), bf_close = None, bf_select = (\<lambda>_. None), bf_commit = Fine\<rparr>"

fun net_send_batch :: "(nat \<Rightarrow> (string \<times> nat) option) \<Rightarrow> nat \<Rightarrow> db \<Rightarrow> Task list
    \<Rightarrow> db \<times> (StoreErr + Task option list)" where
  "net_send_batch f i d [] = (d, Inr [])"
| "net_send_batch f i d (t # ts) =
    (case f i of
       Some (e, sent) \<Rightarrow>
         (fst (send_batch d (take sent (t # ts))), Inl (wrapped (''bulk enqueuing task '' @ show_nat i) e))
     | None \<Rightarrow>
         (case enqueue_args d t of
            (d', Inl e) \<Rightarrow> (d', Inl (ErrWrapped ''bulk enqueuing task''))
          | (d', Inr row) \<Rightarrow>
              if row = None \<and> t_idempotency_key t = None
              then (d', Inl (ErrWrapped ''bulk enqueuing task''))
              else (case net_send_batch f (i + 1) d' ts of
                      (d'', Inl err) \<Rightarrow> (d'', Inl err)
                    | (d'', Inr rows) \<Rightarrow> (d'', Inr (row # rows)))))"

fun net_resolve :: "(nat \<Rightarrow> string option) \<Rightarrow> nat \<Rightarrow> db \<Rightarrow> Task list \<Rightarrow> Task option list
    \<Rightarrow> StoreErr + Task list" where
  "net_resolve f i d (t # ts) (row # rows) =
    (case (case row of
             Some r \<Rightarrow> Inr r
           | None \<Rightarrow>
               (case f i of
                  Some e \<Rightarrow> Inl (wrapped (''resolving duplicate idempotency key for task '' @ show_nat i) e)
                | None \<Rightarrow>
                    (case Option.bind (t_idempotency_key t) (selectByIdempotencyKeySQL d (t_queue t)) of
                       None \<Rightarrow> Inl (ErrWrapped ''resolving duplicate idempotency key for task'')
                     | Some r \<Rightarrow> Inr r))) of
       Inl err \<Rightarrow> Inl err
     | Inr r \<Rightarrow> (case net_resolve f (i + 1) d ts rows of
                     Inl err \<Rightarrow> Inl err
                   | Inr out \<Rightarrow> Inr (r # out)))"
| "net_resolve f i d _ _ = Inr []"

definition net_EnqueueBulk :: "bulk_faults \<Rightarrow> db \<Rightarrow> Task list \<Rightarrow> db \<times> (StoreErr + Task list)" where
  "net_EnqueueBulk bf d ts =
    (if ts = [] then (d, Inr [])
     else case bf_begin bf of
       Some e \<Rightarrow> (d, Inl (wrapped ''beginning bulk enqueue transaction'' e))
     | None \<Rightarrow>
         (case net_send_batch (bf_row bf) 0 d ts of
            (d', Inl err) \<Rightarrow> (rollback d d', Inl err)
          | (d', Inr rows) \<Rightarrow>
              (case bf_close bf of
                 Some e \<Rightarrow> (rollback d d', Inl (wrapped ''closing bulk enqueue batch'' e))
               | None \<Rightarrow>
                   (case net_resolve (bf_select bf) 0 d' ts rows of
                      Inl err \<Rightarrow> (rollback d d', Inl err)
                    | Inr out \<Rightarrow>
                        call ''committing bulk enqueue'' (bf_commit bf) (rollback d d') (d', out)))))"

section \<open>Schedules\<close>

definition net_CreateSchedule :: "fault \<Rightarrow> db \<Rightarrow> Schedule \<Rightarrow> db \<times> (StoreErr + Schedule)" where
  "net_CreateSchedule f d sc =
    (case call ''creating schedule'' f d (CreateSchedule d sc) of
       (d', Inl err) \<Rightarrow> (d', Inl err)
     | (d', Inr r) \<Rightarrow> (d', r))"

definition net_GetSchedule :: "string option \<Rightarrow> db \<Rightarrow> int \<Rightarrow> StoreErr + Schedule" where
  "net_GetSchedule f d i =
    (case f of Some e \<Rightarrow> Inl (wrapped (''getting schedule '' @ Itoa i) e) | None \<Rightarrow> GetSchedule d i)"

definition collectSchedules :: "string option \<Rightarrow> Schedule list \<Rightarrow> StoreErr + Schedule list" where
  "collectSchedules rows out = read_call ''reading schedules'' rows out"

definition net_ListSchedules :: "string option \<Rightarrow> string option \<Rightarrow> db \<Rightarrow> StoreErr + Schedule list" where
  "net_ListSchedules query rows d =
    (case read_call ''listing schedules'' query (ListSchedules d) of
       Inl err \<Rightarrow> Inl err
     | Inr out \<Rightarrow> collectSchedules rows out)"

definition net_ListEnabledSchedules :: "string option \<Rightarrow> string option \<Rightarrow> db \<Rightarrow> StoreErr + Schedule list" where
  "net_ListEnabledSchedules query rows d =
    (case read_call ''listing enabled schedules'' query (ListEnabledSchedules d) of
       Inl err \<Rightarrow> Inl err
     | Inr out \<Rightarrow> collectSchedules rows out)"

definition net_SetScheduleEnabled :: "fault \<Rightarrow> db \<Rightarrow> int \<Rightarrow> bool \<Rightarrow> db \<times> (StoreErr + Schedule)" where
  "net_SetScheduleEnabled f d i enabled =
    (case call (''setting schedule '' @ Itoa i @ '' enabled='' @ (if enabled then ''true'' else ''false'')) f d
            (SetScheduleEnabled d i enabled) of
       (d', Inl err) \<Rightarrow> (d', Inl err)
     | (d', Inr r) \<Rightarrow> (d', r))"

definition net_AdvanceLastMaterializedAt :: "fault \<Rightarrow> db \<Rightarrow> int \<Rightarrow> instant \<Rightarrow> db \<times> StoreErr option" where
  "net_AdvanceLastMaterializedAt f d scheduleID pt =
    (case call (''advancing last_materialized_at for schedule '' @ Itoa scheduleID) f d
            (AdvanceLastMaterializedAt d scheduleID pt, ()) of
       (d', Inl err) \<Rightarrow> (d', Some err)
     | (d', Inr _) \<Rightarrow> (d', None))"

section \<open>Without a fault the methods are those of the server\<close>

lemma call_Fine [simp]: "call doing Fine st r = (fst r, Inr (snd r))"
  by (simp add: call_def round_trip_def)

lemma call_state: "fst (call doing f st r) = st \<or> fst (call doing f st r) = fst r"
  by (simp add: call_def round_trip_def split: fault.split)

lemma call_Inr: "call doing f st r = (st', Inr x) \<Longrightarrow> f = Fine \<and> r = (st', x)"
  by (cases f) (auto simp: call_def round_trip_def)

lemma net_Enqueue_Fine: "net_Enqueue Fine None d t = Enqueue d t"
  by (cases "enqueue_args d t")
    (simp add: net_Enqueue_def Enqueue_def enqueueOne_def round_trip_def split: sum.split option.split)

lemma net_Cancel_Fine: "net_Cancel Fine None d i = Cancel d i"
  by (simp add: net_Cancel_def Cancel_def net_Get_def Let_def)

lemma net_send_batch_none: "net_send_batch (\<lambda>_. None) i d ts = send_batch d ts"
  by (induction ts arbitrary: i d) (simp_all split: prod.split sum.split)

lemma net_resolve_none: "net_resolve (\<lambda>_. None) i d ts rows = resolve_duplicates d ts rows"
  by (induction d ts rows arbitrary: i rule: resolve_duplicates.induct)
    (simp_all split: option.split sum.split)

lemma net_EnqueueBulk_Fine: "net_EnqueueBulk no_bulk_faults d ts = EnqueueBulk d ts"
  by (simp add: net_EnqueueBulk_def no_bulk_faults_def EnqueueBulk_def net_send_batch_none
      net_resolve_none split: prod.split sum.split)

section \<open>Over a failing connection the database takes only steps of the store\<close>

lemma call_runs: "runs_to d (fst r) \<Longrightarrow> runs_to d (fst (call doing f d r))"
  using call_state [of doing f d r] runs_to_refl [of d] by metis

lemma method_runs:
  "runs_to d (fst (Enqueue d t))" "runs_to d (fst (EnqueueBulk d ts))"
  "runs_to d (fst (Claim d locked q w n))" "runs_to d (fst (Heartbeat d ids w))"
  "runs_to d (fst (Complete d i w))" "runs_to d (fst (Fail random d i w err))"
  "runs_to d (fst (RecoverOrphans d))" "runs_to d (fst (Cancel d i))"
  "runs_to d (fst (CreateSchedule d sc))" "runs_to d (fst (SetScheduleEnabled d i b))"
  "runs_to d (AdvanceLastMaterializedAt d i pt)"
  by (rule runs_to_step, rule store_step.intros, rule surjective_pairing)+
    (rule runs_to_step, rule store_step.advance_resume_point)

lemma net_Claim_state:
  "fst (net_Claim fq fr d locked q w n) = d
    \<or> fst (net_Claim fq fr d locked q w n) = fst (Claim d locked q w n)"
  by (cases fq; cases fr) (simp_all add: net_Claim_def call_def round_trip_def)

lemma net_Enqueue_state: "fst (net_Enqueue f g d t) = d \<or> fst (net_Enqueue f g d t) = fst (Enqueue d t)"
  by (cases f; cases "enqueue_args d t")
    (auto simp: net_Enqueue_def round_trip_def Enqueue_def enqueueOne_fst split: sum.split option.split)

lemma net_Cancel_state: "fst (net_Cancel f g d i) = d \<or> fst (net_Cancel f g d i) = fst (Cancel d i)"
  by (cases f) (auto simp: net_Cancel_def call_def round_trip_def Cancel_fst split: sum.split)

text \<open>A batch that was read to its end is the fault-free one, and so is its resolution.\<close>

lemma net_send_batch_Inr: "net_send_batch f i d ts = (d', Inr rows) \<Longrightarrow> send_batch d ts = (d', Inr rows)"
proof (induction ts arbitrary: i d rows)
  case (Cons t ts)
  then show ?case
    by (cases "f i"; cases "enqueue_args d t") (auto split: prod.splits sum.splits if_splits)
qed simp

lemma net_send_batch_spends: "next_task_id d \<le> next_task_id (fst (net_send_batch f i d ts))"
proof (induction ts arbitrary: i d)
  case (Cons t ts)
  obtain d1 r1 where one: "enqueue_args d t = (d1, r1)" by fastforce
  have "next_task_id d \<le> next_task_id (fst (send_batch d us))" for us
    using send_batch_frame [OF surjective_pairing, of d us] by blast
  then show ?case
    using Cons.IH [of d1 "i + 1"] enqueue_args_frame(4) [OF one] one
    by (auto split: prod.split sum.split option.split)
qed simp

lemma net_resolve_Inr: "net_resolve f i d ts rows = Inr out \<Longrightarrow> resolve_duplicates d ts rows = Inr out"
proof (induction d ts rows arbitrary: i out rule: resolve_duplicates.induct)
  case (1 d t ts row rows)
  then show ?case by (auto split: option.splits sum.splits simp: bind_eq_Some_conv)
qed simp_all

text \<open>A bulk submission over a failing connection: nothing but spent ids, or all of it.\<close>

lemma net_EnqueueBulk_cases:
  obtains (lost) n err where "net_EnqueueBulk bf d ts = (d\<lparr>next_task_id := n\<rparr>, Inl err)"
      "next_task_id d \<le> n"
  | (unheard) d' out err where "net_EnqueueBulk bf d ts = (d', Inl err)" "EnqueueBulk d ts = (d', Inr out)"
  | (answered) d' out where "net_EnqueueBulk bf d ts = (d', Inr out)" "EnqueueBulk d ts = (d', Inr out)"
proof (cases "ts = []")
  case True
  then show thesis using answered by (simp add: net_EnqueueBulk_def EnqueueBulk_def)
next
  case nonempty: False
  obtain d' r where batch: "net_send_batch (bf_row bf) 0 d ts = (d', r)" by fastforce
  have spent: "next_task_id d \<le> next_task_id d'"
    using net_send_batch_spends [of d "bf_row bf" 0 ts] by (simp add: batch)
  note simps = net_EnqueueBulk_def nonempty batch rollback_def
  show thesis
  proof (cases "bf_begin bf")
    case (Some e)
    then show thesis using lost [of "next_task_id d"] by (simp add: simps)
  next
    case begun: None
    show thesis
    proof (cases r)
      case (Inl err)
      then show thesis using lost [OF _ spent] begun by (simp add: simps)
    next
      case (Inr rows)
      have sent: "send_batch d ts = (d', Inr rows)"
        using net_send_batch_Inr batch Inr by simp
      show thesis
      proof (cases "bf_close bf")
        case (Some e)
        then show thesis using lost [OF _ spent] begun Inr by (simp add: simps)
      next
        case closed: None
        show thesis
        proof (cases "net_resolve (bf_select bf) 0 d' ts rows")
          case (Inl err)
          then show thesis using lost [OF _ spent] begun closed \<open>r = Inr rows\<close> by (simp add: simps)
        next
          case res: (Inr out)
          have bulk: "EnqueueBulk d ts = (d', Inr out)"
            using nonempty sent net_resolve_Inr [OF res] by (simp add: EnqueueBulk_def)
          have "net_EnqueueBulk bf d ts
              = call ''committing bulk enqueue'' (bf_commit bf) (rollback d d') (d', out)"
            using begun closed res Inr by (simp add: simps)
          then show thesis
            using lost [OF _ spent] unheard [OF _ bulk] answered [OF _ bulk]
            by (cases "bf_commit bf") (simp_all add: call_def round_trip_def rollback_def)
        qed
      qed
    qed
  qed
qed

lemma fst_case_result:
  "fst (case x of (d', Inl err) \<Rightarrow> (d', a err) | (d', Inr r) \<Rightarrow> (d', b r)) = fst x"
  by (simp split: prod.split sum.split)

lemma net_runs:
  "runs_to d (fst (net_Claim fq fr d locked q w n))"
  "runs_to d (fst (net_Heartbeat f d ids w))"
  "runs_to d (fst (net_Complete f d i w))"
  "runs_to d (fst (net_Fail f random d i w err))"
  "runs_to d (fst (net_RecoverOrphans f d))"
  "runs_to d (fst (net_Cancel f g d i))"
  "runs_to d (fst (net_Enqueue f g d t))"
  "runs_to d (fst (net_CreateSchedule f d sc))"
  "runs_to d (fst (net_SetScheduleEnabled f d i b))"
  "runs_to d (fst (net_AdvanceLastMaterializedAt f d i pt))"
  subgoal using net_Claim_state method_runs(3) runs_to_refl by metis
  subgoal by (simp add: net_Heartbeat_def runs_to_refl call_runs method_runs)
  subgoal by (simp add: net_Complete_def fst_case_result call_runs method_runs)
  subgoal by (simp add: net_Fail_def fst_case_result call_runs method_runs)
  subgoal by (simp add: net_RecoverOrphans_def call_runs method_runs)
  subgoal using net_Cancel_state method_runs(8) runs_to_refl by metis
  subgoal using net_Enqueue_state method_runs(1) runs_to_refl by metis
  subgoal by (simp add: net_CreateSchedule_def fst_case_result call_runs method_runs)
  subgoal by (simp add: net_SetScheduleEnabled_def fst_case_result call_runs method_runs)
  subgoal by (simp add: net_AdvanceLastMaterializedAt_def fst_case_result call_runs method_runs)
  done

lemma net_EnqueueBulk_runs: "runs_to d (fst (net_EnqueueBulk bf d ts))"
proof (cases rule: net_EnqueueBulk_cases [where bf = bf and d = d and ts = ts])
  case (lost n err)
  then show ?thesis by (simp add: runs_to_spend)
next
  case (unheard d' out err)
  then show ?thesis using method_runs(2) [of d ts] by simp
next
  case (answered d' out)
  then show ?thesis using method_runs(2) [of d ts] by simp
qed

section \<open>Retried submissions\<close>

text \<open>
  A client that submits a task again after each answer it got or missed: before a try any
  other node may have worked, and the try's two statements may be lost. The results are what
  each try returned.
\<close>

fun submit_retrying :: "((db \<Rightarrow> db) \<times> fault \<times> string option) list \<Rightarrow> db \<Rightarrow> Task
    \<Rightarrow> db \<times> (Task option \<times> StoreErr option) list" where
  "submit_retrying [] d t = (d, [])"
| "submit_retrying ((wait, f, g) # tries) d t =
    (let (d1, r) = net_Enqueue f g (wait d) t; (d2, rs) = submit_retrying tries d1 t in (d2, r # rs))"

definition stored_as :: "db \<Rightarrow> Task \<Rightarrow> int \<Rightarrow> bool" where
  "stored_as d t i \<longleftrightarrow> (\<exists>row. task_by_id d i = Some row \<and> same_idempotency_key t row)"

lemma stored_as_runs: "runs_to d d' \<Longrightarrow> reachable d \<Longrightarrow> stored_as d t i \<Longrightarrow> stored_as d' t i"
  unfolding runs_to_def stored_as_def same_idempotency_key_def
  using store_run_keeps [OF _ reachable_inv] by metis

lemma stored_as_unique:
  assumes "reachable d" and "stored_as d t i" and "stored_as d t j"
  shows "i = j"
proof -
  have inv: "db_inv d" by (rule reachable_inv [OF assms(1)])
  from assms(2,3) obtain u v where "u \<in> set (tasks d)" "t_id u = i" "v \<in> set (tasks d)" "t_id v = j"
    "same_idempotency_key u v"
    unfolding stored_as_def same_idempotency_key_def by (metis task_by_id_SomeD)
  then show ?thesis using db_inv_keys [OF inv] unfolding keys_unique_def by blast
qed

lemma key_taken_stored: "db_inv d \<Longrightarrow> key_taken d t \<longleftrightarrow> (\<exists>i. stored_as d t i)"
  unfolding key_taken_def stored_as_def using task_by_id_iff by blast

text \<open>A try that returns a task has it stored, and created it only if it was not there before.\<close>

lemma net_Enqueue_answers:
  assumes "reachable d" and "t_idempotency_key t = Some k" and "net_Enqueue f g d t = (d', Some u, err)"
  shows "stored_as d' t (t_id u)" and "err = None \<Longrightarrow> \<not> key_taken d t"
proof -
  have Fine: "f = Fine" using assms(3) by (cases f) (auto simp: net_Enqueue_def round_trip_def)
  have "Enqueue d t = (d', Some u, err)"
    using assms(3) net_Enqueue_Fine [of d t] unfolding Fine
    by (cases "enqueue_args d t"; cases g)
      (auto simp: net_Enqueue_def round_trip_def split: sum.splits option.splits)
  then have enq: "Enqueue d t = (d', Some u, err)" .
  have inv: "db_inv d'"
    using Enqueue_inv [OF reachable_inv [OF assms(1)], of t] enq by simp
  have "u \<in> set (tasks d') \<and> same_idempotency_key t u \<and> (err = None \<longrightarrow> \<not> key_taken d t)"
  proof (cases rule: Enqueue_cases [where d = d and t = t])
    case created
    then show ?thesis using enq assms(2) by (auto simp: same_idempotency_key_def)
  qed (use enq in auto)
  then show "stored_as d' t (t_id u)" and "err = None \<Longrightarrow> \<not> key_taken d t"
    using task_by_id_iff [OF inv] by (auto simp: stored_as_def)
qed

definition others_only :: "((db \<Rightarrow> db) \<times> fault \<times> string option) list \<Rightarrow> bool" where
  "others_only tries \<longleftrightarrow> (\<forall>(wait, _) \<in> set tries. \<forall>d. reachable d \<longrightarrow> runs_to d (wait d))"

lemma submit_retrying_runs:
  "reachable d \<Longrightarrow> others_only tries \<Longrightarrow> submit_retrying tries d t = (d', rs) \<Longrightarrow> runs_to d d'"
proof (induction tries arbitrary: d rs)
  case (Cons a tries)
  obtain wait f g where a: "a = (wait, f, g)" by (cases a)
  have one: "runs_to d (wait d)" using Cons.prems(1,2) by (auto simp: a others_only_def)
  then have two: "runs_to d (fst (net_Enqueue f g (wait d) t))"
    using net_runs(7) runs_to_trans by blast
  from Cons.IH [OF runs_to_reachable [OF two Cons.prems(1)]] Cons.prems(2,3) show ?case
    using runs_to_trans [OF two] by (auto simp: a others_only_def Let_def split: prod.splits)
qed (simp add: runs_to_refl)

lemma submit_retrying_once:
  assumes "t_idempotency_key t = Some k"
  shows "reachable d \<Longrightarrow> others_only tries \<Longrightarrow> submit_retrying tries d t = (d', rs) \<Longrightarrow>
    (\<forall>u err. (Some u, err) \<in> set rs \<longrightarrow> stored_as d' t (t_id u))
    \<and> length (filter (\<lambda>(u, err). u \<noteq> None \<and> err = None) rs) \<le> (if key_taken d t then 0 else 1)"
proof (induction tries arbitrary: d rs)
  case (Cons a tries)
  obtain wait f g where a: "a = (wait, f, g)" by (cases a)
  obtain d1 u err where one: "net_Enqueue f g (wait d) t = (d1, u, err)" by (metis prod_cases3)
  obtain rs' where rest: "submit_retrying tries d1 t = (d', rs')" and rs: "rs = (u, err) # rs'"
    using Cons.prems(3) one by (auto simp: a Let_def split: prod.splits)
  have wait: "runs_to d (wait d)" and others: "others_only tries"
    using Cons.prems(1,2) by (auto simp: a others_only_def)
  have reach: "reachable (wait d)" "reachable d1"
    using runs_to_reachable [OF wait Cons.prems(1)] runs_to_reachable [OF net_runs(7) [of "wait d" f g t]]
    by (simp_all add: one)
  have taken: "key_taken d t \<Longrightarrow> key_taken (wait d) t"
    using stored_as_runs [OF wait Cons.prems(1)] key_taken_stored [OF reachable_inv [OF Cons.prems(1)]]
      key_taken_stored [OF reachable_inv [OF reach(1)]] by blast
  note IH = Cons.IH [OF reach(2) others rest]
  have end_: "runs_to d1 d'" by (rule submit_retrying_runs [OF reach(2) others rest])
  show ?case
  proof (cases u)
    case None
    have "runs_to (wait d) d1" using net_runs(7) [of "wait d" f g t] by (simp add: one)
    then have "key_taken (wait d) t \<Longrightarrow> key_taken d1 t"
      using stored_as_runs [OF _ reach(1)] key_taken_stored [OF reachable_inv [OF reach(1)]]
        key_taken_stored [OF reachable_inv [OF reach(2)]] by blast
    then show ?thesis using IH taken by (auto simp: rs None split: if_splits)
  next
    case (Some v)
    note v = net_Enqueue_answers [OF reach(1) assms one [unfolded Some]]
    then have "key_taken d1 t" using key_taken_stored [OF reachable_inv [OF reach(2)]] by blast
    then show ?thesis
      using IH v stored_as_runs [OF end_ reach(2) v(1)] taken by (auto simp: rs Some)
  qed
qed simp

text \<open>
  C13. However often a client submits a task under one idempotency key, whatever other nodes
  do meanwhile and wherever the connection fails, before a statement or after it: the queue
  holds at most one task under the key, every try that returns a task returns that one, and
  at most one of them reports it as newly created. A valid submission has it stored once a
  try meets no fault.
\<close>

theorem retried_submission_is_stored_once:
  assumes "reachable d" and "t_idempotency_key t = Some k" and "others_only tries"
    and "submit_retrying tries d t = (d', rs)"
  shows "card {u \<in> set (tasks d'). t_queue u = t_queue t \<and> t_idempotency_key u = Some k} \<le> 1
    \<and> (\<forall>u err. (Some u, err) \<in> set rs \<longrightarrow>
        (\<exists>row \<in> set (tasks d'). t_id row = t_id u \<and> t_queue row = t_queue t \<and> t_idempotency_key row = Some k))
    \<and> length (filter (\<lambda>(u, err). u \<noteq> None \<and> err = None) rs) \<le> 1
    \<and> (tries \<noteq> [] \<longrightarrow> snd (last tries) = (Fine, None) \<longrightarrow> args_ok d t \<longrightarrow> t_schedule_id t = None \<longrightarrow>
        fst (last rs) \<noteq> None)"
proof (intro conjI impI allI)
  have reach: "reachable d'"
    by (rule runs_to_reachable [OF submit_retrying_runs [OF assms(1,3,4)] assms(1)])
  note inv = reachable_inv [OF reach]
  let ?H = "{u \<in> set (tasks d'). t_queue u = t_queue t \<and> t_idempotency_key u = Some k}"
  have "stored_as d' t (t_id u)" if "u \<in> ?H" for u
    using that assms(2) task_by_id_iff [OF inv, of "t_id u" u]
    by (auto simp: stored_as_def same_idempotency_key_def)
  then have "\<forall>u \<in> ?H. \<forall>v \<in> ?H. u = v"
    using stored_as_unique [OF reach] distinct_key_eq [OF db_inv_ids [OF inv]] by blast
  then show "card ?H \<le> 1" using card_le_Suc0_iff_eq [of ?H] by simp
  note once = submit_retrying_once [OF assms(2,1,3,4)]
  then show "length (filter (\<lambda>(u, err). u \<noteq> None \<and> err = None) rs) \<le> 1" by (auto split: if_splits)
  show "\<exists>row \<in> set (tasks d'). t_id row = t_id u \<and> t_queue row = t_queue t \<and> t_idempotency_key row = Some k"
    if "(Some u, err) \<in> set rs" for u err
    using that once assms(2) unfolding stored_as_def same_idempotency_key_def
    by (metis task_by_id_SomeD)
next
  assume "tries \<noteq> []" and fine: "snd (last tries) = (Fine, None)" and ok: "args_ok d t" "t_schedule_id t = None"
  obtain wait where tries: "tries = butlast tries @ [(wait, Fine, None)]"
    using \<open>tries \<noteq> []\<close> fine by (metis append_butlast_last_id prod.collapse)
  have split: "submit_retrying (a @ b) d t = (let (d1, r1) = submit_retrying a d t;
      (d2, r2) = submit_retrying b d1 t in (d2, r1 @ r2))" for a b d
    by (induction a arbitrary: d) (auto simp: Let_def split: prod.split)
  have "args_ok d1 t" for d1
    using ok by (simp add: args_ok_def tasks_schedule_id_fkey_def)
  then have "u \<noteq> None" if "Enqueue d1 t = (d2, u, err)" for d1 d2 u err
    using that by (cases rule: Enqueue_cases [where d = d1 and t = t]) (auto dest: sym [of "Some _"])
  then show "fst (last rs) \<noteq> None"
    using assms(4) by (subst (asm) tries) (auto simp: split Let_def net_Enqueue_Fine split: prod.splits)
qed

lemma retried_submission_is_stored_once_witness:
  "let (d, rs) = submit_retrying [(id, LostAfter ''broken pipe'', None), (id, Fine, None)] (empty_db 1000) sample_task
   in length (filter (\<lambda>(u, err). u \<noteq> None \<and> err = None) rs) \<le> 1 \<and> fst (last rs) \<noteq> None"
proof -
  let ?tries = "[(id, LostAfter ''broken pipe'', None), (id, Fine, None)]"
  have "others_only ?tries" by (simp add: others_only_def runs_to_refl)
  moreover have "args_ok (empty_db 1000) sample_task" "t_schedule_id sample_task = None"
    "t_idempotency_key sample_task = Some ''k1''"
    by (simp_all add: args_ok_def sample_task_def int4_def tasks_schedule_id_fkey_def)
  ultimately show ?thesis
    using retried_submission_is_stored_once [OF reachable.initial, of sample_task "''k1''" ?tries 1000] 
    by (auto simp del: submit_retrying.simps split: prod.split)
qed

end
