(* ===== verification/Materializer_Store.thy ===== *)
theory Materializer_Store
  imports Materializer Store_Properties Store_Faults
begin

text \<open>
  The Postgres store as the materializer's store: the three methods satisfy the laws the
  materializer relies on, and so everything proved from them holds of the program. The
  properties at the end are about passes of any number of scheduler nodes over one database.
\<close>

section \<open>The interface\<close>

definition pg_mat_store :: "db mat_store" where
  "pg_mat_store =
    \<lparr>op_EnqueueBulk = EnqueueBulk,
     op_ListEnabledSchedules = (\<lambda>d. (d, Inr (ListEnabledSchedules d))),
     op_AdvanceLastMaterializedAt = (\<lambda>d i pt. (AdvanceLastMaterializedAt d i pt, None))\<rparr>"

text \<open>The same methods over a connection that may fail: what is lost in which state.\<close>

record mat_faults =
  mf_bulk :: "db \<Rightarrow> bulk_faults"
  mf_query :: "db \<Rightarrow> string option"
  mf_rows :: "db \<Rightarrow> string option"
  mf_advance :: "db \<Rightarrow> fault"

definition net_mat_store :: "mat_faults \<Rightarrow> db mat_store" where
  "net_mat_store lk =
    \<lparr>op_EnqueueBulk = (\<lambda>d ts. net_EnqueueBulk (mf_bulk lk d) d ts),
     op_ListEnabledSchedules = (\<lambda>d. (d, net_ListEnabledSchedules (mf_query lk d) (mf_rows lk d) d)),
     op_AdvanceLastMaterializedAt = (\<lambda>d i pt. net_AdvanceLastMaterializedAt (mf_advance lk d) d i pt)\<rparr>"

definition no_mat_faults :: mat_faults where
  "no_mat_faults =
    \<lparr>mf_bulk = (\<lambda>_. no_bulk_faults), mf_query = (\<lambda>_. None), mf_rows = (\<lambda>_. None), mf_advance = (\<lambda>_. Fine)\<rparr>"

lemma net_mat_store_Fine: "net_mat_store no_mat_faults = pg_mat_store"
  by (simp add: net_mat_store_def no_mat_faults_def pg_mat_store_def net_EnqueueBulk_Fine
      net_ListEnabledSchedules_def collectSchedules_def read_call_def net_AdvanceLastMaterializedAt_def)

lemma same_key_held:
  "u \<in> set rows \<Longrightarrow> same_idempotency_key t u \<Longrightarrow> t_idempotency_key t = Some k \<Longrightarrow>
    key_held rows (t_queue t) k"
  by (auto simp: key_held_def same_idempotency_key_def)

lemma key_held_taken:
  "t_idempotency_key t = Some k \<Longrightarrow> key_held (tasks d) (t_queue t) k \<Longrightarrow> key_taken d t"
  unfolding key_held_def key_taken_def same_idempotency_key_def by (metis option.distinct(1))

lemma Enqueue_holds:
  assumes "Enqueue d t = (d', Some r, err)" and "t_idempotency_key t = Some k"
  shows "key_held (tasks d') (t_queue t) k"
proof (cases rule: Enqueue_cases [where d = d and t = t])
  case created
  then show ?thesis using assms by (auto simp: key_held_def)
next
  case (duplicate k' s)
  then show ?thesis using assms same_key_held [OF duplicate(3,4) assms(2)] by auto
next
  case (refused d1 e)
  then show ?thesis using assms by simp
qed

lemma enqueue_each_holds:
  "enqueue_each d ts = (d', Inr out) \<Longrightarrow> t \<in> set ts \<Longrightarrow> t_idempotency_key t = Some k \<Longrightarrow>
    key_held (tasks d') (t_queue t) k"
proof (induction ts arbitrary: d out)
  case (Cons u ts)
  obtain d1 r err out' where one: "Enqueue d u = (d1, Some r, err)"
    and rest: "enqueue_each d1 ts = (d', Inr out')"
    using Cons.prems(1) by (auto split: prod.splits option.splits sum.splits)
  show ?case
  proof (cases "t \<in> set ts")
    case True
    then show ?thesis using Cons.IH [OF rest] Cons.prems(3) by blast
  next
    case False
    then have "key_held (tasks d1) (t_queue t) k"
      using Cons.prems(2,3) Enqueue_holds [OF one] by auto
    moreover obtain new where "tasks d' = tasks d1 @ new"
      using EnqueueBulk_extends [of d1 ts] EnqueueBulk_eq_each [of d1 ts d' out'] rest by auto
    ultimately show ?thesis by (simp add: key_held_append)
  qed
qed simp

lemma send_batch_repeats:
  "(\<And>t. t \<in> set ts \<Longrightarrow> key_taken d t) \<Longrightarrow> tasks (fst (send_batch d ts)) = tasks d"
proof (induction ts arbitrary: d)
  case (Cons t ts)
  have taken: "key_taken d t" using Cons.prems by simp
  show ?case
  proof (cases rule: enqueue_args_cases [where d = d and t = t])
    case skipped
    let ?d1 = "d\<lparr>next_task_id := next_task_id d + 1\<rparr>"
    have "key_taken ?d1 u" if "u \<in> set ts" for u
      using Cons.prems [of u] that by (simp add: key_taken_def)
    from Cons.IH [OF this] show ?thesis
      using skipped by (auto split: prod.splits sum.splits)
  qed (use taken in simp_all)
qed simp

lemma EnqueueBulk_schedules: "schedules (fst (EnqueueBulk d ts)) = schedules d"
  using send_batch_frame [OF surjective_pairing, of d ts]
  by (cases rule: EnqueueBulk_cases [where d = d and ts = ts]) (auto simp: rollback_def)

lemma EnqueueBulk_repeats:
  "(\<And>t. t \<in> set ts \<Longrightarrow> key_taken d t) \<Longrightarrow> tasks (fst (EnqueueBulk d ts)) = tasks d"
  using send_batch_repeats [of ts d]
  by (cases rule: EnqueueBulk_cases [where d = d and ts = ts]) (auto simp: rollback_def)

lemma schedule_by_id_listed:
  assumes "s \<in> set (ListEnabledSchedules d)" and "distinct (map s_id (schedules d))"
  shows "schedule_by_id d (s_id s) = Some s" and "s_enabled s"
  using assms by (auto simp: ListEnabledSchedules_def schedule_by_id_def by_key_iff)

lemma advance_known_same:
  "schedule_by_id (AdvanceLastMaterializedAt d i pt) j = None \<longleftrightarrow> schedule_by_id d j = None"
  by (simp add: schedule_by_id_def AdvanceLastMaterializedAt_def by_key_update_where)

text \<open>A lost bulk insert changes the tasks the way the insert does, or not at all.\<close>

lemma net_EnqueueBulk_tasks:
  "tasks (fst (net_EnqueueBulk bf d ts)) = tasks d
    \<or> tasks (fst (net_EnqueueBulk bf d ts)) = tasks (fst (EnqueueBulk d ts))"
  by (cases rule: net_EnqueueBulk_cases [where bf = bf and d = d and ts = ts]) auto

lemma net_EnqueueBulk_schedules: "schedules (fst (net_EnqueueBulk bf d ts)) = schedules d"
  using EnqueueBulk_schedules [of d ts]
  by (cases rule: net_EnqueueBulk_cases [where bf = bf and d = d and ts = ts]) auto

lemma net_EnqueueBulk_Inr: "net_EnqueueBulk bf d ts = (d', Inr out) \<Longrightarrow> EnqueueBulk d ts = (d', Inr out)"
  by (cases rule: net_EnqueueBulk_cases [where bf = bf and d = d and ts = ts]) auto

lemma net_advance_state:
  "fst (net_AdvanceLastMaterializedAt f d i pt) = d
    \<or> fst (net_AdvanceLastMaterializedAt f d i pt) = AdvanceLastMaterializedAt d i pt"
  using call_state [of _ f d "(AdvanceLastMaterializedAt d i pt, ())"]
  by (simp add: net_AdvanceLastMaterializedAt_def fst_case_result)

lemma net_advance_None:
  "net_AdvanceLastMaterializedAt f d i pt = (d', None) \<Longrightarrow> d' = AdvanceLastMaterializedAt d i pt"
  by (auto simp: net_AdvanceLastMaterializedAt_def split: prod.splits sum.splits dest!: call_Inr)

lemma net_list_Inr: "net_ListEnabledSchedules fq fr d = Inr ss \<Longrightarrow> ss = ListEnabledSchedules d"
  by (auto simp: net_ListEnabledSchedules_def collectSchedules_def read_call_def split: option.splits)

lemmas net_mat_defs = net_mat_store_def schedule_by_id_def net_EnqueueBulk_schedules

interpretation net_mat: materializer_store "net_mat_store lk" tasks resume_point
    "\<lambda>d i. schedule_by_id d i \<noteq> None" db_inv
  for lk
proof
  fix d ts
  show "db_inv d \<Longrightarrow> db_inv (fst (op_EnqueueBulk (net_mat_store lk) d ts))"
    using net_EnqueueBulk_runs [of d "mf_bulk lk d" ts] store_run_inv
    by (auto simp: net_mat_store_def runs_to_def)
  show "\<exists>new. tasks (fst (op_EnqueueBulk (net_mat_store lk) d ts)) = tasks d @ new"
    using net_EnqueueBulk_tasks [of "mf_bulk lk d" d ts] EnqueueBulk_extends [of d ts]
    by (auto simp: net_mat_store_def)
  show "resume_point (fst (op_EnqueueBulk (net_mat_store lk) d ts)) = resume_point d"
    using resume_point_frame [OF net_EnqueueBulk_schedules] by (simp add: net_mat_store_def fun_eq_iff)
  show "(\<lambda>i. schedule_by_id (fst (op_EnqueueBulk (net_mat_store lk) d ts)) i \<noteq> None)
      = (\<lambda>i. schedule_by_id d i \<noteq> None)"
    by (simp add: net_mat_defs)
next
  fix d ts d' out t k
  show "op_EnqueueBulk (net_mat_store lk) d ts = (d', Inr out) \<Longrightarrow> t \<in> set ts \<Longrightarrow>
      t_idempotency_key t = Some k \<Longrightarrow> key_held (tasks d') (t_queue t) k"
    using enqueue_each_holds [of d ts d' out t k]
    by (auto simp: net_mat_store_def EnqueueBulk_eq_each dest: net_EnqueueBulk_Inr)
next
  fix ts :: "Task list" and d :: db
  assume "\<And>t. t \<in> set ts \<Longrightarrow> \<exists>k. t_idempotency_key t = Some k \<and> key_held (tasks d) (t_queue t) k"
  then have "\<And>t. t \<in> set ts \<Longrightarrow> key_taken d t" using key_held_taken by blast
  then show "tasks (fst (op_EnqueueBulk (net_mat_store lk) d ts)) = tasks d"
    using net_EnqueueBulk_tasks [of "mf_bulk lk d" d ts] EnqueueBulk_repeats [of ts d]
    by (auto simp: net_mat_store_def)
next
  fix d i pt
  note state = net_advance_state [of "mf_advance lk d" d i pt]
  show "db_inv d \<Longrightarrow> db_inv (fst (op_AdvanceLastMaterializedAt (net_mat_store lk) d i pt))"
    using state AdvanceLastMaterializedAt_inv [of d i pt] by (auto simp: net_mat_store_def)
  show "tasks (fst (op_AdvanceLastMaterializedAt (net_mat_store lk) d i pt)) = tasks d"
    using state schedules_only(3) [of d i pt] by (auto simp: net_mat_store_def)
  show "(\<lambda>j. schedule_by_id (fst (op_AdvanceLastMaterializedAt (net_mat_store lk) d i pt)) j \<noteq> None)
      = (\<lambda>j. schedule_by_id d j \<noteq> None)"
    by (rule disjE [OF state]) (simp_all add: net_mat_store_def advance_known_same del: not_None_eq)
  show "\<exists>q \<ge> p. resume_point (fst (op_AdvanceLastMaterializedAt (net_mat_store lk) d i pt)) j = Some q"
    if "resume_point d j = Some p" for j p
    using state that by (auto simp: net_mat_store_def resume_point_advance)
next
  fix d i pt d'
  show "schedule_by_id d i \<noteq> None \<Longrightarrow>
      op_AdvanceLastMaterializedAt (net_mat_store lk) d i pt = (d', None) \<Longrightarrow>
      \<exists>q \<ge> pt. resume_point d' i = Some q"
    by (auto simp: net_mat_store_def resume_point_advance split: option.splits dest!: net_advance_None)
next
  fix d d' r
  show "op_ListEnabledSchedules (net_mat_store lk) d = (d', r) \<Longrightarrow> d' = d"
    by (simp add: net_mat_store_def)
next
  fix d d' ss s
  show "db_inv d \<Longrightarrow> op_ListEnabledSchedules (net_mat_store lk) d = (d', Inr ss) \<Longrightarrow> s \<in> set ss \<Longrightarrow>
      s_enabled s \<and> schedule_by_id d (s_id s) \<noteq> None
      \<and> resume_point d (s_id s) = s_last_materialized_at s"
    using schedule_by_id_listed [OF _ db_inv_schedule_ids, of s d]
    by (auto simp: net_mat_store_def resume_point_def dest: net_list_Inr)
qed

interpretation pg_mat: materializer_store pg_mat_store tasks resume_point
    "\<lambda>d i. schedule_by_id d i \<noteq> None" db_inv
  unfolding net_mat_store_Fine [symmetric] by (rule net_mat.materializer_store_axioms)

section \<open>Properties\<close>

text \<open>What a plan is made of: fire times after a point, in order, up to a bound.\<close>

definition due_prefix :: "'spec next_fire \<Rightarrow> 'spec cron_schedule \<Rightarrow> location \<Rightarrow> instant \<Rightarrow> instant
    \<Rightarrow> instant list \<Rightarrow> bool" where
  "due_prefix Next sched loc after until fs \<longleftrightarrow>
    sorted_wrt (<) (after # fs) \<and> (\<forall>f \<in> set fs. f \<le> until) \<and> length fs \<le> 10000
    \<and> Schedule_NextN Next sched loc after (int (length fs)) = Some fs
    \<and> (\<forall>n gs. length fs < 10000 \<longrightarrow> Schedule_NextN Next sched loc after n = Some gs \<longrightarrow>
        (\<forall>g \<in> set gs. g \<le> until \<longrightarrow> g \<in> set fs))"

lemma due_prefix_takeWhile:
  assumes ok: "next_ok Next (spec sched) loc"
    and cands: "Schedule_NextN Next sched loc after 10000 = Some cands"
  shows "due_prefix Next sched loc after u (takeWhile (\<lambda>c. c \<le> u) cands)"
proof -
  let ?fs = "takeWhile (\<lambda>c. c \<le> u) cands"
  have all: "fires Next (spec sched) loc 10000 after (wall_clock loc after) cands"
    using cands by (simp add: NextN_fires [OF ok])
  have part: "fires Next (spec sched) loc (length ?fs) after (wall_clock loc after) ?fs"
    by (rule fires_takeWhile [OF all])
  show ?thesis
    unfolding due_prefix_def
  proof (intro conjI allI impI ballI)
    show "sorted_wrt (<) (after # ?fs)" by (rule fires_sorted [OF part ok])
    show "length ?fs \<le> 10000"
      using fires_length [OF all] length_takeWhile_le [of _ cands] by (rule order_trans [rotated])
    show "Schedule_NextN Next sched loc after (int (length ?fs)) = Some ?fs"
      using part by (simp add: NextN_fires [OF ok])
    show "f \<le> u" if "f \<in> set ?fs" for f using that by (auto dest: set_takeWhileD)
    show "g \<in> set ?fs"
      if "length ?fs < 10000" "Schedule_NextN Next sched loc after n = Some gs" "g \<in> set gs" "g \<le> u"
      for n gs g
      using due_prefix_complete [OF ok all refl that(1) _ that(3,4)] that(2)
      by (simp add: NextN_fires [OF ok])
  qed
qed

text \<open>
  C18. Planning always ends. What it plans lies after the schedule's resume point (or after
  now, when it has none), in increasing order, up to the horizon, at most 10000 fire times
  at a time; and unless it stopped at that bound it is every fire time NextN can report up
  to the horizon. It fails only for a zone or an expression that does not resolve.
\<close>

theorem plan_is_the_due_prefix:
  assumes "env_ok e"
  shows "\<exists>r. Plan e s now h = Some r \<and> (case r of
      Inl (PlanTimezone err) \<Rightarrow> Location (env_zones e) s = Inl err
    | Inl (PlanCron err) \<Rightarrow> Parse (env_parser e) (env_descriptorParser e) (s_cron s) = Inl err
    | Inr fs \<Rightarrow> \<exists>loc sched. Location (env_zones e) s = Inr loc
        \<and> Parse (env_parser e) (env_descriptorParser e) (s_cron s) = Inr sched
        \<and> due_prefix (env_next e) sched loc (plan_after s now) (now + h) fs)"
proof -
  obtain r where r: "Plan e s now h = Some r" using Plan_returns [OF assms] by blast
  show ?thesis
  proof (cases r)
    case (Inl err)
    then show ?thesis
      using r by (auto simp: Plan_def Let_def split: sum.splits option.splits)
  next
    case (Inr fs)
    from Plan_SomeD [OF r [unfolded Inr]] obtain loc sched cands where
      env: "Location (env_zones e) s = Inr loc"
        "Parse (env_parser e) (env_descriptorParser e) (s_cron s) = Inr sched"
      and cands: "Schedule_NextN (env_next e) sched loc (plan_after s now) 10000 = Some cands"
      and fs: "fs = takeWhile (\<lambda>c. c \<le> now + h) cands" .
    have "next_ok (env_next e) (spec sched) loc" using assms by (simp add: env_ok_def)
    from due_prefix_takeWhile [OF this cands] env r Inr fs show ?thesis by auto
  qed
qed

text \<open>An environment to evaluate: five stars in UTC, firing once, at the first minute.\<close>

definition sample_schedule :: Schedule where
  "sample_schedule =
    \<lparr>s_id = 1, s_cron = ''* * * * *'', s_timezone = ''UTC'', s_queue = ''default'',
     s_handler = ''email'', s_payload = Some ''{}'', s_priority = 0, s_max_attempts = 5,
     s_enabled = True, s_last_materialized_at = None, s_created_at = 0\<rparr>"

lemma once_NextN:
  assumes "0 < n"
  shows "Schedule_NextN (env_next once_env) sched UTC 0 n = Some [minute]"
    and "Schedule_NextN (env_next once_env) sched UTC minute n = Some []"
proof -
  obtain k where k: "nat n = Suc k" using assms by (cases "nat n") auto
  have zero: "\<not> IsZero minute" "IsZero (env_next once_env sp UTC minute)" for sp
    by (simp_all add: IsZero_def minute_def zero_time_def second_def once_env_def)
  have "fires (env_next once_env) (spec sched) UTC (Suc k) 0 (wall_clock UTC 0) [minute]"
  proof (rule fires.reported)
    show "minute = env_next once_env (spec sched) UTC 0"
      by (simp add: once_env_def minute_def second_def)
    show "wall_clock UTC minute \<noteq> wall_clock UTC 0"
      by (simp add: wall_clock_eq_iff minute_def second_def)
    show "fires (env_next once_env) (spec sched) UTC k minute (wall_clock UTC minute) []"
      by (rule fires.exhausted) (rule zero)
  qed (simp_all add: zero roundTrips_UTC)
  then show "Schedule_NextN (env_next once_env) sched UTC 0 n = Some [minute]"
    using fires_NextN k by metis
  show "Schedule_NextN (env_next once_env) sched UTC minute n = Some []"
    by (rule fires_NextN, rule fires.exhausted) (rule zero)
qed

lemma minute_pos: "0 \<le> minute" "\<not> minute < 0"
  by (simp_all add: minute_def second_def)

lemma once_Plan:
  "Plan once_env sample_schedule 0 (5 * minute) = Some (Inr [minute])"
  "Plan once_env (sample_schedule\<lparr>s_last_materialized_at := Some minute\<rparr>) minute (5 * minute)
    = Some (Inr [])"
proof -
  have parse: "Parse (env_parser once_env) (env_descriptorParser once_env) ''* * * * *''
      = Inr \<lparr>spec = (), expr = ''* * * * *''\<rparr>"
    by code_simp
  have zone: "Location (env_zones once_env) s = Inr UTC" if "s_timezone s = ''UTC''" for s
    using that by (simp add: Location_def once_env_def)
  show "Plan once_env sample_schedule 0 (5 * minute) = Some (Inr [minute])"
    "Plan once_env (sample_schedule\<lparr>s_last_materialized_at := Some minute\<rparr>) minute (5 * minute)
    = Some (Inr [])"
    by (simp_all add: Plan_def zone parse sample_schedule_def plan_after_def once_NextN
        MaxPlannedFireTimes_def minute_pos)
qed

lemma once_zone: "Location (env_zones once_env) sample_schedule = Inr UTC"
  by (simp add: Location_def sample_schedule_def once_env_def)

lemma plan_is_the_due_prefix_witness:
  "\<exists>sched. due_prefix (env_next once_env) sched UTC 0 (5 * minute) [minute]"
  using plan_is_the_due_prefix [OF once_env_ok, of sample_schedule 0 "5 * minute"]
  unfolding once_Plan once_zone
  by (auto simp: plan_after_def sample_schedule_def)

section \<open>Several nodes, one database\<close>

lemma store_run_key_held:
  assumes "store_run d evs d'" and "db_inv d" and "key_held (tasks d) q k"
  shows "key_held (tasks d') q k"
proof -
  from assms(3) obtain u where u: "u \<in> set (tasks d)" "t_queue u = q" "t_idempotency_key u = Some k"
    by (auto simp: key_held_def)
  then have "task_by_id d (t_id u) = Some u" using assms(2) by (simp add: task_by_id_iff)
  from store_run_keeps [OF assms(1,2) this] u show ?thesis
    by (auto simp: key_held_def dest!: task_by_id_SomeD)
qed

lemma key_held_unique:
  assumes "db_inv d" and "key_held (tasks d) q k"
  shows "\<exists>!t. t \<in> set (tasks d) \<and> t_queue t = q \<and> t_idempotency_key t = Some k"
proof -
  from assms(2) obtain u where u: "u \<in> set (tasks d)" "t_queue u = q" "t_idempotency_key u = Some k"
    by (auto simp: key_held_def)
  have "t = u" if "t \<in> set (tasks d)" "t_queue t = q" "t_idempotency_key t = Some k" for t
  proof -
    have "same_idempotency_key t u" by (simp add: same_idempotency_key_def that u)
    then have "t_id t = t_id u"
      using db_inv_keys [OF assms(1)] that(1) u(1) unfolding keys_unique_def by blast
    then show ?thesis using distinct_key_eq [OF db_inv_ids [OF assms(1)] that(1) u(1)] by blast
  qed
  with u show ?thesis by blast
qed

lemma runs_to_keeps_fire:
  "runs_to d d' \<Longrightarrow> reachable d \<Longrightarrow> fire_held (tasks d) s f \<Longrightarrow> fire_held (tasks d') s f"
  by (auto simp: runs_to_def fire_held_def dest: store_run_key_held [OF _ reachable_inv])


definition scheduled_db :: db where
  "scheduled_db = fst (CreateSchedule (empty_db 0) sample_schedule)"

lemma scheduled_reachable: "reachable scheduled_db"
  unfolding scheduled_db_def
  by (rule reachable.step [OF reachable.initial], rule store_step.create_schedule)
    (rule prod.collapse [symmetric])


section \<open>A pass\<close>

text \<open>Tasks that fit the schema are all accepted, and a stored schedule's tasks fit it.\<close>

lemma args_ok_frame: "schedules d' = schedules d \<Longrightarrow> args_ok d' t = args_ok d t"
  by (simp add: args_ok_def)

lemma enqueue_each_accepts:
  "(\<And>t. t \<in> set ts \<Longrightarrow> args_ok d t) \<Longrightarrow> \<exists>d' out. enqueue_each d ts = (d', Inr out)"
proof (induction ts arbitrary: d)
  case (Cons t ts)
  obtain d1 r err where one: "Enqueue d t = (d1, Some r, err)"
    using Cons.prems [of t] by (cases rule: Enqueue_cases [where d = d and t = t]) auto
  have "schedules d1 = schedules d"
    using one enqueueOne_fst [of d t]
      enqueue_args_frame(2) [of d t "fst (enqueue_args d t)" "snd (enqueue_args d t)"]
    by (simp add: Enqueue_def)
  then have "args_ok d1 u" if "u \<in> set ts" for u
    using Cons.prems [of u] that args_ok_frame [of d1 d u] by simp
  from Cons.IH [OF this] one show ?case by fastforce
qed simp

definition schedule_fits :: "Schedule \<Rightarrow> bool" where
  "schedule_fits s \<longleftrightarrow> schedules_checks s \<and> s_payload s \<noteq> None \<and> int4 (s_priority s)
    \<and> int4 (s_max_attempts s)"

lemma TaskFor_args_ok:
  "schedule_fits s \<Longrightarrow> schedule_by_id d (s_id s) \<noteq> None \<Longrightarrow> args_ok d (TaskFor s f)"
  by (auto simp: schedule_fits_def schedules_checks_def args_ok_def TaskFor_def
      tasks_schedule_id_fkey_def schedule_by_id_def by_key_None)

lemma Materialize_accepts:
  assumes "schedule_fits s" and "schedule_by_id d (s_id s) \<noteq> None"
  shows "\<exists>d' out. Materialize pg_mat_store d s fs = (d', Inr out)"
proof -
  have "\<exists>d' out. enqueue_each d (map (TaskFor s) fs) = (d', Inr out)"
    using TaskFor_args_ok [OF assms] by (auto intro!: enqueue_each_accepts)
  then show ?thesis by (auto simp: Materialize_def pg_mat_store_def EnqueueBulk_eq_each)
qed

lemma pg_materializeOne_fails:
  assumes "schedule_fits s" and "schedule_by_id d (s_id s) \<noteq> None"
    and "materializeOne e pg_mat_store h d now s = Some (d', Some x)"
  shows "\<exists>p. x = PlanFailed p \<and> Plan e s now h = Some (Inl p)"
proof (cases "Plan e s now h")
  case (Some r)
  show ?thesis
  proof (cases r)
    case (Inl p)
    then show ?thesis using assms(3) Some by (simp add: materializeOne_def)
  next
    case (Inr fs)
    obtain d1 out where "Materialize pg_mat_store d s fs = (d1, Inr out)"
      using Materialize_accepts [OF assms(1,2)] by blast
    then have "materializeOne e pg_mat_store h d now s =
        (if fs = [] then Some (d, None)
         else Some (AdvanceLastMaterializedAt d1 (s_id s) (last fs), None))"
      using Some Inr by (simp add: materializeOne_def) (simp add: pg_mat_store_def)
    then show ?thesis using assms(3) by (simp split: if_splits)
  qed
qed (use assms(3) in \<open>simp add: materializeOne_def\<close>)

lemma materialize_each_logs:
  "(\<And>s. s \<in> set ss \<Longrightarrow> schedule_fits s \<and> schedule_by_id d (s_id s) \<noteq> None) \<Longrightarrow>
    materialize_each e pg_mat_store h now d ss = Some (d', logs) \<Longrightarrow> x \<in> set logs \<Longrightarrow>
    \<exists>s \<in> set ss. \<exists>p. x = ScheduleFailed (s_id s) (PlanFailed p) \<and> Plan e s now h = Some (Inl p)"
proof (induction ss arbitrary: d logs)
  case (Cons s ss)
  obtain d1 err where one: "materializeOne e pg_mat_store h d now s = Some (d1, err)"
    using Cons.prems(2) by (auto split: option.splits)
  obtain logs1 where rest: "materialize_each e pg_mat_store h now d1 ss = Some (d', logs1)"
    and logs: "logs = (case err of None \<Rightarrow> logs1 | Some x \<Rightarrow> ScheduleFailed (s_id s) x # logs1)"
    using Cons.prems(2) one by (auto split: option.splits)
  have "schedule_by_id d1 j \<noteq> None \<longleftrightarrow> schedule_by_id d j \<noteq> None" for j
    using pg_mat.materializeOne_frame(2) [OF one] by (simp add: fun_eq_iff)
  then have fits: "schedule_fits r \<and> schedule_by_id d1 (s_id r) \<noteq> None" if "r \<in> set ss" for r
    using Cons.prems(1) [of r] that by simp
  show ?case
  proof (cases "x \<in> set logs1")
    case True
    then show ?thesis using Cons.IH [OF fits rest] by auto
  next
    case False
    then obtain y where "err = Some y" "x = ScheduleFailed (s_id s) y"
      using Cons.prems(3) logs by (auto split: option.splits)
    then show ?thesis
      using pg_materializeOne_fails [of s d e h now d1 y] one Cons.prems(1) [of s] by auto
  qed
qed simp

lemma listed_fits:
  assumes "db_inv d" and "s \<in> set (ListEnabledSchedules d)"
  shows "schedule_fits s \<and> schedule_by_id d (s_id s) \<noteq> None"
proof -
  have "s \<in> set (schedules d)" using assms(2) by (simp add: ListEnabledSchedules_def)
  then show ?thesis
    using assms schedule_by_id_listed [OF assms(2) db_inv_schedule_ids [OF assms(1)]]
    by (simp add: schedule_fits_def db_inv_def)
qed

lemma RunOnce_materializes:
  assumes inv: "db_inv d" and "env_ok e"
  shows "\<exists>d' logs. RunOnce e pg_mat_store r d now = Some (d', logs)
    \<and> (\<exists>new. tasks d' = tasks d @ new)
    \<and> (\<forall>x \<in> set logs. \<exists>s \<in> set (ListEnabledSchedules d). \<exists>p.
        x = ScheduleFailed (s_id s) (PlanFailed p) \<and> Plan e s now (micros (r_horizon r)) = Some (Inl p))
    \<and> (\<forall>s \<in> set (ListEnabledSchedules d). \<forall>fs. Plan e s now (micros (r_horizon r)) = Some (Inr fs) \<longrightarrow>
        (\<forall>f \<in> set fs. fire_held (tasks d') s f
          \<and> (\<exists>q \<ge> last fs. resume_point d' (s_id s) = Some q)))"
proof -
  obtain d' logs where run: "RunOnce e pg_mat_store r d now = Some (d', logs)"
    using pg_mat.run_once_returns [OF assms(2)] by (metis prod.collapse)
  have list: "op_ListEnabledSchedules pg_mat_store d = (d, Inr (ListEnabledSchedules d))"
    by (simp add: pg_mat_store_def)
  have each: "materialize_each e pg_mat_store (micros (r_horizon r)) now d (ListEnabledSchedules d)
      = Some (d', logs)"
    using run by (simp add: RunOnce_def list)
  have logs: "\<exists>s \<in> set (ListEnabledSchedules d). \<exists>p. x = ScheduleFailed (s_id s) (PlanFailed p)
      \<and> Plan e s now (micros (r_horizon r)) = Some (Inl p)" if "x \<in> set logs" for x
    by (rule materialize_each_logs [OF listed_fits [OF inv] each that])
  have planned: "fire_held (tasks d') s f \<and> (\<exists>q \<ge> last fs. resume_point d' (s_id s) = Some q)"
    if s: "s \<in> set (ListEnabledSchedules d)" and plan: "Plan e s now (micros (r_horizon r)) = Some (Inr fs)"
      and f: "f \<in> set fs" for s fs f
  proof (rule pg_mat.run_once [OF inv run list s _ plan f])
    fix x
    show "ScheduleFailed (s_id s) x \<notin> set logs"
    proof
      assume "ScheduleFailed (s_id s) x \<in> set logs"
      from logs [OF this] obtain s' p where s': "s' \<in> set (ListEnabledSchedules d)"
        "s_id s' = s_id s" "Plan e s' now (micros (r_horizon r)) = Some (Inl p)" by auto
      have "s' = s"
        using schedule_by_id_listed(1) [OF s db_inv_schedule_ids [OF inv]]
          schedule_by_id_listed(1) [OF s'(1) db_inv_schedule_ids [OF inv]] s'(2) by simp
      with s'(3) plan show False by simp
    qed
  qed
  show ?thesis
    using run pg_mat.materialize_each_frame [OF each] logs planned by blast
qed



end
