(* ===== verification/Materializer_Fleet.thy ===== *)
theory Materializer_Fleet
  imports Materializer_Store
begin

text \<open>
  Any number of materializers over one database, interleaved statement by statement: a pass
  lists the schedules, and later inserts the tasks of one of them and records its resume
  point, from a row that may be stale by then, over a connection that may lose any of these
  statements or their answers. However they interleave, the fire times of a schedule up to
  its resume point are all in the table: none is ever skipped.
\<close>

section \<open>Statements of many nodes\<close>

text \<open>
  listed holds the rows some node has read and not dealt with for good, inserted the fire
  times whose bulk insert was reported as done and whose resume point a node has yet to
  record. A node that stops in between simply takes no further step. Everything else any
  node does to the store is a step of its own, other than recording a resume point.
\<close>

inductive fleet :: "'spec cron_env \<Rightarrow> db \<Rightarrow> db \<Rightarrow> Schedule list \<Rightarrow> (Schedule \<times> instant list) list \<Rightarrow> bool"
  for e :: "'spec cron_env" and d0 :: db where
  idle: "fleet e d0 d0 [] []"
| lists: "fleet e d0 d listed inserted \<Longrightarrow>
    op_ListEnabledSchedules (net_mat_store lk) d = (d', Inr ss) \<Longrightarrow>
    fleet e d0 d' (ss @ listed) inserted"
| inserts: "fleet e d0 d listed inserted \<Longrightarrow> s \<in> set listed \<Longrightarrow>
    Plan e s now h = Some (Inr fs) \<Longrightarrow> fs \<noteq> [] \<Longrightarrow>
    Materialize (net_mat_store lk) d s fs = (d', Inr out) \<Longrightarrow>
    fleet e d0 d' listed ((s, fs) # inserted)"
| insert_fails: "fleet e d0 d listed inserted \<Longrightarrow> s \<in> set listed \<Longrightarrow>
    Plan e s now h = Some (Inr fs) \<Longrightarrow>
    Materialize (net_mat_store lk) d s fs = (d', Inl err) \<Longrightarrow>
    fleet e d0 d' listed inserted"
| records: "fleet e d0 d listed inserted \<Longrightarrow> (s, fs) \<in> set inserted \<Longrightarrow>
    op_AdvanceLastMaterializedAt (net_mat_store lk) d (s_id s) (last fs) = (d', r) \<Longrightarrow>
    fleet e d0 d' listed inserted"
| others: "fleet e d0 d listed inserted \<Longrightarrow> store_step d ev d' \<Longrightarrow> resume_point d' = resume_point d \<Longrightarrow>
    fleet e d0 d' listed inserted"

text \<open>materializeOne is an insert and, when it is reported as done, the record of it.\<close>

lemma materializeOne_fleet:
  assumes "fleet e d0 d listed inserted" and "s \<in> set listed"
    and "materializeOne e (net_mat_store lk) h d now s = Some (d', err)"
  shows "\<exists>inserted'. fleet e d0 d' listed inserted'"
proof (cases "Plan e s now h")
  case None
  then show ?thesis using assms(3) by (simp add: materializeOne_def)
next
  case (Some p)
  show ?thesis
  proof (cases p)
    case (Inl err)
    then show ?thesis using assms Some by (auto simp: materializeOne_def)
  next
    case (Inr fs)
    show ?thesis
    proof (cases "fs = []")
      case True
      then show ?thesis using assms Some Inr by (auto simp: materializeOne_def)
    next
      case False
      obtain d1 res where one: "Materialize (net_mat_store lk) d s fs = (d1, res)" by fastforce
      show ?thesis
      proof (cases res)
        case (Inl err)
        then show ?thesis
          using fleet.insert_fails [OF assms(1,2)] Some \<open>p = Inr fs\<close> False one assms(3)
          by (fastforce simp: materializeOne_def)
      next
        case (Inr out)
        have "fleet e d0 d1 listed ((s, fs) # inserted)"
          using fleet.inserts [OF assms(1,2)] Some \<open>p = Inr fs\<close> False one Inr by blast
        then have "fleet e d0 d2 listed ((s, fs) # inserted)"
          if "op_AdvanceLastMaterializedAt (net_mat_store lk) d1 (s_id s) (last fs) = (d2, r)" for d2 r
          using fleet.records [OF _ _ that] by fastforce
        then show ?thesis
          using Some \<open>p = Inr fs\<close> False one Inr assms(3)
          by (auto simp: materializeOne_def split: prod.splits)
      qed
    qed
  qed
qed

section \<open>Consecutive fire times\<close>

definition consecutive :: "'spec next_fire \<Rightarrow> 'spec cron_schedule \<Rightarrow> location \<Rightarrow> instant \<Rightarrow> instant list \<Rightarrow> bool" where
  "consecutive Next sched loc after fs \<longleftrightarrow> Schedule_NextN Next sched loc after (int (length fs)) = Some fs"

lemma consecutive_Nil: "next_ok Next (spec sched) loc \<Longrightarrow> consecutive Next sched loc after []"
  by (simp add: consecutive_def NextN_fires fires.enough)

lemma consecutive_append:
  assumes ok: "next_ok Next (spec sched) loc" and fs: "consecutive Next sched loc after fs"
    and gs: "consecutive Next sched loc (last (after # fs)) gs"
  shows "consecutive Next sched loc after (fs @ gs)"
proof (cases "fs = []")
  case True
  then show ?thesis using gs by simp
next
  case False
  then show ?thesis
    using fs gs fires_append [of Next "spec sched" loc "length fs" after "wall_clock loc after" fs]
    by (simp add: consecutive_def NextN_fires [OF ok] nat_int_add)
qed

lemma Plan_consecutive:
  assumes "env_ok e" and "Plan e s now h = Some (Inr fs)" and "s_last_materialized_at s = Some q"
    and "Location (env_zones e) s = Inr loc"
    and "Parse (env_parser e) (env_descriptorParser e) (s_cron s) = Inr sched"
  shows "consecutive (env_next e) sched loc q fs"
proof -
  have ok: "next_ok (env_next e) (spec sched) loc" using assms(1) by (simp add: env_ok_def)
  from Plan_SomeD [OF assms(2)] obtain cands where
    "Schedule_NextN (env_next e) sched loc q 10000 = Some cands" "fs = takeWhile (\<lambda>c. c \<le> now + h) cands"
    using assms(3-5) by (auto simp: plan_after_def)
  then show ?thesis using fires_takeWhile by (simp add: consecutive_def NextN_fires [OF ok])
qed

section \<open>Nothing before a resume point is missing\<close>

text \<open>q is reached from p by consecutive fire times of the schedule that all have their task.\<close>

definition covered :: "'spec next_fire \<Rightarrow> 'spec cron_schedule \<Rightarrow> location \<Rightarrow> Schedule \<Rightarrow> instant \<Rightarrow> db
    \<Rightarrow> instant \<Rightarrow> bool" where
  "covered Next sched loc s p d q \<longleftrightarrow>
    (\<exists>fs. consecutive Next sched loc p fs \<and> last (p # fs) = q \<and> (\<forall>f \<in> set fs. fire_held (tasks d) s f))"

lemma covered_runs:
  "runs_to d d' \<Longrightarrow> reachable d \<Longrightarrow> covered Next sched loc s p d q \<Longrightarrow> covered Next sched loc s p d' q"
  unfolding covered_def using runs_to_keeps_fire by blast

definition fleet_inv :: "'spec next_fire \<Rightarrow> 'spec cron_schedule \<Rightarrow> location \<Rightarrow> Schedule \<Rightarrow> instant \<Rightarrow> db
    \<Rightarrow> Schedule list \<Rightarrow> (Schedule \<times> instant list) list \<Rightarrow> bool" where
  "fleet_inv Next sched loc s0 p d listed inserted \<longleftrightarrow>
    (\<exists>s q. schedule_by_id d (s_id s0) = Some s \<and> schedule_evolves s0 s
      \<and> s_last_materialized_at s = Some q \<and> covered Next sched loc s0 p d q)
    \<and> (\<forall>s \<in> set listed. s_id s = s_id s0 \<longrightarrow> schedule_evolves s0 s
      \<and> (\<exists>q. s_last_materialized_at s = Some q \<and> covered Next sched loc s0 p d q))
    \<and> (\<forall>(s, fs) \<in> set inserted. s_id s = s_id s0 \<longrightarrow> covered Next sched loc s0 p d (last fs))"

lemma fleet_inv_resume:
  "fleet_inv Next sched loc s0 p d listed inserted \<Longrightarrow>
    \<exists>q. resume_point d (s_id s0) = Some q \<and> covered Next sched loc s0 p d q"
  by (auto simp: fleet_inv_def resume_point_def)

lemma fleet_inv_step:
  assumes inv: "fleet_inv Next sched loc s0 p d listed inserted" and run: "runs_to d d'" and reach: "reachable d"
    and resume: "resume_point d' (s_id s0) = Some q" "covered Next sched loc s0 p d' q"
  shows "fleet_inv Next sched loc s0 p d' listed inserted"
proof -
  obtain s where s: "schedule_by_id d (s_id s0) = Some s" "schedule_evolves s0 s"
    using inv by (auto simp: fleet_inv_def)
  obtain s' where s': "schedule_by_id d' (s_id s0) = Some s'" "schedule_evolves s s'"
    using run store_run_schedules [OF _ s(1)] unfolding runs_to_def by blast
  have "s_last_materialized_at s' = Some q" using s'(1) resume(1) by (simp add: resume_point_def)
  moreover have "schedule_evolves s0 s'" using schedule_evolves_trans s(2) s'(2) .
  ultimately show ?thesis
    using inv s'(1) resume(2) covered_runs [OF run reach] unfolding fleet_inv_def by blast
qed

lemma schedule_evolves_job:
  "schedule_evolves s s' \<Longrightarrow> s_id s' = s_id s \<and> s_cron s' = s_cron s \<and> s_timezone s' = s_timezone s
    \<and> s_queue s' = s_queue s"
  by (auto simp: schedule_evolves_def dest: arg_cong [of _ _ s_id] arg_cong [of _ _ s_cron]
      arg_cong [of _ _ s_timezone] arg_cong [of _ _ s_queue])

lemma fleet_keeps:
  assumes e: "env_ok e" and loc: "Location (env_zones e) s0 = Inr loc"
    and sched: "Parse (env_parser e) (env_descriptorParser e) (s_cron s0) = Inr sched"
    and start: "reachable d0" "schedule_by_id d0 (s_id s0) = Some s0" "s_last_materialized_at s0 = Some p"
  shows "fleet e d0 d listed inserted \<Longrightarrow>
    reachable d \<and> fleet_inv (env_next e) sched loc s0 p d listed inserted"
proof (induction rule: fleet.induct)
  have ok: "next_ok (env_next e) (spec sched) loc" using e by (simp add: env_ok_def)
  case idle
  have "covered (env_next e) sched loc s0 p d0 p"
    using consecutive_Nil [OF ok] by (auto simp: covered_def intro!: exI [of _ "[]"])
  then show ?case using start by (simp add: fleet_inv_def)
next
  case (lists d listed inserted lk d' ss)
  have same: "d' = d" and ss: "ss = ListEnabledSchedules d"
    using lists.hyps(2) net_list_Inr by (auto simp: net_mat_store_def)
  have "schedule_by_id d (s_id s) = Some s" if "s \<in> set ss" for s
    using schedule_by_id_listed [OF _ db_inv_schedule_ids] that ss lists.IH reachable_inv by blast
  then have "schedule_evolves s0 s \<and> (\<exists>q. s_last_materialized_at s = Some q \<and> covered (env_next e) sched loc s0 p d q)"
    if "s \<in> set ss" "s_id s = s_id s0" for s
    using lists.IH that unfolding fleet_inv_def by fastforce
  then show ?case using lists.IH unfolding fleet_inv_def same by auto
next
  case (inserts d listed inserted s now h fs lk d' out)
  have run: "runs_to d d'"
    using inserts.hyps(5) net_EnqueueBulk_runs [of d "mf_bulk lk d" "map (TaskFor s) fs"]
    by (auto simp: Materialize_def net_mat_store_def runs_to_refl split: if_splits)
  have inv: "fleet_inv (env_next e) sched loc s0 p d' listed inserted"
  proof -
    obtain q where q: "resume_point d (s_id s0) = Some q" "covered (env_next e) sched loc s0 p d q"
      using fleet_inv_resume inserts.IH by blast
    have "resume_point d' = resume_point d"
      using net_mat.materialize_resume [of lk d s fs] inserts.hyps(5) by simp
    then show ?thesis
      using fleet_inv_step [OF _ run] inserts.IH q covered_runs [OF run] by metis
  qed
  have "covered (env_next e) sched loc s0 p d' (last fs)" if same: "s_id s = s_id s0"
  proof -
    obtain q gs where s: "schedule_evolves s0 s" and q: "s_last_materialized_at s = Some q"
      and gs: "consecutive (env_next e) sched loc p gs" "last (p # gs) = q" "\<forall>g \<in> set gs. fire_held (tasks d') s0 g"
      using inv same inserts.hyps(2) unfolding fleet_inv_def covered_def by blast
    note job = schedule_evolves_job [OF s]
    have "Location (env_zones e) s = Location (env_zones e) s0" using job by (simp add: Location_def)
    then have "Location (env_zones e) s = Inr loc" using loc by simp
    then have "consecutive (env_next e) sched loc q fs"
      using Plan_consecutive [OF e inserts.hyps(3) q] sched job by simp
    then have "consecutive (env_next e) sched loc p (gs @ fs)"
      using consecutive_append [OF _ gs(1)] gs(2) e unfolding env_ok_def by blast
    moreover have "fire_held (tasks d') s0 f" if "f \<in> set fs" for f
      using net_mat.materialize_holds [OF inserts.hyps(5) that] job by (simp add: fire_held_def)
    ultimately show ?thesis
      using gs(3) inserts.hyps(4) unfolding covered_def by (intro exI [of _ "gs @ fs"]) auto
  qed
  then show ?case using inv runs_to_reachable [OF run] inserts.IH unfolding fleet_inv_def by auto
next
  case (insert_fails d listed inserted s now h fs lk d' err)
  have run: "runs_to d d'"
    using insert_fails.hyps(4) net_EnqueueBulk_runs [of d "mf_bulk lk d" "map (TaskFor s) fs"]
    by (auto simp: Materialize_def net_mat_store_def runs_to_refl split: if_splits)
  have "resume_point d' = resume_point d"
    using net_mat.materialize_resume [of lk d s fs] insert_fails.hyps(4) by simp
  then show ?case
    using fleet_inv_resume insert_fails.IH fleet_inv_step [OF _ run] covered_runs [OF run]
      runs_to_reachable [OF run] by metis
next
  case (records d listed inserted s fs lk d' r)
  have state: "d' = d \<or> d' = AdvanceLastMaterializedAt d (s_id s) (last fs)"
    using net_advance_state [of "mf_advance lk d" d "s_id s" "last fs"] records.hyps(3)
    by (simp add: net_mat_store_def)
  then have run: "runs_to d d'" using runs_to_refl method_runs(11) by blast
  obtain q where q: "resume_point d (s_id s0) = Some q" "covered (env_next e) sched loc s0 p d q"
    using fleet_inv_resume records.IH by blast
  have "\<exists>q'. resume_point d' (s_id s0) = Some q' \<and> covered (env_next e) sched loc s0 p d q'"
  proof (cases "d' \<noteq> d \<and> s_id s = s_id s0")
    case True
    then have "covered (env_next e) sched loc s0 p d (last fs)"
      using records.IH records.hyps(2) unfolding fleet_inv_def by blast
    then show ?thesis using True state q by (auto simp: resume_point_advance max_def)
  next
    case False
    then show ?thesis using state q by (auto simp: resume_point_advance)
  qed
  then show ?case
    using fleet_inv_step [OF _ run] covered_runs [OF run] runs_to_reachable [OF run] records.IH by metis
next
  case (others d listed inserted ev d')
  have run: "runs_to d d'" by (rule runs_to_step [OF others.hyps(2)])
  then show ?case
    using fleet_inv_resume others.IH fleet_inv_step [OF _ run] covered_runs [OF run]
      runs_to_reachable [OF run] others.hyps(3) by metis
qed

section \<open>Properties\<close>


text \<open>A schedule recorded up to time 0, read once, and materialized twice from that row.\<close>

definition fleet_db :: db where
  "fleet_db = AdvanceLastMaterializedAt scheduled_db 1 0"

definition fleet_row :: Schedule where
  "fleet_row = sample_schedule\<lparr>s_last_materialized_at := Some 0\<rparr>"

definition fleet_inserted :: db where
  "fleet_inserted = fst (Materialize pg_mat_store fleet_db fleet_row [minute])"

definition fleet_recorded :: db where
  "fleet_recorded = AdvanceLastMaterializedAt fleet_inserted 1 minute"

lemma fleet_db_row:
  "ListEnabledSchedules fleet_db = [fleet_row]" "schedule_by_id fleet_db 1 = Some fleet_row"
  "s_id fleet_row = 1" "s_last_materialized_at fleet_row = Some 0"
  "\<not> isl (snd (Materialize pg_mat_store fleet_db fleet_row [minute]))"
  "resume_point fleet_recorded 1 = Some minute"
  unfolding fleet_recorded_def fleet_inserted_def Materialize_def pg_mat_store_def
  by code_simp+

lemma fleet_Plan: "Plan once_env fleet_row 0 (5 * minute) = Some (Inr [minute])"
proof -
  have "Location (env_zones once_env) fleet_row = Location (env_zones once_env) sample_schedule"
    "s_cron fleet_row = s_cron sample_schedule" "plan_after fleet_row 0 = plan_after sample_schedule 0"
    by (simp_all add: fleet_row_def Location_def plan_after_def sample_schedule_def)
  then have "Plan once_env fleet_row 0 (5 * minute) = Plan once_env sample_schedule 0 (5 * minute)"
    by (simp only: Plan_def)
  then show ?thesis by (simp add: once_Plan)
qed

lemma sample_fleet: "\<exists>listed inserted. fleet once_env fleet_db fleet_recorded listed inserted"
proof -
  have "op_ListEnabledSchedules (net_mat_store no_mat_faults) fleet_db = (fleet_db, Inr [fleet_row])"
    by (simp add: net_mat_store_Fine pg_mat_store_def fleet_db_row)
  from fleet.lists [OF fleet.idle this] have listed: "fleet once_env fleet_db fleet_db ([fleet_row] @ []) []" .
  obtain out where "Materialize pg_mat_store fleet_db fleet_row [minute] = (fleet_inserted, Inr out)"
    using fleet_db_row(5) unfolding fleet_inserted_def by (metis prod.collapse sum.collapse(2))
  then have "Materialize (net_mat_store no_mat_faults) fleet_db fleet_row [minute] = (fleet_inserted, Inr out)"
    by (simp add: net_mat_store_Fine)
  from fleet.inserts [OF listed _ fleet_Plan _ this]
  have "fleet once_env fleet_db fleet_inserted ([fleet_row] @ []) [(fleet_row, [minute])]" by simp
  moreover have "op_AdvanceLastMaterializedAt (net_mat_store no_mat_faults) fleet_inserted
      (s_id fleet_row) (last [minute]) = (fleet_recorded, None)"
    by (simp add: net_mat_store_Fine pg_mat_store_def fleet_recorded_def fleet_db_row)
  ultimately show ?thesis using fleet.records by fastforce
qed


end
