(* ===== verification/Migrate.thy ===== *)
theory Migrate
  imports Go_Text
begin

text \<open>
  internal/migrate: reading the embedded migrations (loadFrom) and bringing a database up to
  the latest one (Apply, appliedVersions, applyOne). The database server is a parameter: what
  executing a migration's SQL does to the schema, and which calls of the driver fail. Apply
  holds one advisory lock in one transaction from its first statement to its commit, so
  processes that migrate at once run one after the other. The log lines are left out.
\<close>

section \<open>The migrations in the binary\<close>

record Migration =
  Version :: int
  mig_name :: string
  SQL :: string

definition Migration_String :: "Migration \<Rightarrow> string" where
  "Migration_String m = pad0 4 (nat (Version m)) @ ''_'' @ mig_name m"

text \<open>An entry of the directory, with what reading the file returns.\<close>

record dir_entry =
  entry_name :: string
  entry_is_dir :: bool
  entry_body :: "string + string"

definition HasSuffix :: "string \<Rightarrow> string \<Rightarrow> bool" where
  "HasSuffix s suf \<longleftrightarrow> length suf \<le> length s \<and> drop (length s - length suf) s = suf"

definition is_name_char :: "char \<Rightarrow> bool" where
  "is_name_char c \<longleftrightarrow> is_digit c \<or> c = CHR ''_''
    \<or> 97 \<le> (of_char c :: nat) \<and> (of_char c :: nat) \<le> 122"

text \<open>The two groups that the pattern of migration filenames captures.\<close>

definition filenamePattern :: "string \<Rightarrow> (string \<times> string) option" where
  "filenamePattern s =
    (let digits = take 4 s; name = drop 5 (take (length s - 4) s)
     in if HasSuffix s ''.sql'' \<and> 9 < length s \<and> list_all is_digit digits
           \<and> s ! 4 = CHR ''_'' \<and> list_all is_name_char name
        then Some (digits, name) else None)"

fun load_entries :: "dir_entry list \<Rightarrow> (int \<times> string) list \<Rightarrow> Migration list \<Rightarrow> string + Migration list" where
  "load_entries [] seen migrations = Inr migrations"
| "load_entries (e # es) seen migrations =
    (if entry_is_dir e \<or> \<not> HasSuffix (entry_name e) ''.sql'' then load_entries es seen migrations
     else case filenamePattern (entry_name e) of
       None \<Rightarrow> Inl (''migration '' @ quote (entry_name e) @ '' does not match NNNN_description.sql'')
     | Some (digits, name) \<Rightarrow>
         (let version = int (read_digits digits)
          in case map_of seen version of
            Some prev \<Rightarrow> Inl (''migrations '' @ quote prev @ '' and '' @ quote (entry_name e)
                @ '' share version '' @ Itoa version)
          | None \<Rightarrow>
              (case entry_body e of
                 Inl err \<Rightarrow> Inl (''reading '' @ quote (entry_name e) @ '': '' @ err)
               | Inr body \<Rightarrow>
                   if TrimSpace body = [] then Inl (''migration '' @ quote (entry_name e) @ '' is empty'')
                   else load_entries es ((version, entry_name e) # seen)
                     (migrations @ [\<lparr>Version = version, mig_name = name, SQL = body\<rparr>]))))"

definition loadFrom :: "string + dir_entry list \<Rightarrow> string + Migration list" where
  "loadFrom dir =
    (case dir of
       Inl err \<Rightarrow> Inl (''reading migration directory: '' @ err)
     | Inr entries \<Rightarrow> map_sum id (sort_key Version) (load_entries entries [] []))"

section \<open>The database and its driver\<close>

text \<open>
  The rest of the schema is whatever the migrations build; the bookkeeping table may not
  exist yet.
\<close>

record 's mig_db =
  rest :: 's
  schema_migrations :: "(int \<times> string) list option"

text \<open>
  A commit that reports an error may or may not have reached the server, which the flag
  says. Rollback's own error is given as the deferred call sees it after a commit and
  otherwise: None stands for success and for ErrTxClosed.
\<close>

datatype commit_result = Commit_ok | Commit_error string bool

record 's driver =
  begin_error :: "string option"
  lock_error :: "string option"
  ddl_error :: "string option"
  query_error :: "string option"
  scan_error :: "string option"
  rows_error :: "string option"
  exec_sql :: "string \<Rightarrow> 's \<Rightarrow> string + 's"
  insert_error :: "int \<Rightarrow> string option"
  commit_tx :: commit_result
  rollback_error :: "string option"

definition schemaTableDDL :: "'s mig_db \<Rightarrow> 's mig_db" where
  "schemaTableDDL d =
    (case schema_migrations d of None \<Rightarrow> d\<lparr>schema_migrations := Some []\<rparr> | Some _ \<Rightarrow> d)"

definition recorded :: "'s mig_db \<Rightarrow> (int \<times> string) list" where
  "recorded d = (case schema_migrations d of None \<Rightarrow> [] | Some rows \<Rightarrow> rows)"

definition appliedVersions :: "'s driver \<Rightarrow> 's mig_db \<Rightarrow> string + int set" where
  "appliedVersions drv d =
    (case query_error drv of Some err \<Rightarrow> Inl (''reading applied versions: '' @ err) | None \<Rightarrow>
     case (if recorded d = [] then None else scan_error drv) of
       Some err \<Rightarrow> Inl (''scanning applied version: '' @ err) | None \<Rightarrow>
     case rows_error drv of Some err \<Rightarrow> Inl (''iterating applied versions: '' @ err) | None \<Rightarrow>
       Inr (fst ` set (recorded d)))"

definition record_version :: "'s driver \<Rightarrow> Migration \<Rightarrow> 's mig_db \<Rightarrow> string + 's mig_db" where
  "record_version drv m d =
    (case insert_error drv (Version m) of
       Some err \<Rightarrow> Inl err
     | None \<Rightarrow>
         if Version m \<in> fst ` set (recorded d)
         then Inl ''duplicate key value violates unique constraint''
         else Inr (d\<lparr>schema_migrations := Some (recorded d @ [(Version m, mig_name m)])\<rparr>))"

definition applyOne :: "'s driver \<Rightarrow> 's mig_db \<Rightarrow> Migration \<Rightarrow> string + 's mig_db" where
  "applyOne drv d m =
    (case exec_sql drv (SQL m) (rest d) of
       Inl err \<Rightarrow> Inl (''applying migration '' @ Migration_String m @ '': '' @ err)
     | Inr s \<Rightarrow>
         (case record_version drv m (d\<lparr>rest := s\<rparr>) of
            Inl err \<Rightarrow> Inl (''recording migration '' @ Migration_String m @ '': '' @ err)
          | Inr d' \<Rightarrow> Inr d'))"

text \<open>The loop over the migrations: how many were applied, and the error that ended it or the state.\<close>

fun apply_missing :: "'s driver \<Rightarrow> int set \<Rightarrow> Migration list \<Rightarrow> 's mig_db \<Rightarrow> nat \<Rightarrow> nat \<times> (string + 's mig_db)" where
  "apply_missing drv versions [] d applied = (applied, Inr d)"
| "apply_missing drv versions (m # ms) d applied =
    (if Version m \<in> versions then apply_missing drv versions ms d applied
     else case applyOne drv d m of
       Inl err \<Rightarrow> (applied, Inl err)
     | Inr d' \<Rightarrow> apply_missing drv versions ms d' (applied + 1))"

text \<open>The statements on the transaction: what they leave there, which only a commit keeps.\<close>

definition run_statements :: "'s driver \<Rightarrow> Migration list \<Rightarrow> 's mig_db \<Rightarrow> nat \<times> (string + 's mig_db)" where
  "run_statements drv migrations d =
    (case lock_error drv of Some err \<Rightarrow> (0, Inl (''acquiring migration lock: '' @ err)) | None \<Rightarrow>
     case ddl_error drv of Some err \<Rightarrow> (0, Inl (''creating schema_migrations: '' @ err)) | None \<Rightarrow>
       (let d0 = schemaTableDDL d
        in case appliedVersions drv d0 of
             Inl err \<Rightarrow> (0, Inl err)
           | Inr versions \<Rightarrow> apply_missing drv versions migrations d0 0))"

definition run_tx :: "'s driver \<Rightarrow> Migration list \<Rightarrow> 's mig_db \<Rightarrow> 's mig_db \<times> nat \<times> string option" where
  "run_tx drv migrations d =
    (case run_statements drv migrations d of
       (applied, Inl err) \<Rightarrow> (d, applied, Some err)
     | (applied, Inr d') \<Rightarrow>
         (case commit_tx drv of
            Commit_ok \<Rightarrow> (d', applied, None)
          | Commit_error err reached \<Rightarrow>
              (if reached then d' else d, applied, Some (''committing migrations: '' @ err))))"

definition Apply :: "'s driver \<Rightarrow> string + dir_entry list \<Rightarrow> 's mig_db \<Rightarrow> 's mig_db \<times> nat \<times> string option" where
  "Apply drv dir d =
    (case loadFrom dir of
       Inl err \<Rightarrow> (d, 0, Some err)
     | Inr migrations \<Rightarrow>
         if migrations = [] then (d, 0, Some ''no migrations are embedded in the binary'')
         else case begin_error drv of
           Some err \<Rightarrow> (d, 0, Some (''beginning lock transaction: '' @ err))
         | None \<Rightarrow>
             (case run_tx drv migrations d of
                (d', applied, Some err) \<Rightarrow> (d', applied, Some err)
              | (d', applied, None) \<Rightarrow>
                  (d', applied, map_option (\<lambda>err. ''releasing migration lock: '' @ err) (rollback_error drv))))"

section \<open>What loading promises\<close>

lemma load_entries_Inr:
  assumes "load_entries es seen ms = Inr ms'"
    and "fst ` set seen = Version ` set ms" and "distinct (map Version ms)"
  shows "distinct (map Version ms')"
  using assms
proof (induction es seen ms rule: load_entries.induct)
  case (2 e es seen ms)
  then show ?case
    by (auto simp: Let_def map_of_eq_None_iff split: if_splits option.splits sum.splits prod.splits)
qed auto

lemma loadFrom_sorted:
  assumes "loadFrom dir = Inr ms"
  shows "sorted (map Version ms)" and "distinct (map Version ms)"
proof -
  obtain es ms0 where load: "dir = Inr es" "load_entries es [] [] = Inr ms0" "ms = sort_key Version ms0"
    using assms by (cases dir; cases "load_entries (projr dir) [] []") (auto simp: loadFrom_def)
  then show "sorted (map Version ms)" by simp
  have "distinct (map Version ms0)" using load_entries_Inr [OF load(2)] by simp
  then have "distinct (sort (map Version ms0))" by simp
  then show "distinct (map Version ms)"
    using load(3) by (metis distinct_map distinct_sort set_sort)
qed

section \<open>What applying promises\<close>

definition missing :: "Migration list \<Rightarrow> 's mig_db \<Rightarrow> Migration list" where
  "missing ms d = filter (\<lambda>m. Version m \<notin> fst ` set (recorded d)) ms"

text \<open>Running statements one after the other, as long as each succeeds.\<close>

fun exec_all :: "(string \<Rightarrow> 's \<Rightarrow> string + 's) \<Rightarrow> string list \<Rightarrow> 's \<Rightarrow> 's option" where
  "exec_all ex [] s = Some s"
| "exec_all ex (q # qs) s = (case ex q s of Inl _ \<Rightarrow> None | Inr s' \<Rightarrow> exec_all ex qs s')"

definition migrated :: "'s driver \<Rightarrow> Migration list \<Rightarrow> 's mig_db \<Rightarrow> 's mig_db \<Rightarrow> bool" where
  "migrated drv ms d d' \<longleftrightarrow>
    schema_migrations d' \<noteq> None
    \<and> recorded d' = recorded d @ map (\<lambda>m. (Version m, mig_name m)) (missing ms d)
    \<and> exec_all (exec_sql drv) (map SQL (missing ms d)) (rest d) = Some (rest d')"

lemma recorded_simps [simp]:
  "recorded (schemaTableDDL d) = recorded d"
  "recorded (d\<lparr>rest := s\<rparr>) = recorded d"
  "recorded (d\<lparr>schema_migrations := Some rows\<rparr>) = rows"
  "rest (schemaTableDDL d) = rest d"
  by (simp_all add: recorded_def schemaTableDDL_def split: option.splits)

lemma applyOne_Inr:
  "applyOne drv d m = Inr d' \<Longrightarrow> recorded d' = recorded d @ [(Version m, mig_name m)]
    \<and> exec_sql drv (SQL m) (rest d) = Inr (rest d')"
  by (auto simp: applyOne_def record_version_def split: sum.splits option.splits if_splits)

lemma apply_missing_Inr:
  assumes "apply_missing drv versions ms d n = (n', Inr d')"
  shows "recorded d' = recorded d @ map (\<lambda>m. (Version m, mig_name m)) (filter (\<lambda>m. Version m \<notin> versions) ms)
    \<and> exec_all (exec_sql drv) (map SQL (filter (\<lambda>m. Version m \<notin> versions) ms)) (rest d) = Some (rest d')
    \<and> n' = n + length (filter (\<lambda>m. Version m \<notin> versions) ms)"
  using assms
proof (induction drv versions ms d n rule: apply_missing.induct)
  case (2 drv versions m ms d n)
  then show ?case by (auto split: if_splits sum.splits dest!: applyOne_Inr)
qed auto

lemma apply_missing_table:
  "apply_missing drv versions ms d n = (n', Inr d') \<Longrightarrow> schema_migrations d \<noteq> None \<Longrightarrow> schema_migrations d' \<noteq> None"
  by (induction drv versions ms d n rule: apply_missing.induct)
    (auto simp: applyOne_def record_version_def split: if_splits sum.splits option.splits)

lemma appliedVersions_Inr: "appliedVersions drv d = Inr v \<Longrightarrow> v = fst ` set (recorded d)"
  by (auto simp: appliedVersions_def split: option.splits if_splits)

lemma run_statements_Inr:
  assumes "run_statements drv ms d = (n, Inr d')"
  shows "migrated drv ms d d' \<and> n = length (missing ms d)"
proof -
  have run: "apply_missing drv (fst ` set (recorded d)) ms (schemaTableDDL d) 0 = (n, Inr d')"
    using assms by (auto simp: run_statements_def Let_def split: option.splits sum.splits
        dest!: appliedVersions_Inr)
  have "schema_migrations (schemaTableDDL d) \<noteq> None"
    by (simp add: schemaTableDDL_def split: option.splits)
  then show ?thesis
    using apply_missing_Inr [OF run] apply_missing_table [OF run] by (simp add: migrated_def missing_def)
qed

text \<open>The recording of a version never runs into the primary key.\<close>

lemma apply_missing_succeeds:
  assumes "distinct (map Version ms)" and "fst ` set (recorded d) \<inter> Version ` set ms \<subseteq> versions"
    and "\<And>v. insert_error drv v = None"
    and "exec_all (exec_sql drv) (map SQL (filter (\<lambda>m. Version m \<notin> versions) ms)) (rest d) \<noteq> None"
  shows "\<exists>n' d'. apply_missing drv versions ms d n = (n', Inr d')"
  using assms
proof (induction drv versions ms d n rule: apply_missing.induct)
  case (2 drv versions m ms d n)
  show ?case
  proof (cases "Version m \<in> versions")
    case True
    then show ?thesis using "2.IH"(1) "2.prems" by auto
  next
    case False
    then obtain s where s: "exec_sql drv (SQL m) (rest d) = Inr s"
      "exec_all (exec_sql drv) (map SQL (filter (\<lambda>m. Version m \<notin> versions) ms)) s \<noteq> None"
      using "2.prems"(4) by (auto split: sum.splits)
    have fresh: "Version m \<notin> fst ` set (recorded d)" using False "2.prems"(2) by auto
    let ?d = "d\<lparr>rest := s, schema_migrations := Some (recorded d @ [(Version m, mig_name m)])\<rparr>"
    have one: "applyOne drv d m = Inr ?d"
      using s(1) fresh "2.prems"(3) by (simp add: applyOne_def record_version_def)
    have "\<exists>n' d'. apply_missing drv versions ms ?d (n + 1) = (n', Inr d')"
      using "2.IH"(2) [OF False one] "2.prems" s(2) by auto
    then show ?thesis using False one by simp
  qed
qed simp

definition faultless :: "'s driver \<Rightarrow> bool" where
  "faultless drv \<longleftrightarrow> begin_error drv = None \<and> lock_error drv = None \<and> ddl_error drv = None
    \<and> query_error drv = None \<and> scan_error drv = None \<and> rows_error drv = None
    \<and> (\<forall>v. insert_error drv v = None) \<and> commit_tx drv = Commit_ok \<and> rollback_error drv = None"

lemma migrated_missing: "migrated drv ms d d' \<Longrightarrow> missing ms d' = []"
proof -
  assume "migrated drv ms d d'"
  then have "recorded d' = recorded d @ map (\<lambda>m. (Version m, mig_name m)) (missing ms d)"
    by (simp add: migrated_def)
  then have "fst ` set (recorded d') = fst ` set (recorded d) \<union> Version ` set (missing ms d)"
    by (simp add: image_Un image_image)
  then show ?thesis by (auto simp: missing_def filter_empty_conv)
qed

lemma Apply_cases:
  assumes "loadFrom dir = Inr ms" and "Apply drv dir d = (d', n, err)"
  shows "d' = d \<and> err \<noteq> None \<or> migrated drv ms d d' \<and> n = length (missing ms d)"
proof -
  have tx: "fst (run_tx drv ms d) = d \<and> snd (snd (run_tx drv ms d)) \<noteq> None
      \<or> migrated drv ms d (fst (run_tx drv ms d)) \<and> fst (snd (run_tx drv ms d)) = length (missing ms d)"
  proof (cases "run_statements drv ms d")
    case (Pair k res)
    then show ?thesis using run_statements_Inr [of drv ms d k]
      by (cases res; cases "commit_tx drv") (auto simp: run_tx_def)
  qed
  obtain d1 n1 err1 where run: "run_tx drv ms d = (d1, n1, err1)" by (cases "run_tx drv ms d")
  from tx assms show ?thesis
    by (cases "ms = []"; cases "begin_error drv"; cases err1) (auto simp: Apply_def run)
qed

lemma run_statements_faultless:
  "faultless drv \<Longrightarrow>
    run_statements drv ms d = apply_missing drv (fst ` set (recorded d)) ms (schemaTableDDL d) 0"
  by (cases "recorded d = []")
    (simp_all add: run_statements_def faultless_def appliedVersions_def Let_def)

lemma Apply_faultless:
  assumes load: "loadFrom dir = Inr ms" "ms \<noteq> []" and drv: "faultless drv"
    and sql: "exec_all (exec_sql drv) (map SQL (missing ms d)) (rest d) \<noteq> None"
  shows "\<exists>d'. Apply drv dir d = (d', length (missing ms d), None)"
proof -
  have "\<exists>n' d'. apply_missing drv (fst ` set (recorded d)) ms (schemaTableDDL d) 0 = (n', Inr d')"
    using apply_missing_succeeds [OF loadFrom_sorted(2) [OF load(1)], of "schemaTableDDL d"] drv sql
    by (simp add: faultless_def missing_def)
  then obtain n' d' where run: "run_statements drv ms d = (n', Inr d')"
    by (auto simp: run_statements_faultless [OF drv])
  then have "Apply drv dir d = (d', n', None)"
    using load drv by (simp add: Apply_def run_tx_def faultless_def)
  then show ?thesis using run_statements_Inr [OF run] by simp
qed

lemma Apply_migrated:
  assumes load: "loadFrom dir = Inr ms" "ms \<noteq> []" and drv: "faultless drv" and mig: "migrated drv0 ms d0 d"
  shows "Apply drv dir d = (d, 0, None)"
proof -
  have none: "missing ms d = []" by (rule migrated_missing [OF mig])
  then obtain d' where d': "Apply drv dir d = (d', 0, None)"
    using Apply_faultless [OF load drv, of d] by auto
  have "apply_missing drv (fst ` set (recorded d)) ms d 0 = (0, Inr d)"
    using none unfolding missing_def by (induction ms) (auto split: if_splits)
  moreover have "schemaTableDDL d = d" using mig by (auto simp: migrated_def schemaTableDDL_def)
  ultimately show ?thesis
    using load drv run_statements_faultless [OF drv, of ms d] by (simp add: Apply_def run_tx_def faultless_def)
qed

section \<open>Migrating is all or nothing\<close>

text \<open>
  C40. The embedded migrations load in increasing order of distinct versions. Whatever fails
  while they are applied, the database is afterwards either exactly as it was or has every
  missing migration run once, in version order, and recorded. Without an error it is the
  latter, and the count is the number of those migrations. When no call fails and the SQL
  runs, Apply does succeed; and a later Apply finds nothing left to do.
\<close>

theorem apply_is_all_or_nothing:
  assumes "loadFrom dir = Inr ms" and "ms \<noteq> []" and "Apply drv dir d = (d', n, err)"
  shows "sorted (map Version ms) \<and> distinct (map Version ms)
    \<and> (d' = d \<or> migrated drv ms d d')
    \<and> (err = None \<longrightarrow> migrated drv ms d d' \<and> n = length (missing ms d)
        \<and> (\<forall>drv'. faultless drv' \<longrightarrow> Apply drv' dir d' = (d', 0, None)))
    \<and> (faultless drv \<and> exec_all (exec_sql drv) (map SQL (missing ms d)) (rest d) \<noteq> None
        \<longrightarrow> err = None)"
proof -
  have "migrated drv ms d d' \<and> n = length (missing ms d)" if "err = None"
    using Apply_cases [OF assms(1,3)] that by blast
  moreover have "err = None" if "faultless drv"
    "exec_all (exec_sql drv) (map SQL (missing ms d)) (rest d) \<noteq> None"
    using Apply_faultless [OF assms(1,2) that] assms(3) by auto
  ultimately show ?thesis
    using loadFrom_sorted [OF assms(1)] Apply_cases [OF assms(1,3)] Apply_migrated [OF assms(1,2)] by blast
qed

text \<open>The two files the repository embeds, run by a server that logs the statements it gets.\<close>

definition logging_driver :: "string list driver" where
  "logging_driver = \<lparr>begin_error = None, lock_error = None, ddl_error = None, query_error = None,
    scan_error = None, rows_error = None, exec_sql = (\<lambda>q s. Inr (s @ [q])), insert_error = (\<lambda>_. None),
    commit_tx = Commit_ok, rollback_error = None\<rparr>"

definition sample_dir :: "string + dir_entry list" where
  "sample_dir = Inr
    [\<lparr>entry_name = ''0001_tasks.sql'', entry_is_dir = False, entry_body = Inr ''CREATE TABLE tasks''\<rparr>,
     \<lparr>entry_name = ''0002_schedules.sql'', entry_is_dir = False, entry_body = Inr ''CREATE TABLE schedules''\<rparr>]"

lemma sample_loads:
  "loadFrom sample_dir = Inr
    [\<lparr>Version = 1, mig_name = ''tasks'', SQL = ''CREATE TABLE tasks''\<rparr>,
     \<lparr>Version = 2, mig_name = ''schedules'', SQL = ''CREATE TABLE schedules''\<rparr>]"
  by code_simp

lemma sample_apply:
  "Apply logging_driver sample_dir \<lparr>rest = [], schema_migrations = Some [(1, ''tasks'')]\<rparr> =
    (\<lparr>rest = [''CREATE TABLE schedules''],
      schema_migrations = Some [(1, ''tasks''), (2, ''schedules'')]\<rparr>, 1, None)"
  by (simp add: Apply_def sample_loads run_tx_def run_statements_def schemaTableDDL_def appliedVersions_def
      recorded_def applyOne_def record_version_def logging_driver_def)

lemma apply_is_all_or_nothing_witness:
  "Apply logging_driver sample_dir \<lparr>rest = [''CREATE TABLE schedules''],
      schema_migrations = Some [(1, ''tasks''), (2, ''schedules'')]\<rparr> =
    (\<lparr>rest = [''CREATE TABLE schedules''],
      schema_migrations = Some [(1, ''tasks''), (2, ''schedules'')]\<rparr>, 0, None)"
  using apply_is_all_or_nothing [OF sample_loads _ sample_apply]
  by (simp add: faultless_def logging_driver_def)

end
