(* ===== verification/Go_RFC3339.thy ===== *)
theory Go_RFC3339
  imports Go_Time Go_Duration
begin

text \<open>
  time.Parse with the layout RFC3339, chunk by chunk as the standard library reads it: a
  four-digit year, two-digit month, day, minute and second, an hour of one or two digits, a
  fraction that the layout does not ask for but accepts, and Z or an offset. Fractions finer
  than the microsecond of an instant are dropped, as the database column drops them.
\<close>

section \<open>Chunks\<close>

text \<open>getnum: a number of two digits, or of one where the layout allows it.\<close>

definition getnum :: "bool \<Rightarrow> string \<Rightarrow> (int \<times> string) option" where
  "getnum fixed s =
    (case s of
       c # d # rest \<Rightarrow>
         if \<not> is_digit c then None
         else if is_digit d then Some (10 * int (digit_val c) + int (digit_val d), rest)
         else if fixed then None else Some (int (digit_val c), d # rest)
     | [c] \<Rightarrow> if is_digit c \<and> \<not> fixed then Some (int (digit_val c), []) else None
     | [] \<Rightarrow> None)"

definition getyear :: "string \<Rightarrow> (int \<times> string) option" where
  "getyear s =
    (if 4 \<le> length s \<and> list_all is_digit (take 4 s)
     then Some (digits_value (take 4 s), drop 4 s) else None)"

definition literal :: "char \<Rightarrow> string \<Rightarrow> string option" where
  "literal c s = (case s of [] \<Rightarrow> None | d # rest \<Rightarrow> if d = c then Some rest else None)"

definition ranged :: "int \<Rightarrow> int \<Rightarrow> (int \<times> string) option \<Rightarrow> (int \<times> string) option" where
  "ranged lo hi r =
    (case r of None \<Rightarrow> None | Some (n, rest) \<Rightarrow> if lo \<le> n \<and> n \<le> hi then Some (n, rest) else None)"

text \<open>A separator, then a number in a range.\<close>

definition after_literal :: "char \<Rightarrow> bool \<Rightarrow> int \<Rightarrow> int \<Rightarrow> string \<Rightarrow> (int \<times> string) option" where
  "after_literal c fixed lo hi s =
    (case literal c s of None \<Rightarrow> None | Some rest \<Rightarrow> ranged lo hi (getnum fixed rest))"

text \<open>Nine digits of a fraction count; the rest are read and ignored.\<close>

definition fraction_micros :: "string \<Rightarrow> int \<times> string" where
  "fraction_micros s =
    (case s of
       p # d # rest \<Rightarrow>
         if (p = CHR ''.'' \<or> p = CHR '','') \<and> is_digit d
         then (let ds = takeWhile is_digit (d # rest)
               in (digits_value (take 6 (ds @ ''000000'')), dropWhile is_digit (d # rest)))
         else (0, s)
     | _ \<Rightarrow> (0, s))"

text \<open>The offset in seconds.\<close>

definition zone_offset :: "string \<Rightarrow> (int \<times> string) option" where
  "zone_offset s =
    (case s of
       [] \<Rightarrow> None
     | c # rest \<Rightarrow>
         if c = CHR ''Z'' then Some (0, rest)
         else if c \<noteq> CHR ''+'' \<and> c \<noteq> CHR ''-'' then None
         else case ranged 0 24 (getnum True rest) of
           None \<Rightarrow> None
         | Some (hr, rest) \<Rightarrow>
             (case after_literal (CHR '':'') True 0 60 rest of
                None \<Rightarrow> None
              | Some (mm, rest) \<Rightarrow>
                  (let off = (hr * 60 + mm) * 60
                   in Some (if c = CHR ''-'' then - off else off, rest))))"

section \<open>Parse\<close>

definition daysIn :: "int \<Rightarrow> int \<Rightarrow> int" where
  "daysIn month year = month_lengths (leap_year year) ! nat (month - 1)"

definition Parse_RFC3339 :: "string \<Rightarrow> instant option" where
  "Parse_RFC3339 s =
    (case getyear s of None \<Rightarrow> None | Some (y, s) \<Rightarrow>
     case after_literal (CHR ''-'') True 1 12 s of None \<Rightarrow> None | Some (mo, s) \<Rightarrow>
     case after_literal (CHR ''-'') True 0 99 s of None \<Rightarrow> None | Some (dd, s) \<Rightarrow>
     case after_literal (CHR ''T'') False 0 23 s of None \<Rightarrow> None | Some (h, s) \<Rightarrow>
     case after_literal (CHR '':'') True 0 59 s of None \<Rightarrow> None | Some (mi, s) \<Rightarrow>
     case after_literal (CHR '':'') True 0 59 s of None \<Rightarrow> None | Some (sec, s) \<Rightarrow>
     case fraction_micros s of (micros, s) \<Rightarrow>
     case zone_offset s of None \<Rightarrow> None | Some (off, s) \<Rightarrow>
       if s \<noteq> [] \<or> dd < 1 \<or> daysIn mo y < dd then None
       else Some (wall_of \<lparr>date = \<lparr>Year = y, Month = mo, Day = dd\<rparr>, Hour = h, Minute = mi,
                    Second = sec, Micro = micros\<rparr> - off * second))"

lemma Parse_RFC3339_examples:
  "Parse_RFC3339 ''1970-01-01T00:00:00Z'' = Some 0"
  "Parse_RFC3339 ''1970-01-02T3:00:01.5+01:00'' = Some ((86400 + 7201) * 1000000 + 500000)"
  "Parse_RFC3339 ''2023-02-29T00:00:00Z'' = None"
  "Parse_RFC3339 ''2024-02-29T00:00:00'' = None"
  "Parse_RFC3339 ''2024-02-29 00:00:00Z'' = None"
  by code_simp+

end
