(* ===== verification/Go_JSON.thy ===== *)
theory Go_JSON
  imports Go_Duration
begin

text \<open>
  The part of encoding/json that the program decodes with: the scanner's grammar, the strings
  with their escapes, and how a value is stored into the Go types of the request bodies. A
  member of an object keeps the text of its value, which is what a json.RawMessage receives.
  The wording of the decoder's errors is not modelled.
\<close>

section \<open>UTF-8\<close>

text \<open>The length of the well-formed multi-byte sequence a string starts with, 0 if there is none.\<close>

definition byte :: "char \<Rightarrow> nat" where
  "byte c = of_char c"

definition continues :: "char \<Rightarrow> bool" where
  "continues c \<longleftrightarrow> 128 \<le> byte c \<and> byte c \<le> 191"

definition second_ok :: "nat \<Rightarrow> nat \<Rightarrow> bool" where
  "second_ok lead b \<longleftrightarrow>
    (if lead = 224 then 160 \<le> b \<and> b \<le> 191
     else if lead = 237 then 128 \<le> b \<and> b \<le> 159
     else if lead = 240 then 144 \<le> b \<and> b \<le> 191
     else if lead = 244 then 128 \<le> b \<and> b \<le> 143
     else 128 \<le> b \<and> b \<le> 191)"

definition rune_len :: "string \<Rightarrow> nat" where
  "rune_len s =
    (case s of
       c # d # cs \<Rightarrow>
         let l = byte c; n = (if 194 \<le> l \<and> l \<le> 223 then 2 else if 224 \<le> l \<and> l \<le> 239 then 3
                              else if 240 \<le> l \<and> l \<le> 244 then 4 else 0)
         in if 0 < n \<and> second_ok l (byte d) \<and> n - 2 \<le> length cs \<and> list_all continues (take (n - 2) cs)
            then n else 0
     | _ \<Rightarrow> 0)"

definition utf8_encode :: "nat \<Rightarrow> string" where
  "utf8_encode r =
    (if r < 128 then [char_of r]
     else if r < 2048 then [char_of (192 + r div 64), char_of (128 + r mod 64)]
     else if r < 65536
     then [char_of (224 + r div 4096), char_of (128 + r div 64 mod 64), char_of (128 + r mod 64)]
     else [char_of (240 + r div 262144), char_of (128 + r div 4096 mod 64),
           char_of (128 + r div 64 mod 64), char_of (128 + r mod 64)])"

definition replacement :: string where
  "replacement = [CHR 0xEF, CHR 0xBF, CHR 0xBD]"

section \<open>Strings\<close>

definition hex_val :: "char \<Rightarrow> nat option" where
  "hex_val c =
    (let n = byte c
     in if 48 \<le> n \<and> n \<le> 57 then Some (n - 48)
        else if 97 \<le> n \<and> n \<le> 102 then Some (n - 87)
        else if 65 \<le> n \<and> n \<le> 70 then Some (n - 55)
        else None)"

text \<open>getu4: the code unit of an escape with four hexadecimal digits.\<close>

definition getu4 :: "string \<Rightarrow> nat option" where
  "getu4 s =
    (case s of
       b # u # h1 # h2 # h3 # h4 # _ \<Rightarrow>
         if b = CHR 0x5C \<and> u = CHR ''u'' then
           (case (hex_val h1, hex_val h2, hex_val h3, hex_val h4) of
              (Some w, Some x, Some y, Some z) \<Rightarrow> Some (((w * 16 + x) * 16 + y) * 16 + z)
            | _ \<Rightarrow> None)
         else None
     | _ \<Rightarrow> None)"

definition simple_escape :: "char \<Rightarrow> char option" where
  "simple_escape e =
    (if e \<in> {CHR 0x22, CHR 0x5C, CHR ''/''} then Some e
     else if e = CHR ''b'' then Some (CHR 0x08) else if e = CHR ''f'' then Some (CHR 0x0C)
     else if e = CHR ''n'' then Some (CHR 0x0A) else if e = CHR ''r'' then Some (CHR 0x0D)
     else if e = CHR ''t'' then Some (CHR 0x09) else None)"

text \<open>The scanner's string: what stands up to the closing quote, and what follows it.\<close>

function scan_string :: "string \<Rightarrow> (string \<times> string) option" where
  "scan_string [] = None"
| "scan_string (c # cs) =
    (if c = CHR 0x22 then Some ([], cs)
     else if c = CHR 0x5C then
       (if cs = [] then None
        else if simple_escape (hd cs) \<noteq> None
        then map_option (\<lambda>(lit, rest). (c # hd cs # lit, rest)) (scan_string (tl cs))
        else if getu4 (c # cs) \<noteq> None
        then map_option (\<lambda>(lit, rest). (c # take 5 cs @ lit, rest)) (scan_string (drop 5 cs))
        else None)
     else if byte c < 32 then None
     else map_option (\<lambda>(lit, rest). (c # lit, rest)) (scan_string cs))"
  by pat_completeness auto
termination by (relation "measure length") auto

text \<open>unquote: escapes replaced, surrogate pairs joined, anything ill-formed made U+FFFD.\<close>

definition surrogate :: "nat \<Rightarrow> bool" where
  "surrogate r \<longleftrightarrow> 55296 \<le> r \<and> r < 57344"

definition pair_rune :: "nat \<Rightarrow> nat option \<Rightarrow> nat option" where
  "pair_rune hi lo =
    (case lo of
       Some l \<Rightarrow> if hi < 56320 \<and> 56320 \<le> l \<and> l < 57344
                 then Some ((hi - 55296) * 1024 + (l - 56320) + 65536) else None
     | None \<Rightarrow> None)"

function unquote :: "string \<Rightarrow> string" where
  "unquote [] = []"
| "unquote (c # cs) =
    (if c = CHR 0x5C then
       (case getu4 (c # cs) of
          Some r \<Rightarrow>
            (let rest = drop 5 cs
             in if surrogate r then
                  (case pair_rune r (getu4 rest) of
                     Some q \<Rightarrow> utf8_encode q @ unquote (drop 6 rest)
                   | None \<Rightarrow> replacement @ unquote rest)
                else utf8_encode r @ unquote rest)
        | None \<Rightarrow>
            (case cs of [] \<Rightarrow> []
             | e # ds \<Rightarrow> (case simple_escape e of Some x \<Rightarrow> x # unquote ds | None \<Rightarrow> unquote ds)))
     else if byte c < 128 then c # unquote cs
     else if rune_len (c # cs) = 0 then replacement @ unquote cs
     else take (rune_len (c # cs)) (c # cs) @ unquote (drop (rune_len (c # cs) - 1) cs))"
  by pat_completeness auto
termination by (relation "measure length") auto

section \<open>Numbers and literals\<close>

definition digits_then :: "string \<Rightarrow> (string \<times> string) option" where
  "digits_then s =
    (let ds = takeWhile is_digit s in if ds = [] then None else Some (ds, dropWhile is_digit s))"

text \<open>A leading zero stands alone.\<close>

definition scan_int :: "string \<Rightarrow> (string \<times> string) option" where
  "scan_int s =
    (case s of [] \<Rightarrow> None
     | c # cs \<Rightarrow> if c = CHR ''0'' then Some ([c], cs) else digits_then s)"

definition scan_frac :: "string \<Rightarrow> (string \<times> string) option" where
  "scan_frac s =
    (if s \<noteq> [] \<and> hd s = CHR ''.''
     then map_option (\<lambda>(ds, rest). (CHR ''.'' # ds, rest)) (digits_then (tl s)) else Some ([], s))"

definition scan_exp :: "string \<Rightarrow> (string \<times> string) option" where
  "scan_exp s =
    (if s \<noteq> [] \<and> hd s \<in> {CHR ''e'', CHR ''E''}
     then (let (sign, body) = (if tl s \<noteq> [] \<and> hd (tl s) \<in> {CHR ''+'', CHR ''-''}
                               then ([hd (tl s)], tl (tl s)) else ([], tl s))
           in map_option (\<lambda>(ds, rest). (hd s # sign @ ds, rest)) (digits_then body))
     else Some ([], s))"

definition scan_number :: "string \<Rightarrow> (string \<times> string) option" where
  "scan_number s =
    (let (sign, body) = (if s \<noteq> [] \<and> hd s = CHR ''-'' then ([CHR ''-''], tl s) else ([], s))
     in case scan_int body of None \<Rightarrow> None | Some (i, s1) \<Rightarrow>
        case scan_frac s1 of None \<Rightarrow> None | Some (f, s2) \<Rightarrow>
        case scan_exp s2 of None \<Rightarrow> None | Some (e, s3) \<Rightarrow> Some (sign @ i @ f @ e, s3))"

section \<open>Values\<close>

text \<open>Members keep their value's text.\<close>

datatype json =
    JNull
  | JBool bool
  | JNum string
  | JStr string
  | JArr "json list"
  | JObj "(string \<times> json \<times> string) list"

definition json_space :: "char \<Rightarrow> bool" where
  "json_space c \<longleftrightarrow> c \<in> {CHR '' '', CHR 0x09, CHR 0x0A, CHR 0x0D}"

definition skip_space :: "string \<Rightarrow> string" where
  "skip_space s = dropWhile json_space s"

definition value_text :: "string \<Rightarrow> string \<Rightarrow> string" where
  "value_text before after = (let s = skip_space before in take (length s - length after) s)"

definition scan_literal :: "string \<Rightarrow> (json \<times> string) option" where
  "scan_literal s =
    (if prefix_of ''null'' s then Some (JNull, drop 4 s)
     else if prefix_of ''true'' s then Some (JBool True, drop 4 s)
     else if prefix_of ''false'' s then Some (JBool False, drop 5 s)
     else None)"

definition scan_atom :: "string \<Rightarrow> (json \<times> string) option" where
  "scan_atom s =
    (case s of [] \<Rightarrow> None
     | c # cs \<Rightarrow>
         if c = CHR 0x22 then map_option (\<lambda>(lit, rest). (JStr (unquote lit), rest)) (scan_string cs)
         else if c = CHR ''-'' \<or> is_digit c
         then map_option (\<lambda>(lit, rest). (JNum lit, rest)) (scan_number s)
         else scan_literal s)"

text \<open>What must stand at the front of the text after space.\<close>

definition expect :: "char \<Rightarrow> string \<Rightarrow> string option" where
  "expect c s = (case skip_space s of [] \<Rightarrow> None | d # rest \<Rightarrow> if d = c then Some rest else None)"

definition scan_key :: "string \<Rightarrow> (string \<times> string) option" where
  "scan_key s =
    (case expect (CHR 0x22) s of None \<Rightarrow> None
     | Some cs \<Rightarrow>
         (case scan_string cs of None \<Rightarrow> None
          | Some (lit, rest) \<Rightarrow> map_option (\<lambda>after. (unquote lit, after)) (expect (CHR '':'') rest)))"

lemma length_skip_space: "length (skip_space s) \<le> length s"
  by (simp add: skip_space_def length_dropWhile_le)

lemma scan_string_shorter: "scan_string s = Some (lit, rest) \<Longrightarrow> length rest < length s"
proof (induction s arbitrary: lit rest rule: scan_string.induct)
  case (2 c cs)
  show ?case
  proof (cases "c = CHR 0x22 \<or> c \<noteq> CHR 0x5C")
    case True
    then show ?thesis using 2 by (fastforce split: if_splits)
  next
    case False
    have "length rest < length (tl cs)" if "scan_string (tl cs) = Some (l, rest)" "cs \<noteq> []"
      "simple_escape (hd cs) \<noteq> None" for l
      using "2.IH"(1) [of l rest] that False by simp
    moreover have "length rest < length (drop 5 cs)" if "scan_string (drop 5 cs) = Some (l, rest)"
      "cs \<noteq> []" "simple_escape (hd cs) = None" "getu4 (c # cs) \<noteq> None" for l
      using "2.IH"(2) [of l rest] that False by simp
    ultimately show ?thesis using "2.prems" False by (fastforce split: if_splits)
  qed
qed simp

lemma expect_shorter: "expect c s = Some rest \<Longrightarrow> length rest < length s"
  using length_skip_space [of s] by (auto simp: expect_def split: list.splits if_splits)

lemma scan_key_shorter: "scan_key s = Some (k, rest) \<Longrightarrow> length rest < length s"
  by (auto simp: scan_key_def split: option.splits dest!: expect_shorter scan_string_shorter)

text \<open>
  A value, the elements of an array after its bracket, and the members of an object after its
  brace; depth counts the nesting that is still allowed. A list goes on only where text was
  consumed, which it always is.
\<close>

function parse_value :: "nat \<Rightarrow> string \<Rightarrow> (json \<times> string) option"
  and parse_elems :: "nat \<Rightarrow> string \<Rightarrow> (json list \<times> string) option"
  and parse_members :: "nat \<Rightarrow> string \<Rightarrow> ((string \<times> json \<times> string) list \<times> string) option" where
  "parse_value depth s =
    (case expect (CHR ''['') s of
       Some cs \<Rightarrow>
         if depth = 0 then None
         else (case expect (CHR '']'') cs of
                 Some rest \<Rightarrow> Some (JArr [], rest)
               | None \<Rightarrow> map_option (\<lambda>(vs, rest). (JArr vs, rest)) (parse_elems (depth - 1) cs))
     | None \<Rightarrow>
         (case expect (CHR ''{'') s of
            Some cs \<Rightarrow>
              if depth = 0 then None
              else (case expect (CHR ''}'') cs of
                      Some rest \<Rightarrow> Some (JObj [], rest)
                    | None \<Rightarrow> map_option (\<lambda>(ms, rest). (JObj ms, rest)) (parse_members (depth - 1) cs))
          | None \<Rightarrow> scan_atom (skip_space s)))"
| "parse_elems depth s =
    (case parse_value depth s of
       None \<Rightarrow> None
     | Some (v, r) \<Rightarrow>
         (case expect (CHR '']'') r of
            Some rest \<Rightarrow> Some ([v], rest)
          | None \<Rightarrow>
              (case expect (CHR '','') r of
                 Some cs \<Rightarrow>
                   if length cs < length s
                   then map_option (\<lambda>(vs, rest). (v # vs, rest)) (parse_elems depth cs) else None
               | None \<Rightarrow> None)))"
| "parse_members depth s =
    (case scan_key s of
       None \<Rightarrow> None
     | Some (k, after) \<Rightarrow>
         (case parse_value depth after of
            None \<Rightarrow> None
          | Some (v, r) \<Rightarrow>
              (let m = (k, v, value_text after r)
               in case expect (CHR ''}'') r of
                    Some rest \<Rightarrow> Some ([m], rest)
                  | None \<Rightarrow>
                      (case expect (CHR '','') r of
                         Some cs \<Rightarrow>
                           if length cs < length s
                           then map_option (\<lambda>(ms, rest). (m # ms, rest)) (parse_members depth cs) else None
                       | None \<Rightarrow> None))))"
  by pat_completeness auto
termination
  by (relation "measures [\<lambda>x. case x of Inl (d, s) \<Rightarrow> length s | Inr (Inl (d, s)) \<Rightarrow> length s | Inr (Inr (d, s)) \<Rightarrow> length s,
      \<lambda>x. case x of Inl _ \<Rightarrow> 0 | Inr _ \<Rightarrow> 1]")
    (auto dest: expect_shorter scan_key_shorter)

declare parse_value.simps [simp del] parse_elems.simps [simp del] parse_members.simps [simp del]

section \<open>Reading a body\<close>

definition maxNestingDepth :: nat where
  "maxNestingDepth = 10000"

text \<open>
  Decoder.Decode on a body behind http.MaxBytesReader: what follows the value is not read, so
  a longer body is refused only if its value is not complete within the limit.
\<close>

definition read_value :: "nat \<Rightarrow> string \<Rightarrow> json option" where
  "read_value limit body =
    (if length body \<le> limit then map_option fst (parse_value maxNestingDepth body)
     else case parse_value maxNestingDepth (take limit body) of
       None \<Rightarrow> None
     | Some (v, rest) \<Rightarrow>
         if rest \<noteq> [] then Some v else (case v of JArr _ \<Rightarrow> Some v | JObj _ \<Rightarrow> Some v | _ \<Rightarrow> None))"

text \<open>json.Unmarshal: nothing but space may follow the value.\<close>

definition unmarshal_value :: "string \<Rightarrow> json option" where
  "unmarshal_value s =
    (case parse_value maxNestingDepth s of
       Some (v, rest) \<Rightarrow> if skip_space rest = [] then Some v else None
     | None \<Rightarrow> None)"

section \<open>Storing a value\<close>

text \<open>
  Each takes the value the target has, which null leaves as it is, and answers None where the
  value does not fit the type. A pointer that is set to null is nil.
\<close>

definition decode_string :: "string \<Rightarrow> json \<Rightarrow> string option" where
  "decode_string old v = (case v of JNull \<Rightarrow> Some old | JStr s \<Rightarrow> Some s | _ \<Rightarrow> None)"

definition decode_int :: "int \<Rightarrow> json \<Rightarrow> int option" where
  "decode_int old v = (case v of JNull \<Rightarrow> Some old | JNum n \<Rightarrow> ParseInt n | _ \<Rightarrow> None)"

definition decode_bool :: "bool \<Rightarrow> json \<Rightarrow> bool option" where
  "decode_bool old v = (case v of JNull \<Rightarrow> Some old | JBool b \<Rightarrow> Some b | _ \<Rightarrow> None)"

definition decode_pointer :: "(json \<Rightarrow> 'a option) \<Rightarrow> json \<Rightarrow> 'a option option" where
  "decode_pointer f v = (if v = JNull then Some None else map_option Some (f v))"

text \<open>Names match exactly or else up to case; K and S have a third letter that folds to them.\<close>

function fold_name :: "string \<Rightarrow> string" where
  "fold_name [] = []"
| "fold_name (c # cs) =
    (if prefix_of [CHR 0xC5, CHR 0xBF] (c # cs) then CHR ''S'' # fold_name (drop 1 cs)
     else if prefix_of [CHR 0xE2, CHR 0x84, CHR 0xAA] (c # cs) then CHR ''K'' # fold_name (drop 2 cs)
     else (if 97 \<le> byte c \<and> byte c \<le> 122 then char_of (byte c - 32) else c) # fold_name cs)"
  by pat_completeness auto
termination by (relation "measure length") auto

definition field_for :: "string list \<Rightarrow> string \<Rightarrow> string option" where
  "field_for names key =
    (if key \<in> set names then Some key else find (\<lambda>n. fold_name n = fold_name key) names)"

text \<open>
  An object into a struct: its members in order, names that match no field skipped. An error
  of one member makes the whole decoding fail in the end.
\<close>

fun store_members :: "string list \<Rightarrow> ('a \<Rightarrow> string \<Rightarrow> json \<Rightarrow> string \<Rightarrow> 'a option) \<Rightarrow> 'a
    \<Rightarrow> (string \<times> json \<times> string) list \<Rightarrow> 'a option" where
  "store_members names store x [] = Some x"
| "store_members names store x ((key, v, raw) # ms) =
    (case field_for names key of
       None \<Rightarrow> store_members names store x ms
     | Some name \<Rightarrow>
         (case store x name v raw of
            None \<Rightarrow> None
          | Some x' \<Rightarrow> store_members names store x' ms))"

definition decode_struct :: "string list \<Rightarrow> ('a \<Rightarrow> string \<Rightarrow> json \<Rightarrow> string \<Rightarrow> 'a option) \<Rightarrow> 'a
    \<Rightarrow> json \<Rightarrow> 'a option" where
  "decode_struct names store zero v =
    (case v of JNull \<Rightarrow> Some zero | JObj ms \<Rightarrow> store_members names store zero ms | _ \<Rightarrow> None)"

fun decode_all :: "(json \<Rightarrow> 'a option) \<Rightarrow> json list \<Rightarrow> 'a list option" where
  "decode_all f [] = Some []"
| "decode_all f (v # vs) =
    (case f v of None \<Rightarrow> None
     | Some x \<Rightarrow> map_option (\<lambda>xs. x # xs) (decode_all f vs))"

definition decode_slice :: "(json \<Rightarrow> 'a option) \<Rightarrow> json \<Rightarrow> 'a list option" where
  "decode_slice f v = (case v of JNull \<Rightarrow> Some [] | JArr vs \<Rightarrow> decode_all f vs | _ \<Rightarrow> None)"

section \<open>Examples\<close>

lemma parse_value_examples:
  "parse_value 2 ''[1, 2.5e3]x'' = Some (JArr [JNum ''1'', JNum ''2.5e3''], ''x'')"
  "parse_value 2 ([CHR ''{'', CHR 0x22, CHR ''a'', CHR 0x22] @ '' : {} }'') =
    Some (JObj [(''a'', JObj [], ''{}'')], [])"
  "parse_value 0 ''[]'' = None"
  "parse_value 2 ''[1,]'' = None"
  "parse_value 1 ''1.'' = None"
  by code_simp+

lemma unquote_examples:
  "unquote (CHR 0x5C # ''u00e9'') = [CHR 0xC3, CHR 0xA9]"
  "unquote (CHR 0x5C # ''ud83d'' @ CHR 0x5C # ''ude00'') = [CHR 0xF0, CHR 0x9F, CHR 0x98, CHR 0x80]"
  "unquote (CHR 0x5C # ''ud83dx'') = replacement @ ''x''"
  "unquote [CHR 0xFF] = replacement"
  by (simp_all add: getu4_def hex_val_def byte_def surrogate_def pair_rune_def utf8_encode_def
      replacement_def rune_len_def simple_escape_def Let_def char_of_def bit_0)

end
