(* ===== verification/Api.thy ===== *)
theory Api
  imports Cron Queue_Stats Go_RFC3339 Go_JSON
begin

text \<open>
  internal/api: the checks of a submission, the error envelope, every handler and the route
  table, over the package's own Store interface, a record of its methods. A request is given
  as the router matched it, with the bytes of its body; the wording of the JSON decoder's
  errors is an argument. A response body is the value that is encoded; its bytes are in
  Api_Responses, request logging in Api_Log. The effect of the timeouts is left out.
\<close>

section \<open>Validation (validate.go)\<close>

record fieldError =
  Field :: string
  Message :: string

record taskSubmission =
  sub_queue :: string
  sub_handler :: string
  sub_payload :: "string option"
  sub_priority :: int
  sub_run_at :: "string option"
  sub_max_attempts :: int
  sub_idempotency_key :: "string option"

record scheduleSubmission =
  ss_cron :: string
  ss_timezone :: string
  ss_queue :: string
  ss_handler :: string
  ss_payload :: "string option"
  ss_priority :: int
  ss_max_attempts :: int

definition is_letter :: "char \<Rightarrow> bool" where
  "is_letter c \<longleftrightarrow> (let n = of_char c :: nat in 65 \<le> n \<and> n \<le> 90 \<or> 97 \<le> n \<and> n \<le> 122)"

definition handlerNamePattern :: "string \<Rightarrow> bool" where
  "handlerNamePattern s \<longleftrightarrow>
    (case s of [] \<Rightarrow> False
     | c # cs \<Rightarrow> is_letter c
         \<and> list_all (\<lambda>d. is_letter d \<or> is_digit d \<or> d \<in> {CHR ''_'', CHR ''.'', CHR ''-''}) cs)"

definition priorityMin :: int where "priorityMin = - 1000"
definition priorityMax :: int where "priorityMax = 1000"
definition maxAttemptsMin :: int where "maxAttemptsMin = 1"
definition maxAttemptsMax :: int where "maxAttemptsMax = 100"

fun isJSONObject :: "string \<Rightarrow> bool" where
  "isJSONObject [] = False"
| "isJSONObject (b # raw) =
    (if b \<in> {CHR '' '', CHR 0x09, CHR 0x0A, CHR 0x0D} then isJSONObject raw else b = CHR ''{'')"

definition rangeMessage :: "int \<Rightarrow> int \<Rightarrow> string" where
  "rangeMessage minValue maxValue = ''must be between '' @ Itoa minValue @ '' and '' @ Itoa maxValue"

definition handler_problems :: "string \<Rightarrow> fieldError list" where
  "handler_problems handler =
    (if handler = [] then [\<lparr>Field = ''handler'', Message = ''is required''\<rparr>]
     else if \<not> handlerNamePattern handler
     then [\<lparr>Field = ''handler'', Message = ''must start with a letter and contain only letters, digits, '_', '.' or '-'' @ [CHR 0x27]\<rparr>]
     else [])"

definition payload_problems :: "string option \<Rightarrow> fieldError list" where
  "payload_problems payload =
    (case payload of None \<Rightarrow> []
     | Some raw \<Rightarrow> if 0 < length raw \<and> \<not> isJSONObject raw
                   then [\<lparr>Field = ''payload'', Message = ''must be a JSON object''\<rparr>] else [])"

definition priority_problems :: "int \<Rightarrow> fieldError list" where
  "priority_problems p =
    (if p < priorityMin \<or> p > priorityMax
     then [\<lparr>Field = ''priority'', Message = rangeMessage priorityMin priorityMax\<rparr>] else [])"

definition max_attempts_problems :: "int \<Rightarrow> fieldError list" where
  "max_attempts_problems n =
    (if n \<noteq> 0 \<and> (n < maxAttemptsMin \<or> n > maxAttemptsMax)
     then [\<lparr>Field = ''max_attempts'', Message = rangeMessage maxAttemptsMin maxAttemptsMax\<rparr>] else [])"

definition run_at_problems :: "string option \<Rightarrow> fieldError list" where
  "run_at_problems runAt =
    (case runAt of None \<Rightarrow> []
     | Some s \<Rightarrow> (case Parse_RFC3339 s of
                    None \<Rightarrow> [\<lparr>Field = ''run_at'', Message = ''must be an RFC3339 timestamp''\<rparr>]
                  | Some _ \<Rightarrow> []))"

definition validateSubmission :: "taskSubmission \<Rightarrow> fieldError list" where
  "validateSubmission sub =
    handler_problems (sub_handler sub) @ payload_problems (sub_payload sub)
    @ priority_problems (sub_priority sub) @ max_attempts_problems (sub_max_attempts sub)
    @ run_at_problems (sub_run_at sub)"

definition cron_problems :: "'spec cron_env \<Rightarrow> string \<Rightarrow> fieldError list" where
  "cron_problems e ex =
    (if ex = [] then [\<lparr>Field = ''cron'', Message = ''is required''\<rparr>]
     else case Parse (env_parser e) (env_descriptorParser e) ex of
       Inl err \<Rightarrow> [\<lparr>Field = ''cron'', Message = cron_error_text err\<rparr>]
     | Inr _ \<Rightarrow> [])"

definition timezone_problems :: "'spec cron_env \<Rightarrow> string \<Rightarrow> fieldError list" where
  "timezone_problems e tz =
    (if tz \<noteq> [] \<and> env_zones e tz = None
     then [\<lparr>Field = ''timezone'', Message = ''must be a loadable IANA location name''\<rparr>] else [])"

definition validateScheduleSubmission :: "'spec cron_env \<Rightarrow> scheduleSubmission \<Rightarrow> fieldError list" where
  "validateScheduleSubmission e sub =
    cron_problems e (ss_cron sub) @ timezone_problems e (ss_timezone sub)
    @ handler_problems (ss_handler sub) @ payload_problems (ss_payload sub)
    @ priority_problems (ss_priority sub) @ max_attempts_problems (ss_max_attempts sub)"

section \<open>Request bodies\<close>

definition zero_submission :: taskSubmission where
  "zero_submission =
    \<lparr>sub_queue = [], sub_handler = [], sub_payload = None, sub_priority = 0, sub_run_at = None,
     sub_max_attempts = 0, sub_idempotency_key = None\<rparr>"

definition task_fields :: "string list" where
  "task_fields = [''queue'', ''handler'', ''payload'', ''priority'', ''run_at'', ''max_attempts'',
     ''idempotency_key'']"

definition set_task_field :: "taskSubmission \<Rightarrow> string \<Rightarrow> json \<Rightarrow> string \<Rightarrow> taskSubmission option" where
  "set_task_field sub name v raw =
    (if name = ''queue'' then map_option (\<lambda>x. sub\<lparr>sub_queue := x\<rparr>) (decode_string (sub_queue sub) v)
     else if name = ''handler'' then map_option (\<lambda>x. sub\<lparr>sub_handler := x\<rparr>) (decode_string (sub_handler sub) v)
     else if name = ''payload'' then Some (sub\<lparr>sub_payload := Some raw\<rparr>)
     else if name = ''priority'' then map_option (\<lambda>x. sub\<lparr>sub_priority := x\<rparr>) (decode_int (sub_priority sub) v)
     else if name = ''run_at'' then map_option (\<lambda>x. sub\<lparr>sub_run_at := x\<rparr>) (decode_pointer (decode_string []) v)
     else if name = ''max_attempts''
     then map_option (\<lambda>x. sub\<lparr>sub_max_attempts := x\<rparr>) (decode_int (sub_max_attempts sub) v)
     else map_option (\<lambda>x. sub\<lparr>sub_idempotency_key := x\<rparr>) (decode_pointer (decode_string []) v))"

definition decode_task :: "json \<Rightarrow> taskSubmission option" where
  "decode_task v = decode_struct task_fields set_task_field zero_submission v"

definition decode_tasks :: "json \<Rightarrow> taskSubmission list option" where
  "decode_tasks v = decode_slice decode_task v"

definition zero_schedule_submission :: scheduleSubmission where
  "zero_schedule_submission =
    \<lparr>ss_cron = [], ss_timezone = [], ss_queue = [], ss_handler = [], ss_payload = None,
     ss_priority = 0, ss_max_attempts = 0\<rparr>"

definition schedule_fields :: "string list" where
  "schedule_fields = [''cron'', ''timezone'', ''queue'', ''handler'', ''payload'', ''priority'', ''max_attempts'']"

definition set_schedule_field :: "scheduleSubmission \<Rightarrow> string \<Rightarrow> json \<Rightarrow> string
    \<Rightarrow> scheduleSubmission option" where
  "set_schedule_field sub name v raw =
    (if name = ''cron'' then map_option (\<lambda>x. sub\<lparr>ss_cron := x\<rparr>) (decode_string (ss_cron sub) v)
     else if name = ''timezone'' then map_option (\<lambda>x. sub\<lparr>ss_timezone := x\<rparr>) (decode_string (ss_timezone sub) v)
     else if name = ''queue'' then map_option (\<lambda>x. sub\<lparr>ss_queue := x\<rparr>) (decode_string (ss_queue sub) v)
     else if name = ''handler'' then map_option (\<lambda>x. sub\<lparr>ss_handler := x\<rparr>) (decode_string (ss_handler sub) v)
     else if name = ''payload'' then Some (sub\<lparr>ss_payload := Some raw\<rparr>)
     else if name = ''priority'' then map_option (\<lambda>x. sub\<lparr>ss_priority := x\<rparr>) (decode_int (ss_priority sub) v)
     else map_option (\<lambda>x. sub\<lparr>ss_max_attempts := x\<rparr>) (decode_int (ss_max_attempts sub) v))"

definition decode_schedule :: "json \<Rightarrow> scheduleSubmission option" where
  "decode_schedule v = decode_struct schedule_fields set_schedule_field zero_schedule_submission v"

text \<open>scheduleUpdate is its one field, None where the body left it out.\<close>

definition decode_update :: "json \<Rightarrow> bool option option" where
  "decode_update v =
    decode_struct [''enabled''] (\<lambda>upd name v raw. decode_pointer (decode_bool False) v) None v"

section \<open>The server's configuration (server.go)\<close>

record server_config =
  ReadTimeout :: nanos
  WriteTimeout :: nanos
  IdleTimeout :: nanos
  RequestTimeout :: nanos
  MaxBodyBytes :: int

definition server_DefaultConfig :: server_config where
  "server_DefaultConfig =
    \<lparr>ReadTimeout = 10 * ns_second, WriteTimeout = 30 * ns_second, IdleTimeout = 90 * ns_second,
     RequestTimeout = 25 * ns_second, MaxBodyBytes = 2 ^ 20\<rparr>"

record http_server =
  srv_Addr :: string
  srv_ReadTimeout :: nanos
  srv_WriteTimeout :: nanos
  srv_IdleTimeout :: nanos

definition HTTPServer :: "server_config \<Rightarrow> string \<Rightarrow> http_server" where
  "HTTPServer cfg addr =
    \<lparr>srv_Addr = addr, srv_ReadTimeout = ReadTimeout cfg, srv_WriteTimeout = WriteTimeout cfg,
     srv_IdleTimeout = IdleTimeout cfg\<rparr>"

text \<open>The middleware that caps a body, with the decoder that reads it.\<close>

definition maxBodyBytes :: "server_config \<Rightarrow> string \<Rightarrow> json option" where
  "maxBodyBytes cfg body = read_value (nat (MaxBodyBytes cfg)) body"

definition decode_body :: "server_config \<Rightarrow> (string \<Rightarrow> string) \<Rightarrow> (json \<Rightarrow> 'a option) \<Rightarrow> string
    \<Rightarrow> string + 'a" where
  "decode_body cfg wording f body =
    (case Option.bind (maxBodyBytes cfg body) f of None \<Rightarrow> Inl (wording body) | Some x \<Rightarrow> Inr x)"

section \<open>Responses (errors.go, writeJSON)\<close>

record bulkItemResult =
  Index :: nat
  bulk_Status :: string
  bulk_Task :: "Task option"
  bulk_Errors :: "fieldError list"

datatype body =
    NoBody
  | ErrorBody string string "fieldError list"
  | StatusBody string
  | TaskBody Task
  | BulkBody "bulkItemResult list"
  | StatsBody StoreQueueStats
  | ScheduleBody Schedule
  | CreatedScheduleBody Schedule "instant list option"
  | SchedulesBody "Schedule list"

record response =
  rs_status :: int
  rs_location :: "string option"
  rs_content_type :: "string option"
  rs_request_id :: "string option"
  rs_body :: body

text \<open>How a handler ends: with a response, in a panic, or not at all.\<close>

datatype handling = Responds response | Panics | Hangs

definition writeJSON :: "int \<Rightarrow> string option \<Rightarrow> body \<Rightarrow> response" where
  "writeJSON status location v =
    \<lparr>rs_status = status, rs_location = location, rs_content_type = Some ''application/json'',
     rs_request_id = None, rs_body = v\<rparr>"

definition writeError :: "int \<Rightarrow> string \<Rightarrow> string \<Rightarrow> fieldError list \<Rightarrow> response" where
  "writeError status code message errs = writeJSON status None (ErrorBody code message errs)"

definition writeJSONError :: "int \<Rightarrow> string \<Rightarrow> response" where
  "writeJSONError status message =
    (let code = (if status < 500 then ''invalid_request'' else ''internal'')
     in writeError status code message [])"

definition writeValidationError :: "fieldError list \<Rightarrow> response" where
  "writeValidationError errs = writeError 400 ''invalid_request'' ''request failed validation'' errs"

definition sentinelErrors :: "(StoreErr \<times> int \<times> string \<times> string) list" where
  "sentinelErrors =
    [(ErrNotFound, 404, ''not_found'', ''task not found''),
     (ErrNotCancellable, 409, ''not_cancellable'',
      ''task is running or already terminal and cannot be cancelled'')]"

definition writeStoreError :: "StoreErr \<Rightarrow> string \<Rightarrow> response" where
  "writeStoreError err fallbackMessage =
    (case find (\<lambda>(s, _). err = s) sentinelErrors of
       Some (_, status, code, message) \<Rightarrow> writeError status code message []
     | None \<Rightarrow> writeError 500 ''internal'' fallbackMessage [])"

section \<open>The store (tasks\_submit.go)\<close>

record 'st api_store =
  as_Enqueue :: "'st \<Rightarrow> Task \<Rightarrow> 'st \<times> Task option \<times> StoreErr option"
  as_EnqueueBulk :: "'st \<Rightarrow> Task list \<Rightarrow> 'st \<times> (StoreErr + Task list)"
  as_Get :: "'st \<Rightarrow> int \<Rightarrow> 'st \<times> (StoreErr + Task)"
  as_Cancel :: "'st \<Rightarrow> int \<Rightarrow> 'st \<times> StoreErr option"
  as_QueueStats :: "'st \<Rightarrow> string \<Rightarrow> 'st \<times> (StoreErr + StoreQueueStats)"
  as_Ping :: "'st \<Rightarrow> 'st \<times> StoreErr option"
  as_CreateSchedule :: "'st \<Rightarrow> Schedule \<Rightarrow> 'st \<times> (StoreErr + Schedule)"
  as_ListSchedules :: "'st \<Rightarrow> 'st \<times> (StoreErr + Schedule list)"
  as_GetSchedule :: "'st \<Rightarrow> int \<Rightarrow> 'st \<times> (StoreErr + Schedule)"
  as_SetScheduleEnabled :: "'st \<Rightarrow> int \<Rightarrow> bool \<Rightarrow> 'st \<times> (StoreErr + Schedule)"

section \<open>Submitting a task (tasks\_submit.go)\<close>

text \<open>
  The task both submissions build. A field the code does not set has its zero value; the
  insert writes no status, so the model gives the one the column defaults to.
\<close>

definition submitted_task :: "taskSubmission \<Rightarrow> Task" where
  "submitted_task sub =
    \<lparr>t_id = 0, t_queue = (if sub_queue sub = [] then ''default'' else sub_queue sub),
     t_handler = sub_handler sub, t_payload = sub_payload sub, t_priority = sub_priority sub,
     t_status = StatusPending,
     t_run_at = (case sub_run_at sub of None \<Rightarrow> zero_time
                 | Some s \<Rightarrow> (case Parse_RFC3339 s of None \<Rightarrow> zero_time | Some r \<Rightarrow> r)),
     t_attempts = 0, t_max_attempts = sub_max_attempts sub, t_claimed_by = None,
     t_heartbeat_at = None, t_idempotency_key = sub_idempotency_key sub, t_schedule_id = None,
     t_last_error = None, t_created_at = zero_time\<rparr>"

definition with_header_key :: "string \<Rightarrow> Task \<Rightarrow> Task" where
  "with_header_key key t =
    (if t_idempotency_key t = None \<and> key \<noteq> [] then t\<lparr>t_idempotency_key := Some key\<rparr> else t)"

definition submitTask :: "'st api_store \<Rightarrow> string \<Rightarrow> string + taskSubmission \<Rightarrow> 'st \<Rightarrow> 'st \<times> handling" where
  "submitTask store header_key dec st =
    (case dec of
       Inl err \<Rightarrow> (st, Responds (writeJSONError 400 (''decoding request body: '' @ err)))
     | Inr sub \<Rightarrow>
         if validateSubmission sub \<noteq> [] then (st, Responds (writeValidationError (validateSubmission sub)))
         else case as_Enqueue store st (with_header_key header_key (submitted_task sub)) of
           (st', created, err) \<Rightarrow>
             (let replay = (err = Some ErrDuplicateIdempotencyKey)
              in if err \<noteq> None \<and> \<not> replay
                 then (st', Responds (writeError 500 ''internal'' ''enqueuing task failed'' []))
                 else case created of
                   None \<Rightarrow> (st', Panics)
                 | Some t \<Rightarrow> (st', Responds (writeJSON (if replay then 200 else 201)
                                 (Some (''/tasks/'' @ Itoa (t_id t))) (TaskBody t)))))"

section \<open>Submitting many (tasks\_bulk.go)\<close>

definition maxBulkTasks :: nat where
  "maxBulkTasks = 1000"

definition zero_result :: bulkItemResult where
  "zero_result = \<lparr>Index = 0, bulk_Status = [], bulk_Task = None, bulk_Errors = []\<rparr>"

text \<open>The first loop: the tasks to store, the positions they came from, and the results so far.\<close>

fun bulk_scan :: "nat \<Rightarrow> taskSubmission list \<Rightarrow> Task list \<times> nat list \<times> bulkItemResult list" where
  "bulk_scan i [] = ([], [], [])"
| "bulk_scan i (sub # subs) =
    (let errs = validateSubmission sub; (ts, valid, results) = bulk_scan (i + 1) subs
     in if errs \<noteq> []
        then (ts, valid,
              \<lparr>Index = i, bulk_Status = ''invalid'', bulk_Task = None, bulk_Errors = errs\<rparr> # results)
        else (submitted_task sub # ts, i # valid, zero_result # results))"

text \<open>The second loop: an index outside either slice panics.\<close>

fun bulk_fill :: "instant \<Rightarrow> nat list \<Rightarrow> Task list \<Rightarrow> bulkItemResult list \<Rightarrow> bulkItemResult list option" where
  "bulk_fill requestStart valid [] results = Some results"
| "bulk_fill requestStart [] (t # ts) results = None"
| "bulk_fill requestStart (i # valid) (t # ts) results =
    (if length results \<le> i then None
     else let status = (if t_idempotency_key t \<noteq> None \<and> t_created_at t < requestStart
                        then ''duplicate'' else ''created'')
          in bulk_fill requestStart valid ts
               (results[i := \<lparr>Index = i, bulk_Status = status, bulk_Task = Some t, bulk_Errors = []\<rparr>]))"

definition submitTasksBulk :: "'st api_store \<Rightarrow> instant \<Rightarrow> string + taskSubmission list \<Rightarrow> 'st \<Rightarrow> 'st \<times> handling" where
  "submitTasksBulk store now dec st =
    (case dec of
       Inl err \<Rightarrow> (st, Responds (writeJSONError 400 (''decoding request body: '' @ err)))
     | Inr subs \<Rightarrow>
         if length subs = 0 then (st, Responds (writeJSONError 400 ''at least one task is required''))
         else if length subs > maxBulkTasks
         then (st, Responds (writeJSONError 400 ''a bulk submission accepts at most 1000 tasks''))
         else case bulk_scan 0 subs of
           (ts, valid, results) \<Rightarrow>
             if ts = [] then (st, Responds (writeJSON 200 None (BulkBody results)))
             else case as_EnqueueBulk store st ts of
               (st', Inl err) \<Rightarrow> (st', Responds (writeJSONError 500 ''enqueuing tasks failed''))
             | (st', Inr enqueued) \<Rightarrow>
                 (case bulk_fill now valid enqueued results of
                    None \<Rightarrow> (st', Panics)
                  | Some filled \<Rightarrow> (st', Responds (writeJSON 200 None (BulkBody filled)))))"

section \<open>Inspecting and cancelling (tasks\_get.go, tasks\_cancel.go, queue\_stats.go, health.go)\<close>

text \<open>The id in the path: its number, or the error's text.\<close>

definition parseTaskID :: "string \<Rightarrow> string + int" where
  "parseTaskID raw = (case ParseInt raw of None \<Rightarrow> Inl ''id: must be an integer'' | Some i \<Rightarrow> Inr i)"

definition getTask :: "'st api_store \<Rightarrow> string \<Rightarrow> 'st \<Rightarrow> 'st \<times> handling" where
  "getTask store raw st =
    (case parseTaskID raw of
       Inl err \<Rightarrow> (st, Responds (writeJSONError 400 err))
     | Inr i \<Rightarrow>
         (case as_Get store st i of
            (st', Inl err) \<Rightarrow> (st', Responds (writeStoreError err ''getting task failed''))
          | (st', Inr t) \<Rightarrow> (st', Responds (writeJSON 200 None (TaskBody t)))))"

definition cancelTask :: "'st api_store \<Rightarrow> string \<Rightarrow> 'st \<Rightarrow> 'st \<times> handling" where
  "cancelTask store raw st =
    (case parseTaskID raw of
       Inl err \<Rightarrow> (st, Responds (writeJSONError 400 err))
     | Inr i \<Rightarrow>
         (case as_Cancel store st i of
            (st', Some err) \<Rightarrow> (st', Responds (writeStoreError err ''cancelling task failed''))
          | (st', None) \<Rightarrow>
              (st', Responds \<lparr>rs_status = 204, rs_location = None, rs_content_type = None,
                 rs_request_id = None, rs_body = NoBody\<rparr>)))"

definition getQueueStats :: "'st api_store \<Rightarrow> string \<Rightarrow> 'st \<Rightarrow> 'st \<times> handling" where
  "getQueueStats store name st =
    (if name = [] then (st, Responds (writeJSONError 400 ''name: is required''))
     else case as_QueueStats store st name of
       (st', Inl err) \<Rightarrow> (st', Responds (writeJSONError 500 ''getting queue stats failed''))
     | (st', Inr stats) \<Rightarrow> (st', Responds (writeJSON 200 None (StatsBody stats))))"

definition healthz :: "'st \<Rightarrow> 'st \<times> handling" where
  "healthz st = (st, Responds (writeJSON 200 None (StatusBody ''ok'')))"

definition readyz :: "'st api_store \<Rightarrow> 'st \<Rightarrow> 'st \<times> handling" where
  "readyz store st =
    (case as_Ping store st of
       (st', Some err) \<Rightarrow> (st', Responds (writeError 503 ''not_ready'' ''store is not reachable'' []))
     | (st', None) \<Rightarrow> (st', Responds (writeJSON 200 None (StatusBody ''ok''))))"

section \<open>Schedules (schedules\_create.go, schedules\_get.go)\<close>

definition nextFireTimesShown :: int where
  "nextFireTimesShown = 5"

definition submitted_schedule :: "scheduleSubmission \<Rightarrow> Schedule" where
  "submitted_schedule sub =
    \<lparr>s_id = 0, s_cron = ss_cron sub, s_timezone = ss_timezone sub, s_queue = ss_queue sub,
     s_handler = ss_handler sub, s_payload = ss_payload sub, s_priority = ss_priority sub,
     s_max_attempts = ss_max_attempts sub, s_enabled = False, s_last_materialized_at = None,
     s_created_at = zero_time\<rparr>"

text \<open>The error of NextN is dropped, which leaves the list nil.\<close>

definition shown_fire_times :: "nextn_error + instant list \<Rightarrow> instant list option" where
  "shown_fire_times r = (case r of Inl _ \<Rightarrow> None | Inr ts \<Rightarrow> Some ts)"

definition createSchedule :: "'spec cron_env \<Rightarrow> 'st api_store \<Rightarrow> instant \<Rightarrow> string + scheduleSubmission
    \<Rightarrow> 'st \<Rightarrow> 'st \<times> handling" where
  "createSchedule e store now dec st =
    (case dec of
       Inl err \<Rightarrow> (st, Responds (writeJSONError 400 ''decoding request body failed''))
     | Inr sub \<Rightarrow>
         if validateScheduleSubmission e sub \<noteq> []
         then (st, Responds (writeValidationError (validateScheduleSubmission e sub)))
         else case as_CreateSchedule store st (submitted_schedule sub) of
           (st', Inl err) \<Rightarrow> (st', Responds (writeJSONError 500 ''creating schedule failed''))
         | (st', Inr created) \<Rightarrow>
             (case NextN (env_parser e) (env_descriptorParser e) (env_next e) (env_zones e)
                     (s_cron created) (s_timezone created) now nextFireTimesShown of
                None \<Rightarrow> (st', Hangs)
              | Some r \<Rightarrow>
                  (st', Responds (writeJSON 201 (Some (''/schedules/'' @ Itoa (s_id created)))
                     (CreatedScheduleBody created (shown_fire_times r))))))"

definition listSchedules :: "'st api_store \<Rightarrow> 'st \<Rightarrow> 'st \<times> handling" where
  "listSchedules store st =
    (case as_ListSchedules store st of
       (st', Inl err) \<Rightarrow> (st', Responds (writeJSONError 500 ''listing schedules failed''))
     | (st', Inr ss) \<Rightarrow> (st', Responds (writeJSON 200 None (SchedulesBody ss))))"

definition scheduleIDParam :: "string \<Rightarrow> int option" where
  "scheduleIDParam raw = ParseInt raw"

definition getSchedule :: "'st api_store \<Rightarrow> string \<Rightarrow> 'st \<Rightarrow> 'st \<times> handling" where
  "getSchedule store raw st =
    (case scheduleIDParam raw of
       None \<Rightarrow> (st, Responds (writeJSONError 400 ''id: must be an integer''))
     | Some i \<Rightarrow>
         (case as_GetSchedule store st i of
            (st', Inl err) \<Rightarrow> (st', Responds (writeStoreError err ''getting schedule failed''))
          | (st', Inr sc) \<Rightarrow> (st', Responds (writeJSON 200 None (ScheduleBody sc)))))"

definition updateSchedule :: "'st api_store \<Rightarrow> string \<Rightarrow> string + bool option \<Rightarrow> 'st \<Rightarrow> 'st \<times> handling" where
  "updateSchedule store raw dec st =
    (case scheduleIDParam raw of
       None \<Rightarrow> (st, Responds (writeJSONError 400 ''id: must be an integer''))
     | Some i \<Rightarrow>
         (case dec of
            Inl err \<Rightarrow> (st, Responds (writeJSONError 400 ''decoding request body failed''))
          | Inr None \<Rightarrow> (st, Responds (writeValidationError [\<lparr>Field = ''enabled'', Message = ''is required''\<rparr>]))
          | Inr (Some enabled) \<Rightarrow>
              (case as_SetScheduleEnabled store st i enabled of
                 (st', Inl err) \<Rightarrow> (st', Responds (writeStoreError err ''updating schedule failed''))
               | (st', Inr sc) \<Rightarrow> (st', Responds (writeJSON 200 None (ScheduleBody sc))))))"

section \<open>Routes and middleware (tasks\_submit.go, middleware.go, server.go)\<close>

text \<open>The header and the body of a submission, and the parameters of a path.\<close>

datatype request =
    PostTasks string string
  | PostTasksBulk string
  | GetTask string
  | DeleteTask string
  | GetQueueStats string
  | PostSchedules string
  | GetSchedules
  | GetScheduleById string
  | PatchSchedule string string
  | GetHealthz
  | GetReadyz

text \<open>What the server works with: its settings, the cron library, and the decoder's wording.\<close>

record 'spec api_env =
  srv_cfg :: server_config
  cron_lib :: "'spec cron_env"
  wording :: "string \<Rightarrow> string"

abbreviation decoded :: "'spec api_env \<Rightarrow> (json \<Rightarrow> 'a option) \<Rightarrow> string \<Rightarrow> string + 'a" where
  "decoded e f body \<equiv> decode_body (srv_cfg e) (wording e) f body"

fun routes :: "'spec api_env \<Rightarrow> 'st api_store \<Rightarrow> instant \<Rightarrow> request \<Rightarrow> 'st \<Rightarrow> 'st \<times> handling" where
  "routes e store now (PostTasks key b) = submitTask store key (decoded e decode_task b)"
| "routes e store now (PostTasksBulk b) = submitTasksBulk store now (decoded e decode_tasks b)"
| "routes e store now (GetTask i) = getTask store i"
| "routes e store now (DeleteTask i) = cancelTask store i"
| "routes e store now (GetQueueStats name) = getQueueStats store name"
| "routes e store now (PostSchedules b) = createSchedule (cron_lib e) store now (decoded e decode_schedule b)"
| "routes e store now GetSchedules = listSchedules store"
| "routes e store now (GetScheduleById i) = getSchedule store i"
| "routes e store now (PatchSchedule i b) = updateSchedule store i (decoded e decode_update b)"
| "routes e store now GetHealthz = healthz"
| "routes e store now GetReadyz = readyz store"

definition panic_recoverer :: "handling \<Rightarrow> handling" where
  "panic_recoverer r =
    (case r of
       Panics \<Rightarrow> Responds (writeJSON 500 None (ErrorBody ''internal'' ''internal server error'' []))
     | _ \<Rightarrow> r)"

definition setRequestIDHeader :: "string \<Rightarrow> handling \<Rightarrow> handling" where
  "setRequestIDHeader i r =
    (case r of Responds resp \<Rightarrow> if i = [] then r else Responds (resp\<lparr>rs_request_id := Some i\<rparr>) | _ \<Rightarrow> r)"

definition serve :: "'spec api_env \<Rightarrow> 'st api_store \<Rightarrow> string \<Rightarrow> instant \<Rightarrow> request \<Rightarrow> 'st \<Rightarrow> 'st \<times> handling" where
  "serve e store reqID now r st =
    (case routes e store now r st of
       (st', res) \<Rightarrow> (st', setRequestIDHeader reqID (panic_recoverer res)))"

end
