(* ===== verification/Api_Facts.thy ===== *)
theory Api_Facts
  imports Api Store_Faults Cron_Facts
begin

text \<open>
  What the HTTP API promises: that it answers every request, that no client sees the text of
  a store error, and what a submission, single or bulk, leaves behind. What the handlers rely
  on in their Store is a locale; internal/store/postgres keeps its laws.
\<close>

section \<open>What the handlers rely on\<close>

locale api_store_laws =
  fixes store :: "'st api_store" and inv :: "'st \<Rightarrow> bool"
  assumes enqueue_answers: "inv st \<Longrightarrow> as_Enqueue store st t = (st', created, err) \<Longrightarrow>
      err = None \<or> err = Some ErrDuplicateIdempotencyKey \<Longrightarrow> created \<noteq> None"
    and bulk_answers: "inv st \<Longrightarrow> as_EnqueueBulk store st ts = (st', Inr out) \<Longrightarrow> length out = length ts"
    and keeps_inv:
      "inv st \<Longrightarrow> inv (fst (as_Enqueue store st t))"
      "inv st \<Longrightarrow> inv (fst (as_EnqueueBulk store st ts))"
      "inv st \<Longrightarrow> inv (fst (as_Get store st i))"
      "inv st \<Longrightarrow> inv (fst (as_Cancel store st i))"
      "inv st \<Longrightarrow> inv (fst (as_QueueStats store st q))"
      "inv st \<Longrightarrow> inv (fst (as_Ping store st))"
      "inv st \<Longrightarrow> inv (fst (as_CreateSchedule store st sc))"
      "inv st \<Longrightarrow> inv (fst (as_ListSchedules store st))"
      "inv st \<Longrightarrow> inv (fst (as_GetSchedule store st i))"
      "inv st \<Longrightarrow> inv (fst (as_SetScheduleEnabled store st i b))"

section \<open>The bulk loops\<close>

lemma bulk_scan_eq:
  "bulk_scan i subs = (ts, valid, results) \<Longrightarrow>
    length results = length subs \<and> length valid = length ts
    \<and> distinct valid \<and> (\<forall>v \<in> set valid. i \<le> v \<and> v < i + length subs)
    \<and> ts = map submitted_task (filter (\<lambda>sub. validateSubmission sub = []) subs)"
proof (induction subs arbitrary: i ts valid results)
  case (Cons sub subs)
  obtain ts' valid' results' where rest: "bulk_scan (i + 1) subs = (ts', valid', results')"
    by (cases "bulk_scan (i + 1) subs")
  show ?case using Cons.IH [OF rest] Cons.prems rest by (force split: if_splits)
qed simp

lemma bulk_fill_Some:
  "length ts \<le> length valid \<Longrightarrow> \<forall>v \<in> set valid. v < length results \<Longrightarrow>
    \<exists>filled. bulk_fill start valid ts results = Some filled"
  by (induction start valid ts results rule: bulk_fill.induct) auto

section \<open>Every request is answered\<close>

definition known_status :: "handling \<Rightarrow> bool" where
  "known_status r \<longleftrightarrow>
    (case r of Responds resp \<Rightarrow> rs_status resp \<in> {200, 201, 204, 400, 404, 409, 500, 503} | _ \<Rightarrow> False)"

lemma write_status [simp]:
  "rs_status (writeJSON s l b) = s" "rs_status (writeError s c m es) = s"
  "rs_status (writeJSONError s m) = s" "rs_status (writeValidationError es) = 400"
  by (simp_all add: writeJSON_def writeError_def writeJSONError_def writeValidationError_def Let_def)

lemma writeStoreError_cases:
  "writeStoreError err m =
    (if err = ErrNotFound then writeError 404 ''not_found'' ''task not found'' []
     else if err = ErrNotCancellable
     then writeError 409 ''not_cancellable'' ''task is running or already terminal and cannot be cancelled'' []
     else writeError 500 ''internal'' m [])"
  by (simp add: writeStoreError_def sentinelErrors_def)

lemma known_status_simps [simp]:
  "known_status (Responds resp) \<longleftrightarrow> rs_status resp \<in> {200, 201, 204, 400, 404, 409, 500, 503}"
  "\<not> known_status Panics" "\<not> known_status Hangs"
  by (simp_all add: known_status_def)

lemma store_error_status [simp]: "rs_status (writeStoreError err m) =
    (if err = ErrNotFound then 404 else if err = ErrNotCancellable then 409 else 500)"
  by (simp add: writeStoreError_cases)

context api_store_laws
begin

lemma inv_result: "inv (fst r) \<Longrightarrow> r = (st', x) \<Longrightarrow> inv st'"
  by simp

lemma submitTask_answers:
  assumes "inv st"
  shows "inv (fst (submitTask store k b st)) \<and> known_status (snd (submitTask store k b st))"
  using assms
  by (auto simp: submitTask_def Let_def split: sum.splits prod.splits option.splits
      dest: enqueue_answers inv_result [OF keeps_inv(1)])

lemma submitTasksBulk_answers:
  assumes "inv st"
  shows "inv (fst (submitTasksBulk store now b st)) \<and> known_status (snd (submitTasksBulk store now b st))"
proof (cases b)
  case (Inr subs)
  obtain ts valid results where scan: "bulk_scan 0 subs = (ts, valid, results)"
    by (cases "bulk_scan 0 subs")
  obtain st' r where bulk: "as_EnqueueBulk store st ts = (st', r)" by fastforce
  have "\<exists>filled. bulk_fill now valid out results = Some filled" if "r = Inr out" for out
    using bulk_fill_Some bulk_scan_eq [OF scan] bulk_answers [OF assms, of ts st' out] bulk that by simp
  then show ?thesis
    using assms Inr inv_result [OF keeps_inv(2) [OF assms] bulk]
    by (cases r) (auto simp: submitTasksBulk_def scan bulk split: option.splits)
qed (use assms in \<open>simp add: submitTasksBulk_def\<close>)

lemma createSchedule_answers:
  assumes "inv st" and "env_ok e"
  shows "inv (fst (createSchedule e store now b st)) \<and> known_status (snd (createSchedule e store now b st))"
proof (cases b)
  case (Inr sub)
  obtain st' r where created: "as_CreateSchedule store st (submitted_schedule sub) = (st', r)" by fastforce
  show ?thesis
  proof (cases r)
    case (Inr sc)
    obtain x where "NextN (env_parser e) (env_descriptorParser e) (env_next e) (env_zones e)
        (s_cron sc) (s_timezone sc) now nextFireTimesShown = Some x"
      using NextN_total [OF assms(2)] by blast
    then show ?thesis
      using \<open>b = Inr sub\<close> Inr assms inv_result [OF keeps_inv(7) [OF assms(1)] created]
      by (simp add: createSchedule_def created)
  qed (use \<open>b = Inr sub\<close> assms inv_result [OF keeps_inv(7) [OF assms(1)] created] in
      \<open>simp add: createSchedule_def created\<close>)
qed (use assms in \<open>simp add: createSchedule_def\<close>)

lemmas inspect_defs = getTask_def cancelTask_def getQueueStats_def listSchedules_def getSchedule_def
  updateSchedule_def readyz_def healthz_def

lemma routes_answer:
  assumes "inv st" and "env_ok (cron_lib e)"
  shows "inv (fst (routes e store now r st)) \<and> known_status (snd (routes e store now r st))"
proof (cases r)
  case (PostTasks k b)
  then show ?thesis using submitTask_answers [OF assms(1)] by simp
next
  case (PostTasksBulk b)
  then show ?thesis using submitTasksBulk_answers [OF assms(1)] by simp
next
  case (PostSchedules b)
  then show ?thesis using createSchedule_answers [OF assms] by simp
qed (use assms(1) in \<open>auto simp: inspect_defs
      split: sum.splits option.splits prod.splits dest: inv_result [OF keeps_inv(3)]
        inv_result [OF keeps_inv(4)] inv_result [OF keeps_inv(5)] inv_result [OF keeps_inv(6)]
        inv_result [OF keeps_inv(8)] inv_result [OF keeps_inv(9)] inv_result [OF keeps_inv(10)]\<close>)

end

section \<open>The Postgres store keeps the laws\<close>

text \<open>Reaching the server is the pool's business, so what Ping answers is an argument.\<close>

definition pg_api_store :: "StoreErr option \<Rightarrow> db api_store" where
  "pg_api_store ping =
    \<lparr>as_Enqueue = Enqueue, as_EnqueueBulk = EnqueueBulk, as_Get = (\<lambda>d i. (d, Get d i)),
     as_Cancel = Cancel, as_QueueStats = (\<lambda>d q. (d, Inr (QueueStats d q))), as_Ping = (\<lambda>d. (d, ping)),
     as_CreateSchedule = CreateSchedule, as_ListSchedules = (\<lambda>d. (d, Inr (ListSchedules d))),
     as_GetSchedule = (\<lambda>d i. (d, GetSchedule d i)), as_SetScheduleEnabled = SetScheduleEnabled\<rparr>"

lemma pg_api_store_simps [simp]:
  "as_Enqueue (pg_api_store ping) = Enqueue"
  "as_EnqueueBulk (pg_api_store ping) = EnqueueBulk"
  "as_Get (pg_api_store ping) d i = (d, Get d i)"
  "as_Cancel (pg_api_store ping) = Cancel"
  "as_QueueStats (pg_api_store ping) d q = (d, Inr (QueueStats d q))"
  "as_Ping (pg_api_store ping) d = (d, ping)"
  "as_CreateSchedule (pg_api_store ping) = CreateSchedule"
  "as_ListSchedules (pg_api_store ping) d = (d, Inr (ListSchedules d))"
  "as_GetSchedule (pg_api_store ping) d i = (d, GetSchedule d i)"
  "as_SetScheduleEnabled (pg_api_store ping) = SetScheduleEnabled"
  by (simp_all add: pg_api_store_def)

text \<open>The same store over a connection that may fail: what is lost in which state.\<close>

record api_faults =
  af_insert :: "db \<Rightarrow> fault"
  af_select :: "db \<Rightarrow> string option"
  af_bulk :: "db \<Rightarrow> bulk_faults"
  af_cancel :: "db \<Rightarrow> fault"
  af_get :: "db \<Rightarrow> string option"
  af_stats :: "db \<Rightarrow> string option"
  af_ping :: "StoreErr option"
  af_create :: "db \<Rightarrow> fault"
  af_list :: "db \<Rightarrow> string option"
  af_rows :: "db \<Rightarrow> string option"
  af_schedule :: "db \<Rightarrow> string option"
  af_enable :: "db \<Rightarrow> fault"

definition net_api_store :: "api_faults \<Rightarrow> db api_store" where
  "net_api_store lk =
    \<lparr>as_Enqueue = (\<lambda>d t. net_Enqueue (af_insert lk d) (af_select lk d) d t),
     as_EnqueueBulk = (\<lambda>d ts. net_EnqueueBulk (af_bulk lk d) d ts),
     as_Get = (\<lambda>d i. (d, net_Get (af_get lk d) d i)),
     as_Cancel = (\<lambda>d i. net_Cancel (af_cancel lk d) (af_get lk d) d i),
     as_QueueStats = (\<lambda>d q. (d, net_QueueStats (af_stats lk d) d q)),
     as_Ping = (\<lambda>d. (d, af_ping lk)),
     as_CreateSchedule = (\<lambda>d sc. net_CreateSchedule (af_create lk d) d sc),
     as_ListSchedules = (\<lambda>d. (d, net_ListSchedules (af_list lk d) (af_rows lk d) d)),
     as_GetSchedule = (\<lambda>d i. (d, net_GetSchedule (af_schedule lk d) d i)),
     as_SetScheduleEnabled = (\<lambda>d i b. net_SetScheduleEnabled (af_enable lk d) d i b)\<rparr>"

definition only_ping :: "StoreErr option \<Rightarrow> api_faults" where
  "only_ping ping =
    \<lparr>af_insert = (\<lambda>_. Fine), af_select = (\<lambda>_. None), af_bulk = (\<lambda>_. no_bulk_faults), af_cancel = (\<lambda>_. Fine),
     af_get = (\<lambda>_. None), af_stats = (\<lambda>_. None), af_ping = ping, af_create = (\<lambda>_. Fine), af_list = (\<lambda>_. None),
     af_rows = (\<lambda>_. None), af_schedule = (\<lambda>_. None), af_enable = (\<lambda>_. Fine)\<rparr>"

lemma net_api_store_Fine: "net_api_store (only_ping ping) = pg_api_store ping"
  by (simp add: net_api_store_def only_ping_def pg_api_store_def net_Enqueue_Fine net_EnqueueBulk_Fine
      net_Get_def net_Cancel_Fine net_QueueStats_def net_CreateSchedule_def net_ListSchedules_def
      net_GetSchedule_def net_SetScheduleEnabled_def collectSchedules_def read_call_def)

interpretation net_api: api_store_laws "net_api_store lk" reachable
  for lk
proof
  fix d t d' created err
  assume "as_Enqueue (net_api_store lk) d t = (d', created, err)"
    and "err = None \<or> err = Some ErrDuplicateIdempotencyKey"
  then show "created \<noteq> None"
    by (auto simp: net_api_store_def net_Enqueue_def wrapped_def
        split: prod.splits sum.splits option.splits dest: sym [of "Some _"])
next
  fix d ts d' out
  assume "as_EnqueueBulk (net_api_store lk) d ts = (d', Inr out)"
  then have "EnqueueBulk d ts = (d', Inr out)"
    by (cases rule: net_EnqueueBulk_cases [where bf = "af_bulk lk d" and d = d and ts = ts])
      (auto simp: net_api_store_def)
  then show "length out = length ts" using enqueue_each_length by (simp add: EnqueueBulk_eq_each)
qed (simp_all add: net_api_store_def, (rule runs_to_reachable [rotated], assumption,
      rule net_runs net_EnqueueBulk_runs)+)

lemma net_api_answers:
  assumes "reachable d" and "env_ok (cron_lib e)"
  shows "\<exists>d' resp. routes e (net_api_store lk) now r d = (d', Responds resp)
    \<and> rs_status resp \<in> {200, 201, 204, 400, 404, 409, 500, 503} \<and> reachable d'"
proof -
  obtain d' res where res: "routes e (net_api_store lk) now r d = (d', res)" by fastforce
  with net_api.routes_answer [OF assms, of lk now r] have "reachable d'" and "known_status res"
    by simp_all
  moreover from this(2) obtain resp where "res = Responds resp" by (cases res) simp_all
  ultimately show ?thesis using res by simp
qed

definition sample_env :: "unit api_env" where
  "sample_env = \<lparr>srv_cfg = server_DefaultConfig, cron_lib = once_env, wording = (\<lambda>_. ''EOF'')\<rparr>"

section \<open>Store errors\<close>

text \<open>
  The errors the API distinguishes; scrubbing replaces every other one, and with it whatever
  text the driver put there.
\<close>

definition scrub :: "StoreErr \<Rightarrow> StoreErr" where
  "scrub err =
    (if err \<in> {ErrNotFound, ErrNotCancellable, ErrDuplicateIdempotencyKey} then err else ErrWrapped [])"

definition scrubbed :: "'st api_store \<Rightarrow> 'st api_store" where
  "scrubbed store =
    \<lparr>as_Enqueue = (\<lambda>st t. map_prod id (map_prod id (map_option scrub)) (as_Enqueue store st t)),
     as_EnqueueBulk = (\<lambda>st ts. map_prod id (map_sum scrub id) (as_EnqueueBulk store st ts)),
     as_Get = (\<lambda>st i. map_prod id (map_sum scrub id) (as_Get store st i)),
     as_Cancel = (\<lambda>st i. map_prod id (map_option scrub) (as_Cancel store st i)),
     as_QueueStats = (\<lambda>st q. map_prod id (map_sum scrub id) (as_QueueStats store st q)),
     as_Ping = (\<lambda>st. map_prod id (map_option scrub) (as_Ping store st)),
     as_CreateSchedule = (\<lambda>st sc. map_prod id (map_sum scrub id) (as_CreateSchedule store st sc)),
     as_ListSchedules = (\<lambda>st. map_prod id (map_sum scrub id) (as_ListSchedules store st)),
     as_GetSchedule = (\<lambda>st i. map_prod id (map_sum scrub id) (as_GetSchedule store st i)),
     as_SetScheduleEnabled =
       (\<lambda>st i b. map_prod id (map_sum scrub id) (as_SetScheduleEnabled store st i b))\<rparr>"

lemma scrub_sentinels:
  "scrub err = ErrNotFound \<longleftrightarrow> err = ErrNotFound"
  "scrub err = ErrNotCancellable \<longleftrightarrow> err = ErrNotCancellable"
  "scrub err = ErrDuplicateIdempotencyKey \<longleftrightarrow> err = ErrDuplicateIdempotencyKey"
  by (simp_all add: scrub_def)

lemma writeStoreError_scrub [simp]: "writeStoreError (scrub err) m = writeStoreError err m"
  by (simp add: writeStoreError_cases scrub_sentinels)

lemma submitTask_scrubbed: "submitTask (scrubbed store) k b st = submitTask store k b st"
proof (cases b)
  case (Inr sub)
  obtain st' created err where "as_Enqueue store st (with_header_key k (submitted_task sub)) = (st', created, err)"
    by (cases "as_Enqueue store st (with_header_key k (submitted_task sub))")
  with Inr show ?thesis
    by (cases err) (simp_all add: submitTask_def scrubbed_def scrub_sentinels Let_def)
qed (simp add: submitTask_def)

lemma submitTasksBulk_scrubbed: "submitTasksBulk (scrubbed store) now b st = submitTasksBulk store now b st"
proof (cases b)
  case (Inr subs)
  obtain ts valid results where scan: "bulk_scan 0 subs = (ts, valid, results)"
    by (cases "bulk_scan 0 subs")
  obtain st' r where "as_EnqueueBulk store st ts = (st', r)" by fastforce
  with Inr scan show ?thesis by (cases r) (simp_all add: submitTasksBulk_def scrubbed_def)
qed (simp add: submitTasksBulk_def)

lemma createSchedule_scrubbed: "createSchedule e (scrubbed store) now b st = createSchedule e store now b st"
proof (cases b)
  case (Inr sub)
  obtain st' r where "as_CreateSchedule store st (submitted_schedule sub) = (st', r)" by fastforce
  with Inr show ?thesis by (cases r) (simp_all add: createSchedule_def scrubbed_def)
qed (simp add: createSchedule_def)

lemma inspect_scrubbed:
  "getTask (scrubbed store) raw st = getTask store raw st"
  "cancelTask (scrubbed store) raw st = cancelTask store raw st"
  "getQueueStats (scrubbed store) raw st = getQueueStats store raw st"
  "listSchedules (scrubbed store) st = listSchedules store st"
  "getSchedule (scrubbed store) raw st = getSchedule store raw st"
  "updateSchedule (scrubbed store) raw upd st = updateSchedule store raw upd st"
  "readyz (scrubbed store) st = readyz store st"
  by (auto simp: getTask_def cancelTask_def getQueueStats_def listSchedules_def getSchedule_def
      updateSchedule_def readyz_def scrubbed_def split: sum.splits option.splits prod.splits)

text \<open>
  C30. What a client is told does not depend on the text of any error of the store: replacing
  every error but the three that the API distinguishes by one and the same leaves each
  response, its status, headers and body, as it was. So no SQL, address or driver message
  reaches a client.
\<close>

theorem store_errors_stay_private:
  "serve e (scrubbed store) reqID now r st = serve e store reqID now r st"
  by (cases r) (simp_all add: serve_def submitTask_scrubbed submitTasksBulk_scrubbed
      createSchedule_scrubbed inspect_scrubbed)

section \<open>Submissions\<close>

lemma valid_handler: "handler_problems h = [] \<Longrightarrow> h \<noteq> []"
  by (auto simp: handler_problems_def)

lemma valid_submission_args:
  assumes "validateSubmission sub = []"
  shows "args_ok d (with_header_key key (submitted_task sub)) \<longleftrightarrow> sub_payload sub \<noteq> None"
proof -
  have "sub_handler sub \<noteq> []" using assms valid_handler by (simp add: validateSubmission_def)
  moreover have "- 1000 \<le> sub_priority sub" "sub_priority sub \<le> 1000"
    using assms by (auto simp: validateSubmission_def priority_problems_def priorityMin_def priorityMax_def
        split: if_splits)
  moreover have "0 \<le> sub_max_attempts sub" "sub_max_attempts sub \<le> 100"
    using assms by (auto simp: validateSubmission_def max_attempts_problems_def maxAttemptsMin_def
        maxAttemptsMax_def split: if_splits)
  ultimately show ?thesis
    by (auto simp: args_ok_def with_header_key_def submitted_task_def int4_def tasks_schedule_id_fkey_def)
qed

lemma Enqueue_no_payload:
  assumes "t_payload t = None"
  shows "\<exists>d' err. Enqueue d t = (d', None, Some (ErrWrapped err)) \<and> tasks d' = tasks d"
proof -
  have "\<exists>d' err. enqueue_args d t = (d', Inl err) \<and> tasks d' = tasks d"
    using assms by (auto simp: enqueue_args_def enqueueSQL_def tasks_not_null_def inserted_row_def Let_def)
  then show ?thesis by (auto simp: Enqueue_def enqueueOne_def)
qed


section \<open>Bulk submissions\<close>

text \<open>The results, item by item: out holds the rows of the valid items, in order.\<close>

definition invalid_item :: "nat \<Rightarrow> taskSubmission \<Rightarrow> bulkItemResult" where
  "invalid_item i sub =
    \<lparr>Index = i, bulk_Status = ''invalid'', bulk_Task = None, bulk_Errors = validateSubmission sub\<rparr>"

definition stored_item :: "instant \<Rightarrow> nat \<Rightarrow> Task \<Rightarrow> bulkItemResult" where
  "stored_item start i t =
    \<lparr>Index = i, bulk_Status = (if t_idempotency_key t \<noteq> None \<and> t_created_at t < start
                              then ''duplicate'' else ''created''),
     bulk_Task = Some t, bulk_Errors = []\<rparr>"

fun bulk_items :: "instant \<Rightarrow> nat \<Rightarrow> taskSubmission list \<Rightarrow> Task list \<Rightarrow> bulkItemResult list" where
  "bulk_items start i [] out = []"
| "bulk_items start i (sub # subs) out =
    (if validateSubmission sub \<noteq> [] then invalid_item i sub # bulk_items start (i + 1) subs out
     else stored_item start i (hd out) # bulk_items start (i + 1) subs (tl out))"

abbreviation valid_subs :: "taskSubmission list \<Rightarrow> taskSubmission list" where
  "valid_subs \<equiv> filter (\<lambda>sub. validateSubmission sub = [])"

lemma bulk_fill_items:
  "bulk_scan i subs = (ts, valid, results) \<Longrightarrow> length out = length (valid_subs subs) \<Longrightarrow> length pre = i \<Longrightarrow>
    bulk_fill start valid out (pre @ results) = Some (pre @ bulk_items start i subs out)"
proof (induction subs arbitrary: i ts valid results out pre)
  case (Cons sub subs)
  obtain ts' valid' results' where rest: "bulk_scan (i + 1) subs = (ts', valid', results')"
    by (cases "bulk_scan (i + 1) subs")
  show ?case
  proof (cases "validateSubmission sub = []")
    case True
    then obtain t out' where out: "out = t # out'" "length out' = length (valid_subs subs)"
      using Cons.prems(2) by (cases out) auto
    have "bulk_fill start valid' out' ((pre @ [stored_item start i t]) @ results') =
        Some ((pre @ [stored_item start i t]) @ bulk_items start (i + 1) subs out')"
      using Cons.prems(3) by (intro Cons.IH [OF rest out(2)]) simp
    then show ?thesis
      using True Cons.prems rest out by (auto simp: stored_item_def zero_result_def list_update_append)
  next
    case False
    have "bulk_fill start valid' out ((pre @ [invalid_item i sub]) @ results') =
        Some ((pre @ [invalid_item i sub]) @ bulk_items start (i + 1) subs out)"
      using False Cons.prems by (intro Cons.IH [OF rest]) simp_all
    then show ?thesis using False Cons.prems rest by (auto simp: invalid_item_def)
  qed
qed simp

lemma bulk_items_nth:
  "length out = length (valid_subs subs) \<Longrightarrow> j < length subs \<Longrightarrow> bulk_items start i subs out ! j =
    (if validateSubmission (subs ! j) \<noteq> [] then invalid_item (i + j) (subs ! j)
     else stored_item start (i + j) (out ! length (valid_subs (take j subs))))"
proof (induction subs arbitrary: i j out)
  case (Cons sub subs)
  show ?case
  proof (cases j)
    case 0
    then show ?thesis using Cons.prems by (cases out) auto
  next
    case (Suc k)
    then show ?thesis using Cons.prems Cons.IH [of "if validateSubmission sub = [] then tl out else out" k "i + 1"]
      by (cases out) auto
  qed
qed simp

lemma length_bulk_items: "length (bulk_items start i subs out) = length subs"
  by (induction start i subs out rule: bulk_items.induct) auto

text \<open>
  C34. A bulk request of up to a thousand items is answered with one result per item, in the
  order of the request. An item with problems carries all of them and is not stored; the
  others are stored as if submitted one after the other, and each result carries its own
  row. If one of them cannot be stored, none is, and the answer is 500.
\<close>

theorem bulk_answers_in_request_order:
  assumes "subs \<noteq> []" and "length subs \<le> maxBulkTasks"
  shows "case enqueue_each d (map submitted_task (filter (\<lambda>sub. validateSubmission sub = []) subs)) of
      (d', Inr out) \<Rightarrow> submitTasksBulk (pg_api_store ping) now (Inr subs) d = (d', Responds
        (writeJSON 200 None (BulkBody (map (\<lambda>i.
          if validateSubmission (subs ! i) \<noteq> [] then invalid_item i (subs ! i)
          else stored_item now i (out ! length (filter (\<lambda>sub. validateSubmission sub = []) (take i subs))))
          [0..<length subs]))))
    | (_, Inl _) \<Rightarrow> \<exists>d'. tasks d' = tasks d \<and> submitTasksBulk (pg_api_store ping) now (Inr subs) d =
        (d', Responds (writeJSONError 500 ''enqueuing tasks failed''))"
proof -
  let ?ts = "map submitted_task (valid_subs subs)"
  let ?item = "\<lambda>out i. if validateSubmission (subs ! i) \<noteq> [] then invalid_item i (subs ! i)
          else stored_item now i (out ! length (valid_subs (take i subs)))"
  obtain valid results where scan: "bulk_scan 0 subs = (?ts, valid, results)"
    using bulk_scan_eq [of 0 subs] by (cases "bulk_scan 0 subs") auto
  have fill: "bulk_fill now valid out results = Some (map (?item out) [0..<length subs])"
    if "length out = length ?ts" for out
  proof -
    have "bulk_items now 0 subs out = map (?item out) [0..<length subs]"
      using that bulk_items_nth [of out subs _ now 0] by (intro nth_equalityI) (auto simp: length_bulk_items)
    then show ?thesis using bulk_fill_items [OF scan, of out "[]" now] that by simp
  qed
  show ?thesis
  proof (cases rule: EnqueueBulk_cases [where d = d and ts = ?ts])
    case (ok d' out)
    then have "submitTasksBulk (pg_api_store ping) now (Inr subs) d = (d', Responds
        (writeJSON 200 None (BulkBody (map (?item out) [0..<length subs]))))"
      using assms fill [of out] enqueue_each_length [OF ok(2)] scan
      by (cases "?ts = []") (auto simp: submitTasksBulk_def)
    with ok show ?thesis by simp
  next
    case (failed d' err)
    then have "?ts \<noteq> []" by (auto simp: EnqueueBulk_def)
    with failed assms scan have "submitTasksBulk (pg_api_store ping) now (Inr subs) d =
        (rollback d d', Responds (writeJSONError 500 ''enqueuing tasks failed''))"
      by (auto simp: submitTasksBulk_def)
    with failed show ?thesis by (auto simp: rollback_def)
  qed
qed

text \<open>Two submissions, one valid and one with a bad priority.\<close>

definition sample_submission :: taskSubmission where
  "sample_submission =
    \<lparr>sub_queue = [], sub_handler = ''email'', sub_payload = Some ''{}'', sub_priority = 0,
     sub_run_at = None, sub_max_attempts = 0, sub_idempotency_key = None\<rparr>"

lemma sample_submission_valid:
  "validateSubmission sample_submission = []"
  "validateSubmission (sample_submission\<lparr>sub_priority := 5000\<rparr>) \<noteq> []"
  by code_simp+

lemma bulk_answers_in_request_order_witness:
  "\<exists>d' results. submitTasksBulk (pg_api_store None) 0
      (Inr [sample_submission\<lparr>sub_priority := 5000\<rparr>, sample_submission]) (empty_db 0) =
      (d', Responds (writeJSON 200 None (BulkBody results)))
    \<and> map bulk_Status results = [''invalid'', ''created''] \<and> length (tasks d') = 1"
proof -
  let ?subs = "[sample_submission\<lparr>sub_priority := 5000\<rparr>, sample_submission]"
  have valid: "valid_subs ?subs = [sample_submission]" by (simp add: sample_submission_valid)
  have "args_ok (empty_db 0) (with_header_key [] (submitted_task sample_submission))"
    using valid_submission_args [OF sample_submission_valid(1)] by (simp add: sample_submission_def)
  then have "args_ok (empty_db 0) (submitted_task sample_submission)" by (simp add: with_header_key_def)
  moreover have "\<not> key_taken (empty_db 0) (submitted_task sample_submission)"
    by (simp add: key_taken_def empty_db_def)
  ultimately obtain d' where d': "enqueue_each (empty_db 0) [submitted_task sample_submission] =
      (d', Inr [row_for (empty_db 0) (submitted_task sample_submission)])" "length (tasks d') = 1"
    by (cases rule: Enqueue_cases [where d = "empty_db 0" and t = "submitted_task sample_submission"])
      (auto simp: empty_db_def key_taken_def)
  have key: "t_idempotency_key (submitted_task sample_submission) = None"
    by (simp add: submitted_task_def sample_submission_def)
  have "?subs \<noteq> []" "length ?subs \<le> maxBulkTasks" by (simp_all add: maxBulkTasks_def)
  from bulk_answers_in_request_order [OF this, of "empty_db 0" None 0] show ?thesis
    using d'(2) unfolding valid list.map d'(1)
    by (auto simp: sample_submission_valid invalid_item_def stored_item_def key)
qed

end
