(* ===== verification/Go_JSON_Facts.thy ===== *)
theory Go_JSON_Facts
  imports Go_JSON
begin

text \<open>
  Facts about the decoder: every value consumes text; a value reads the same whatever follows
  it; and a text that a client writes for a string or an integer reads back as that string or
  integer.
\<close>

section \<open>Every value consumes text\<close>

lemma digits_then_shorter: "digits_then s = Some (ds, r) \<Longrightarrow> length r < length s"
proof -
  assume "digits_then s = Some (ds, r)"
  then have "takeWhile is_digit s \<noteq> []" "r = dropWhile is_digit s"
    by (auto simp: digits_then_def Let_def split: if_splits)
  moreover have "length s = length (takeWhile is_digit s) + length (dropWhile is_digit s)"
    by (metis length_append takeWhile_dropWhile_id)
  ultimately show ?thesis by simp
qed

lemma scan_int_shorter: "scan_int s = Some (i, r) \<Longrightarrow> length r < length s"
  by (auto simp: scan_int_def split: list.splits if_splits dest: digits_then_shorter)

lemma scan_frac_le: "scan_frac s = Some (f, r) \<Longrightarrow> length r \<le> length s"
  by (cases s) (auto simp: scan_frac_def split: if_splits dest!: digits_then_shorter)

lemma scan_exp_le: "scan_exp s = Some (f, r) \<Longrightarrow> length r \<le> length s"
proof -
  assume exp: "scan_exp s = Some (f, r)"
  have "length (tl (tl s)) \<le> length s" "length (tl s) \<le> length s" by simp_all
  with exp show ?thesis
    by (fastforce simp: scan_exp_def split: if_splits dest!: digits_then_shorter)
qed

lemma scan_number_shorter:
  assumes "scan_number s = Some (n, r)"
  shows "length r < length s"
proof -
  let ?body = "if s \<noteq> [] \<and> hd s = CHR ''-'' then tl s else s"
  obtain i s1 f s2 e where "scan_int ?body = Some (i, s1)" "scan_frac s1 = Some (f, s2)"
    "scan_exp s2 = Some (e, r)"
    using assms by (auto simp: scan_number_def Let_def split: if_splits option.splits)
  then show ?thesis
    using scan_int_shorter scan_frac_le scan_exp_le by (fastforce split: if_splits)
qed

lemma prefix_of_append: "prefix_of p s \<Longrightarrow> prefix_of p (s @ t)"
  by (metis prefix_of_def append_take_drop_id append.assoc append_eq_conv_conj)

lemma prefix_of_length: "prefix_of p s \<Longrightarrow> length p \<le> length s"
  by (metis prefix_of_def length_take min.cobounded1)

lemma scan_literal_shorter: "scan_literal s = Some (v, r) \<Longrightarrow> length r < length s"
  by (auto simp: scan_literal_def split: if_splits dest!: prefix_of_length)

lemma scan_atom_shorter: "scan_atom s = Some (v, r) \<Longrightarrow> length r < length s"
  by (auto simp: scan_atom_def split: list.splits if_splits
      dest!: scan_string_shorter scan_number_shorter scan_literal_shorter)

lemma parse_shorter:
  "parse_value d s = Some (v, r) \<Longrightarrow> length r < length s"
  "parse_elems d s = Some (vs, r) \<Longrightarrow> length r < length s"
  "parse_members d s = Some (ms, r) \<Longrightarrow> length r < length s"
proof (induction d s and d s and d s arbitrary: v r and vs r and ms r
    rule: parse_value_parse_elems_parse_members.induct)
  case (1 d s)
  note len = expect_shorter length_skip_space [of s] scan_atom_shorter
  show ?case
  proof (cases "expect (CHR ''['') s")
    case arr: (Some cs)
    show ?thesis
    proof (cases "expect (CHR '']'') cs")
      case None
      then show ?thesis
        using 1(2) [OF arr _ None] 1(3) arr len(1) [OF arr]
        by (fastforce simp: parse_value.simps [of d s] split: if_splits)
    qed (use 1(3) arr len(1) [OF arr] in
        \<open>auto simp: parse_value.simps [of d s] split: if_splits dest!: expect_shorter\<close>)
  next
    case noarr: None
    show ?thesis
    proof (cases "expect (CHR ''{'') s")
      case obj: (Some cs)
      show ?thesis
      proof (cases "expect (CHR ''}'') cs")
        case None
        then show ?thesis
          using 1(1) [OF noarr obj _ None] 1(3) noarr obj len(1) [OF obj]
          by (fastforce simp: parse_value.simps [of d s] split: if_splits)
      qed (use 1(3) noarr obj len(1) [OF obj] in
          \<open>auto simp: parse_value.simps [of d s] split: if_splits dest!: expect_shorter\<close>)
    next
      case None
      then show ?thesis using 1(3) noarr len(2,3) by (fastforce simp: parse_value.simps [of d s])
    qed
  qed
next
  case (2 d s)
  then show ?case
    by (fastforce simp: parse_elems.simps [of d s] split: option.splits prod.splits if_splits
        dest!: expect_shorter)
next
  case (3 d s)
  then show ?case
    by (fastforce simp: parse_members.simps [of d s] Let_def split: option.splits prod.splits if_splits
        dest!: expect_shorter scan_key_shorter)
qed

text \<open>So the test that a list goes on only where text was consumed never stops one.\<close>

lemma parse_elems_eq:
  "parse_elems d s =
    (case parse_value d s of
       None \<Rightarrow> None
     | Some (v, r) \<Rightarrow>
         (case expect (CHR '']'') r of
            Some rest \<Rightarrow> Some ([v], rest)
          | None \<Rightarrow>
              (case expect (CHR '','') r of
                 Some cs \<Rightarrow> map_option (\<lambda>(vs, rest). (v # vs, rest)) (parse_elems d cs)
               | None \<Rightarrow> None)))"
  by (subst parse_elems.simps)
    (auto split: option.splits prod.splits dest!: expect_shorter parse_shorter(1))

lemma parse_members_eq:
  "parse_members d s =
    (case scan_key s of
       None \<Rightarrow> None
     | Some (k, after) \<Rightarrow>
         (case parse_value d after of
            None \<Rightarrow> None
          | Some (v, r) \<Rightarrow>
              (case expect (CHR ''}'') r of
                 Some rest \<Rightarrow> Some ([(k, v, value_text after r)], rest)
               | None \<Rightarrow>
                   (case expect (CHR '','') r of
                      Some cs \<Rightarrow>
                        map_option (\<lambda>(ms, rest). ((k, v, value_text after r) # ms, rest)) (parse_members d cs)
                    | None \<Rightarrow> None))))"
  by (subst parse_members.simps)
    (auto simp: Let_def split: option.splits prod.splits
      dest!: expect_shorter parse_shorter(1) scan_key_shorter)

section \<open>A value reads the same whatever follows it\<close>

lemma skip_space_append: "skip_space s \<noteq> [] \<Longrightarrow> skip_space (s @ t) = skip_space s @ t"
  by (induction s) (auto simp: skip_space_def)

lemma expect_append: "expect c s = Some r \<Longrightarrow> expect c (s @ t) = Some (r @ t)"
  by (cases "skip_space s") (auto simp: expect_def skip_space_append split: if_splits)

lemma expect_None_append: "skip_space s \<noteq> [] \<Longrightarrow> expect c s = None \<Longrightarrow> expect c (s @ t) = None"
  by (cases "skip_space s") (auto simp: expect_def skip_space_append split: if_splits)

lemma expect_nonempty: "expect c s = Some r \<Longrightarrow> skip_space s \<noteq> []"
  by (auto simp: expect_def)

lemma getu4_append: "getu4 s \<noteq> None \<Longrightarrow> getu4 (s @ t) = getu4 s \<and> 6 \<le> length s"
  by (auto simp: getu4_def split: list.splits if_splits)

lemma scan_string_append:
  "scan_string s = Some (lit, r) \<Longrightarrow> scan_string (s @ t) = Some (lit, r @ t)"
proof (induction s arbitrary: lit r rule: scan_string.induct)
  case (2 c cs)
  show ?case
  proof (cases "c = CHR 0x22 \<or> c \<noteq> CHR 0x5C")
    case True
    then show ?thesis using 2 by (auto split: if_splits)
  next
    case False
    then have cs: "cs \<noteq> []" using "2.prems" by auto
    show ?thesis
    proof (cases "simple_escape (hd cs) = None")
      case True
      then have u: "getu4 (c # cs) \<noteq> None" using False cs "2.prems" by (auto split: if_splits)
      then have ext: "getu4 (c # cs @ t) \<noteq> None" "5 \<le> length cs" using getu4_append [OF u, of t] by auto
      obtain l where "scan_string (drop 5 cs) = Some (l, r)" "lit = c # take 5 cs @ l"
        using False True cs u "2.prems" by auto
      then show ?thesis using "2.IH"(2) [of l r] False True cs u ext by simp
    next
      case esc: False
      then obtain l where "scan_string (tl cs) = Some (l, r)" "lit = c # hd cs # l"
        using False cs "2.prems" by auto
      then show ?thesis using "2.IH"(1) [of l r] False esc cs by simp
    qed
  qed
qed simp

lemma digits_then_append:
  "digits_then s = Some (ds, r) \<Longrightarrow> r \<noteq> [] \<Longrightarrow> digits_then (s @ t) = Some (ds, r @ t)"
proof -
  assume ds: "digits_then s = Some (ds, r)" and r: "r \<noteq> []"
  then have "r = dropWhile is_digit s" by (auto simp: digits_then_def Let_def split: if_splits)
  with r have "\<exists>x \<in> set s. \<not> is_digit x" by (metis dropWhile_eq_Nil_conv)
  then show ?thesis
    using ds by (auto simp: digits_then_def Let_def takeWhile_append dropWhile_append split: if_splits)
qed

lemma scan_int_append: "scan_int s = Some (i, r) \<Longrightarrow> r \<noteq> [] \<Longrightarrow> scan_int (s @ t) = Some (i, r @ t)"
  using digits_then_append [of s i r t] by (auto simp: scan_int_def split: list.splits if_splits)

lemma scan_frac_append: "scan_frac s = Some (f, r) \<Longrightarrow> r \<noteq> [] \<Longrightarrow> scan_frac (s @ t) = Some (f, r @ t)"
  by (cases s) (auto simp: scan_frac_def split: if_splits dest: digits_then_append)

lemma scan_exp_append:
  assumes "scan_exp s = Some (f, r)" and "r \<noteq> []"
  shows "scan_exp (s @ t) = Some (f, r @ t)"
proof (cases "s \<noteq> [] \<and> hd s \<in> {CHR ''e'', CHR ''E''}")
  case True
  then obtain c cs where s: "s = c # cs" "c \<in> {CHR ''e'', CHR ''E''}" by (cases s) auto
  then have "cs \<noteq> []" using assms by (auto simp: scan_exp_def digits_then_def)
  then obtain d ds where "cs = d # ds" by (cases cs) auto
  then show ?thesis
    using assms s digits_then_append [of ds _ r t] digits_then_append [of cs _ r t]
    by (auto simp: scan_exp_def split: if_splits)
next
  case False
  then show ?thesis using assms by (cases s) (auto simp: scan_exp_def)
qed

lemma scan_number_append:
  assumes "scan_number s = Some (n, r)" and "r \<noteq> []"
  shows "scan_number (s @ t) = Some (n, r @ t)"
proof -
  have "s \<noteq> []" using assms by (auto simp: scan_number_def scan_int_def)
  define sg where "sg = (if hd s = CHR ''-'' then [CHR ''-''] else [])"
  define b where "b = (if hd s = CHR ''-'' then tl s else s)"
  have eq: "scan_number (s @ u) = (case scan_int (b @ u) of None \<Rightarrow> None | Some (i, s1) \<Rightarrow>
        case scan_frac s1 of None \<Rightarrow> None | Some (f, s2) \<Rightarrow>
        case scan_exp s2 of None \<Rightarrow> None | Some (e, s3) \<Rightarrow> Some (sg @ i @ f @ e, s3))" for u
    using \<open>s \<noteq> []\<close> unfolding sg_def b_def by (auto simp: scan_number_def)
  from assms(1) eq [of "[]"] obtain i s1 f s2 e where parts: "scan_int b = Some (i, s1)"
    "scan_frac s1 = Some (f, s2)" "scan_exp s2 = Some (e, r)" "n = sg @ i @ f @ e"
    by (auto split: option.splits)
  have "s2 \<noteq> []" using parts(3) assms(2) scan_exp_le by fastforce
  moreover from this have "s1 \<noteq> []" using parts(2) scan_frac_le by fastforce
  ultimately show ?thesis
    unfolding eq using parts assms(2) scan_int_append scan_frac_append scan_exp_append by simp
qed

lemma scan_literal_append: "scan_literal s = Some (v, r) \<Longrightarrow> scan_literal (s @ t) = Some (v, r @ t)"
proof -
  assume lit: "scan_literal s = Some (v, r)"
  have first: "prefix_of p s \<Longrightarrow> p \<noteq> [] \<Longrightarrow> q \<noteq> [] \<Longrightarrow> hd p \<noteq> hd q \<Longrightarrow> \<not> prefix_of q (s @ t)" for p q
    by (cases p; cases q; cases s) (auto simp: prefix_of_def)
  show ?thesis
    using lit first [of "''true''" "''null''"] first [of "''false''" "''null''"] first [of "''false''" "''true''"]
      prefix_of_append [of _ s t] prefix_of_length [of "''null''" s] prefix_of_length [of "''true''" s]
      prefix_of_length [of "''false''" s]
    by (auto simp: scan_literal_def split: if_splits)
qed

definition number :: "json \<Rightarrow> bool" where
  "number v = (case v of JNum _ \<Rightarrow> True | _ \<Rightarrow> False)"

lemma scan_atom_append:
  assumes "scan_atom s = Some (v, r)" and "r \<noteq> [] \<or> \<not> number v"
  shows "scan_atom (s @ t) = Some (v, r @ t)"
proof -
  obtain c cs where s: "s = c # cs" using assms by (cases s) (auto simp: scan_atom_def)
  show ?thesis
    using assms scan_string_append [of cs _ r t] scan_number_append [of s _ r t] scan_literal_append [of s v r t]
    by (auto simp: scan_atom_def s number_def split: if_splits)
qed

lemma scan_key_append: "scan_key s = Some (k, r) \<Longrightarrow> scan_key (s @ t) = Some (k, r @ t)"
  by (auto simp: scan_key_def expect_append scan_string_append split: option.splits)

lemma parse_value_nonempty: "parse_value d s = Some (v, r) \<Longrightarrow> skip_space s \<noteq> []"
  by (auto simp: parse_value.simps [of d s] expect_def scan_atom_def split: option.splits)

lemma parse_elems_nonempty: "parse_elems d s = Some (vs, r) \<Longrightarrow> skip_space s \<noteq> []"
  by (auto simp: parse_elems.simps [of d s] split: option.splits dest: parse_value_nonempty)

lemma parse_members_nonempty: "parse_members d s = Some (ms, r) \<Longrightarrow> skip_space s \<noteq> []"
  by (auto simp: parse_members.simps [of d s] scan_key_def split: option.splits dest: expect_nonempty)

lemma value_text_append:
  "skip_space a \<noteq> [] \<Longrightarrow> value_text (a @ t) (r @ t) = value_text a r"
  by (simp add: value_text_def skip_space_append Let_def)

lemma parse_append:
  "parse_value d s = Some (v, r) \<Longrightarrow> r \<noteq> [] \<or> \<not> number v \<Longrightarrow> parse_value d (s @ t) = Some (v, r @ t)"
  "parse_elems d s = Some (vs, r) \<Longrightarrow> parse_elems d (s @ t) = Some (vs, r @ t)"
  "parse_members d s = Some (ms, r) \<Longrightarrow> parse_members d (s @ t) = Some (ms, r @ t)"
proof (induction d s and d s and d s arbitrary: v r and vs r and ms r
    rule: parse_value_parse_elems_parse_members.induct)
  case (1 d s)
  note simps = parse_value.simps [of d s] parse_value.simps [of d "s @ t"]
  have ne: "skip_space s \<noteq> []" by (rule parse_value_nonempty [OF 1(3)])
  show ?case
  proof (cases "expect (CHR ''['') s")
    case arr: (Some cs)
    show ?thesis
    proof (cases "expect (CHR '']'') cs")
      case None
      then obtain vs where vs: "parse_elems (d - 1) cs = Some (vs, r)" "v = JArr vs" "d \<noteq> 0"
        using 1(3) arr by (auto simp: simps split: if_splits)
      then show ?thesis
        using 1(2) [OF arr vs(3) None vs(1)] arr vs expect_append [OF arr, of t]
          expect_None_append [OF parse_elems_nonempty [OF vs(1)] None, of t]
        by (simp add: simps)
    next
      case (Some rest)
      then show ?thesis using 1(3) arr expect_append [OF arr, of t] expect_append [OF Some, of t]
        by (auto simp: simps split: if_splits)
    qed
  next
    case noarr: None
    note noarr' = expect_None_append [OF ne noarr, of t]
    show ?thesis
    proof (cases "expect (CHR ''{'') s")
      case obj: (Some cs)
      show ?thesis
      proof (cases "expect (CHR ''}'') cs")
        case None
        then obtain ms where ms: "parse_members (d - 1) cs = Some (ms, r)" "v = JObj ms" "d \<noteq> 0"
          using 1(3) noarr obj by (auto simp: simps split: if_splits)
        then show ?thesis
          using 1(1) [OF noarr obj ms(3) None ms(1)] noarr noarr' obj ms expect_append [OF obj, of t]
            expect_None_append [OF parse_members_nonempty [OF ms(1)] None, of t]
          by (simp add: simps)
      next
        case (Some rest)
        then show ?thesis
          using 1(3) noarr noarr' obj expect_append [OF obj, of t] expect_append [OF Some, of t]
          by (auto simp: simps split: if_splits)
      qed
    next
      case None
      then show ?thesis
        using 1(3,4) noarr noarr' expect_None_append [OF ne None, of t] scan_atom_append [of "skip_space s" v r t]
        by (simp add: simps skip_space_append [OF ne])
    qed
  qed
next
  case (2 d s)
  from 2(3) obtain v r1 where v: "parse_value d s = Some (v, r1)"
    by (subst (asm) parse_elems_eq) (auto split: option.splits)
  have ne: "skip_space r1 \<noteq> []"
    using 2(3) by (subst (asm) parse_elems_eq) (auto simp: v split: option.splits dest: expect_nonempty)
  then have "r1 \<noteq> []" by (auto simp: skip_space_def)
  then have v': "parse_value d (s @ t) = Some (v, r1 @ t)" using 2(1) [OF v] by simp
  show ?case
  proof (cases "expect (CHR '']'') r1")
    case (Some rest)
    then show ?thesis
      using 2(3) v v' expect_append [OF Some, of t] by (simp add: parse_elems_eq [of d s] parse_elems_eq [of d "s @ t"])
  next
    case None
    then obtain cs vs' where cs: "expect (CHR '','') r1 = Some cs" "parse_elems d cs = Some (vs', r)" "vs = v # vs'"
      using 2(3) v by (auto simp: parse_elems_eq [of d s] split: option.splits)
    have "length cs < length s" using expect_shorter [OF cs(1)] parse_shorter(1) [OF v] by simp
    then show ?thesis
      using 2(2) [OF v refl None cs(1) _ cs(2)] v' cs None expect_None_append [OF ne None, of t]
        expect_append [OF cs(1), of t] by (simp add: parse_elems_eq [of d "s @ t"])
  qed
next
  case (3 d s)
  from 3(3) obtain k a where k: "scan_key s = Some (k, a)"
    by (subst (asm) parse_members_eq) (auto split: option.splits)
  from 3(3) k obtain v r1 where v: "parse_value d a = Some (v, r1)"
    by (subst (asm) parse_members_eq) (auto split: option.splits)
  have ne: "skip_space r1 \<noteq> []"
    using 3(3) by (subst (asm) parse_members_eq) (auto simp: k v split: option.splits dest: expect_nonempty)
  then have "r1 \<noteq> []" by (auto simp: skip_space_def)
  then have v': "parse_value d (a @ t) = Some (v, r1 @ t)" using 3(1) [OF k refl v] by simp
  note text' = value_text_append [OF parse_value_nonempty [OF v], of t r1]
  show ?case
  proof (cases "expect (CHR ''}'') r1")
    case (Some rest)
    then show ?thesis
      using 3(3) k v v' text' scan_key_append [OF k, of t] expect_append [OF Some, of t]
      by (simp add: parse_members_eq [of d s] parse_members_eq [of d "s @ t"])
  next
    case None
    then obtain cs ms' where cs: "expect (CHR '','') r1 = Some cs" "parse_members d cs = Some (ms', r)"
      "ms = (k, v, value_text a r1) # ms'"
      using 3(3) k v by (auto simp: parse_members_eq [of d s] split: option.splits)
    have "length cs < length s"
      using expect_shorter [OF cs(1)] parse_shorter(1) [OF v] scan_key_shorter [OF k] by simp
    then show ?thesis
      using 3(2) [OF k refl v refl refl None cs(1) _ cs(2)] v' cs None text' scan_key_append [OF k, of t]
        expect_None_append [OF ne None, of t] expect_append [OF cs(1), of t]
      by (simp add: parse_members_eq [of d "s @ t"])
  qed
qed

end
