(* ===== verification/Go_JSON_Print.thy ===== *)
theory Go_JSON_Print
  imports Go_JSON_Facts
begin

text \<open>
  How a client writes strings, integers and objects in JSON, and that the decoder reads them
  back.
\<close>

section \<open>Strings\<close>

definition escape_char :: "char \<Rightarrow> string" where
  "escape_char c =
    (if c = CHR 0x22 \<or> c = CHR 0x5C then [CHR 0x5C, c]
     else if byte c < 32
     then [CHR 0x5C, CHR ''u'', CHR ''0'', CHR ''0'', hex_digit (byte c div 16), hex_digit (byte c mod 16)]
     else [c])"

definition escape :: "string \<Rightarrow> string" where
  "escape s = concat (map escape_char s)"

definition print_string :: "string \<Rightarrow> string" where
  "print_string s = [CHR 0x22] @ escape s @ [CHR 0x22]"

function utf8_valid :: "string \<Rightarrow> bool" where
  "utf8_valid [] \<longleftrightarrow> True"
| "utf8_valid (c # cs) \<longleftrightarrow>
    (if byte c < 128 then utf8_valid cs
     else rune_len (c # cs) \<noteq> 0 \<and> utf8_valid (drop (rune_len (c # cs) - 1) cs))"
  by pat_completeness auto
termination by (relation "measure length") auto

lemma escape_simps [simp]: "escape [] = []" "escape (c # cs) = escape_char c @ escape cs"
  by (simp_all add: escape_def)

lemma escape_append [simp]: "escape (s @ t) = escape s @ escape t"
  by (simp add: escape_def)

lemma byte_eq [simp]: "byte (CHR 0x22) = 34" "byte (CHR 0x5C) = 92"
  by (simp_all add: byte_def)

lemma hex_val_digit: "n < 16 \<Longrightarrow> hex_val (hex_digit n) = Some n"
  by (auto simp: hex_val_def hex_digit_def byte_def Let_def)

lemma getu4_control:
  assumes "byte c < 32"
  shows "getu4 (escape_char c @ t) = Some (byte c)"
proof -
  have "c \<noteq> CHR 0x22" "c \<noteq> CHR 0x5C" using assms by auto
  moreover have "hex_val (CHR ''0'') = Some 0" by (simp add: hex_val_def byte_def)
  ultimately show ?thesis using assms by (simp add: escape_char_def getu4_def hex_val_digit)
qed

lemma simple_escape_quote: "simple_escape (CHR 0x22) = Some (CHR 0x22)" "simple_escape (CHR 0x5C) = Some (CHR 0x5C)"
  "simple_escape (CHR ''u'') = None"
  by (simp_all add: simple_escape_def)

lemma scan_string_escape: "scan_string (escape s @ CHR 0x22 # r) = Some (escape s, r)"
proof (induction s)
  case (Cons c cs)
  consider (quoted) "c = CHR 0x22 \<or> c = CHR 0x5C" | (control) "c \<noteq> CHR 0x22" "c \<noteq> CHR 0x5C" "byte c < 32"
    | (plain) "c \<noteq> CHR 0x22" "c \<noteq> CHR 0x5C" "\<not> byte c < 32" by blast
  then show ?case
  proof cases
    case quoted
    then show ?thesis using Cons by (auto simp: escape_char_def simple_escape_quote)
  next
    case control
    then have "getu4 (escape_char c @ escape cs @ CHR 0x22 # r) \<noteq> None" by (simp add: getu4_control)
    then show ?thesis using Cons control by (simp add: escape_char_def simple_escape_quote)
  next
    case plain
    then show ?thesis using Cons by (simp add: escape_char_def)
  qed
qed simp

lemma char_of_byte: "char_of (byte c) = c"
  by (simp add: byte_def)

text \<open>A multi-byte character has no byte that is escaped.\<close>

lemma rune_len_high:
  assumes "rune_len s \<noteq> 0"
  shows "rune_len s \<le> length s" and "\<forall>c \<in> set (take (rune_len s) s). 128 \<le> byte c"
    and "rune_len (take (rune_len s) s @ t) = rune_len s"
proof -
  obtain c d cs where s: "s = c # d # cs"
    using assms by (auto simp: rune_len_def split: list.splits)
  define n where "n = rune_len s"
  have n: "n \<in> {2, 3, 4}" and len: "n - 2 \<le> length cs" and lead: "194 \<le> byte c"
    and snd: "second_ok (byte c) (byte d)" and rest: "list_all continues (take (n - 2) cs)"
    using assms by (auto simp: n_def rune_len_def s Let_def split: if_splits)
  have d: "128 \<le> byte d" using snd by (auto simp: second_ok_def split: if_splits)
  obtain m where m: "n = Suc (Suc m)" using n by auto
  show "rune_len s \<le> length s" using len m unfolding n_def [symmetric] by (simp add: s)
  show "\<forall>c \<in> set (take (rune_len s) s). 128 \<le> byte c"
    using lead d rest m unfolding n_def [symmetric] by (auto simp: s list_all_iff continues_def)
  define k where "k = (if 194 \<le> byte c \<and> byte c \<le> 223 then 2 else if 224 \<le> byte c \<and> byte c \<le> 239
      then 3 else if 240 \<le> byte c \<and> byte c \<le> 244 then 4 else 0 :: nat)"
  have rune: "rune_len (c # d # xs) = (if 0 < k \<and> second_ok (byte c) (byte d) \<and> k - 2 \<le> length xs
      \<and> list_all continues (take (k - 2) xs) then k else 0)" for xs
    unfolding k_def by (simp add: rune_len_def Let_def)
  have "k = n" using n_def [unfolded s rune] n by (auto split: if_splits)
  then have "rune_len (c # d # take m cs @ t) = rune_len (c # d # cs)"
    unfolding rune using m len rest by simp
  then show "rune_len (take (rune_len s) s @ t) = rune_len s"
    using m unfolding n_def [symmetric] by (simp add: s n_def)
qed

lemma escape_high: "\<forall>c \<in> set s. 128 \<le> byte c \<Longrightarrow> escape s = s"
proof (induction s)
  case (Cons c cs)
  then have "c \<noteq> CHR 0x22" "c \<noteq> CHR 0x5C" by auto
  then show ?case using Cons by (simp add: escape_char_def)
qed simp

lemma unquote_escape: "utf8_valid s \<Longrightarrow> unquote (escape s) = s"
proof (induction s rule: utf8_valid.induct)
  case (2 c cs)
  show ?case
  proof (cases "byte c < 128")
    case True
    then have IH: "unquote (escape cs) = cs" using 2 by simp
    consider (quoted) "c = CHR 0x22 \<or> c = CHR 0x5C" | (control) "c \<noteq> CHR 0x22" "c \<noteq> CHR 0x5C" "byte c < 32"
      | (plain) "c \<noteq> CHR 0x22" "c \<noteq> CHR 0x5C" "\<not> byte c < 32" by blast
    then show ?thesis
    proof cases
      case quoted
      then show ?thesis using IH
        by (auto simp: escape_char_def getu4_def simple_escape_quote split: list.splits)
    next
      case control
      then have "getu4 (escape_char c @ escape cs) = Some (byte c)" by (simp add: getu4_control)
      then show ?thesis using IH control True
        by (simp add: escape_char_def surrogate_def utf8_encode_def char_of_byte)
    next
      case plain
      then show ?thesis using IH True by (simp add: escape_char_def)
    qed
  next
    case False
    let ?n = "rune_len (c # cs)"
    have n: "?n \<noteq> 0" using "2.prems" False by simp
    then obtain m where m: "?n = Suc m" by (cases ?n) auto
    have IH: "unquote (escape (drop m cs)) = drop m cs" using 2(2) "2.prems" False n m by simp
    have high: "escape (take ?n (c # cs)) = take ?n (c # cs)"
      by (rule escape_high [OF rune_len_high(2) [OF n]])
    have split: "escape (c # cs) = (c # take m cs) @ escape (drop m cs)"
    proof -
      have "c # cs = take ?n (c # cs) @ drop m cs" using m by simp
      then have "escape (c # cs) = escape (take ?n (c # cs)) @ escape (drop m cs)" by (metis escape_append)
      then show ?thesis using high m by simp
    qed
    have len: "rune_len ((c # take m cs) @ escape (drop m cs)) = Suc m"
      using rune_len_high(3) [OF n, of "escape (drop m cs)"] m by simp
    have short: "m \<le> length cs" using rune_len_high(1) [OF n] m by simp
    have "unquote ((c # take m cs) @ escape (drop m cs)) = c # take m cs @ unquote (escape (drop m cs))"
      using len short False by (auto simp: unquote.simps(2) [of c "take m cs @ escape (drop m cs)"])
    then show ?thesis using split IH by simp
  qed
qed simp

lemma parse_string:
  assumes "utf8_valid s"
  shows "parse_value d (print_string s @ r) = Some (JStr s, r)"
proof -
  have "skip_space (print_string s @ r) = print_string s @ r"
    by (simp add: skip_space_def print_string_def json_space_def)
  then have "expect (CHR ''['') (print_string s @ r) = None" "expect (CHR ''{'') (print_string s @ r) = None"
    and skip: "skip_space (print_string s @ r) = CHR 0x22 # escape s @ CHR 0x22 # r"
    by (simp_all add: expect_def print_string_def)
  then show ?thesis
    by (simp add: parse_value.simps scan_atom_def scan_string_escape unquote_escape assms)
qed

section \<open>Integers\<close>

lemma show_nat_hd: "0 < n \<Longrightarrow> hd (show_nat n) \<noteq> CHR ''0''"
proof (induction n rule: show_nat.induct)
  case (1 n)
  show ?case
  proof (cases "n < 10")
    case True
    have "(of_char (digit n) :: nat) = 48 + n" using of_char_digit [OF True] .
    then have "digit n \<noteq> CHR ''0''" using 1 by auto
    then show ?thesis using True by (simp add: show_nat.simps [of n])
  next
    case False
    then show ?thesis using 1 by (subst show_nat.simps) (simp add: div_greater_zero_iff)
  qed
qed

lemma digits_then_show:
  assumes "r = [] \<or> \<not> is_digit (hd r)"
  shows "digits_then (show_nat n @ r) = Some (show_nat n, r)"
proof -
  have digits: "\<forall>c \<in> set (show_nat n). is_digit c" using show_nat_digits by blast
  then have "takeWhile is_digit (show_nat n @ r) = show_nat n @ takeWhile is_digit r"
    "dropWhile is_digit (show_nat n @ r) = dropWhile is_digit r"
    by (simp_all add: takeWhile_append2 dropWhile_append2)
  moreover have "takeWhile is_digit r = []" "dropWhile is_digit r = r" using assms by (cases r; auto)+
  ultimately show ?thesis by (simp add: digits_then_def)
qed

text \<open>What may follow a number in an object or an array, or at the end of a response.\<close>

definition ends_number :: "string \<Rightarrow> bool" where
  "ends_number r \<longleftrightarrow> r \<noteq> [] \<and> hd r \<in> {CHR '','', CHR ''}'', CHR '']'', CHR 0x0A}"

lemma ends_number_simps:
  assumes "ends_number r"
  shows "\<not> is_digit (hd r)" "scan_frac r = Some ([], r)" "scan_exp r = Some ([], r)"
  using assms by (auto simp: ends_number_def is_digit_def scan_frac_def scan_exp_def)

lemma show_nat_0: "show_nat 0 = ''0''"
  by (simp add: show_nat.simps digit_def char_of_def bit_0)

lemma scan_int_show:
  assumes "ends_number r"
  shows "scan_int (show_nat n @ r) = Some (show_nat n, r)"
proof (cases "n = 0")
  case True
  then show ?thesis by (simp add: scan_int_def show_nat_0)
next
  case False
  then obtain c cs where "show_nat n = c # cs" "c \<noteq> CHR ''0''"
    using show_nat_hd [of n] by (cases "show_nat n") auto
  then show ?thesis using digits_then_show [of r n] ends_number_simps(1) [OF assms] by (simp add: scan_int_def)
qed

lemma show_nat_first: obtains c cs where "show_nat n = c # cs" "is_digit c"
  using show_nat_digits [of _ n] by (cases "show_nat n") auto

lemma scan_number_Itoa:
  assumes "ends_number r"
  shows "scan_number (Itoa i @ r) = Some (Itoa i, r)"
proof -
  have "show_nat n \<noteq> [] \<and> hd (show_nat n) \<noteq> CHR ''-''" for n
  proof -
    obtain c cs where "show_nat n = c # cs" "is_digit c" by (rule show_nat_first)
    then show ?thesis by (auto simp: is_digit_def)
  qed
  then show ?thesis
    using scan_int_show [OF assms] ends_number_simps [OF assms]
    by (auto simp: scan_number_def Itoa_def)
qed

lemma parse_Itoa:
  assumes "ends_number r"
  shows "parse_value d (Itoa i @ r) = Some (JNum (Itoa i), r)"
proof -
  obtain c cs where "Itoa i = c # cs" "c = CHR ''-'' \<or> is_digit c"
    by (cases "i < 0"; rule show_nat_first [of "nat i"]) (auto simp: Itoa_def)
  moreover from this(2) have "\<not> json_space c" "c \<noteq> CHR ''['' \<and> c \<noteq> CHR ''{'' \<and> c \<noteq> CHR 0x22"
    by (auto simp: json_space_def is_digit_def)
  ultimately show ?thesis
    using scan_number_Itoa [OF assms, of i]
    by (simp add: parse_value.simps expect_def skip_space_def scan_atom_def)
qed

lemma digits_value_snoc: "digits_value (s @ [c]) = 10 * digits_value s + (of_char c - 48)"
  by (simp add: digits_value_def)

lemma digits_value_show: "digits_value (show_nat n) = int n"
proof (induction n rule: show_nat.induct)
  case (1 n)
  have d: "(of_char (digit k) :: int) = 48 + int k" if "k < 10" for k
    using of_char_digit [OF that] by (metis of_nat_add of_nat_numeral of_nat_of_char)
  show ?case
  proof (cases "n < 10")
    case True
    then show ?thesis using d [of n] digits_value_snoc [of "[]" "digit n"]
      by (simp add: show_nat.simps [of n] digits_value_def)
  next
    case False
    then have "digits_value (show_nat n) = 10 * int (n div 10) + int (n mod 10)"
      using 1 d [of "n mod 10"] by (subst show_nat.simps) (simp add: digits_value_snoc)
    also have "\<dots> = int (10 * (n div 10) + n mod 10)" by (simp only: of_nat_add of_nat_mult of_nat_numeral)
    also have "\<dots> = int n" by (metis mult_div_mod_eq)
    finally show ?thesis .
  qed
qed

lemma ParseInt_Itoa:
  assumes "- (2 ^ 63) \<le> i" and "i < 2 ^ 63"
  shows "ParseInt (Itoa i) = Some i"
proof -
  have digits: "list_all is_digit (show_nat n)" for n using show_nat_digits by (auto simp: list_all_iff)
  have sign: "hd (show_nat n) \<noteq> CHR ''-''" "hd (show_nat n) \<noteq> CHR ''+''" for n
  proof -
    obtain c cs where "show_nat n = c # cs" "is_digit c" by (rule show_nat_first)
    then show "hd (show_nat n) \<noteq> CHR ''-''" "hd (show_nat n) \<noteq> CHR ''+''" by (auto simp: is_digit_def)
  qed
  show ?thesis
    using assms digits sign by (auto simp: ParseInt_def Atoi_def Itoa_def digits_value_show Let_def)
qed

section \<open>Objects\<close>

definition print_member :: "string \<times> string \<Rightarrow> string" where
  "print_member m = print_string (fst m) @ '':'' @ snd m"

definition print_object :: "(string \<times> string) list \<Rightarrow> string" where
  "print_object ms = ''{'' @ Join (map print_member ms) '','' @ ''}''"

text \<open>A text that is read as a value, up to what may follow it.\<close>

definition reads :: "nat \<Rightarrow> string \<Rightarrow> json \<Rightarrow> bool" where
  "reads d lit v \<longleftrightarrow> lit \<noteq> [] \<and> \<not> json_space (hd lit)
    \<and> (\<forall>r. ends_number r \<longrightarrow> parse_value d (lit @ r) = Some (v, r))"

lemma skip_space_id: "s \<noteq> [] \<Longrightarrow> \<not> json_space (hd s) \<Longrightarrow> skip_space s = s"
  by (cases s) (auto simp: skip_space_def)

lemma expect_at: "\<not> json_space c \<Longrightarrow> expect c (c # r) = Some r"
  by (simp add: expect_def skip_space_def)

lemma expect_other: "\<not> json_space d \<Longrightarrow> d \<noteq> c \<Longrightarrow> expect c (d # r) = None"
  by (simp add: expect_def skip_space_def)

lemma reads_text: "reads d lit v \<Longrightarrow> value_text (lit @ r) r = lit"
  by (cases lit) (simp_all add: reads_def value_text_def skip_space_id)

lemma scan_key_print:
  assumes "utf8_valid k"
  shows "scan_key (print_string k @ CHR '':'' # r) = Some (k, r)"
  using assms
  by (simp add: scan_key_def print_string_def expect_at json_space_def scan_string_escape unquote_escape)

lemma parse_printed_members:
  assumes "ms \<noteq> []" and "\<And>k lit v. (k, lit, v) \<in> set ms \<Longrightarrow> utf8_valid k \<and> reads d lit v"
  shows "parse_members d (Join (map (\<lambda>(k, lit, v). print_member (k, lit)) ms) '','' @ CHR ''}'' # r) =
    Some (map (\<lambda>(k, lit, v). (k, v, lit)) ms, r)"
  using assms
proof (induction ms)
  case (Cons m ms)
  obtain k lit v where m: "m = (k, lit, v)" by (cases m)
  then have key: "utf8_valid k" and val: "reads d lit v" using Cons.prems(2) [of k lit v] by auto
  have close: "expect (CHR ''}'') (CHR '','' # r') = None" "expect (CHR '','') (CHR '','' # r') = Some r'"
    "expect (CHR ''}'') (CHR ''}'' # r') = Some r'" for r'
    by (simp_all add: expect_at expect_other json_space_def)
  have next_key: "scan_key (print_member (k, lit) @ r') = Some (k, lit @ r')" for r'
    using scan_key_print [OF key, of "lit @ r'"] by (simp add: print_member_def)
  have val_at: "parse_value d (lit @ c # r') = Some (v, c # r')" if "c = CHR '','' \<or> c = CHR ''}''" for c r'
    using val that by (auto simp: reads_def ends_number_def)
  show ?case
  proof (cases ms)
    case Nil
    have "parse_members d (print_member (k, lit) @ CHR ''}'' # r) = Some ([(k, v, lit)], r)"
      by (subst parse_members_eq) (simp add: next_key val_at close reads_text [OF val])
    then show ?thesis using Nil m by simp
  next
    case (Cons m' ms')
    let ?rest = "Join (map (\<lambda>(k, lit, v). print_member (k, lit)) ms) '','' @ CHR ''}'' # r"
    have IH: "parse_members d ?rest = Some (map (\<lambda>(k, lit, v). (k, v, lit)) ms, r)"
      by (rule Cons.IH) (use Cons Cons.prems(2) in auto)
    have "parse_members d (print_member (k, lit) @ CHR '','' # ?rest) =
        Some ((k, v, lit) # map (\<lambda>(k, lit, v). (k, v, lit)) ms, r)"
      by (subst parse_members_eq) (simp add: next_key val_at close reads_text [OF val] IH)
    then show ?thesis using Cons m by (cases m') simp
  qed
qed simp

lemma parse_printed_object:
  assumes "ms \<noteq> []" and "\<And>k lit v. (k, lit, v) \<in> set ms \<Longrightarrow> utf8_valid k \<and> reads d lit v"
  shows "parse_value (Suc d) (print_object (map (\<lambda>(k, lit, v). (k, lit)) ms) @ r) =
    Some (JObj (map (\<lambda>(k, lit, v). (k, v, lit)) ms), r)"
proof -
  let ?inner = "Join (map (\<lambda>(k, lit, v). print_member (k, lit)) ms) '','' @ CHR ''}'' # r"
  have lit: "print_object (map (\<lambda>(k, lit, v). (k, lit)) ms) @ r = CHR ''{'' # ?inner"
    by (simp add: print_object_def comp_def case_prod_unfold)
  obtain m ms' where ms: "ms = m # ms'" using assms(1) by (cases ms) auto
  have "\<exists>cs. ?inner = CHR 0x22 # cs"
    by (cases ms'; cases m) (simp_all add: ms print_member_def print_string_def)
  then have "expect (CHR ''}'') ?inner = None" by (auto simp: expect_other json_space_def)
  moreover have "expect (CHR ''['') (CHR ''{'' # ?inner) = None" "expect (CHR ''{'') (CHR ''{'' # ?inner) = Some ?inner"
    by (simp_all add: expect_at expect_other json_space_def)
  ultimately show ?thesis
    unfolding lit using parse_printed_members [OF assms] by (simp add: parse_value.simps)
qed

lemma reads_string: "utf8_valid s \<Longrightarrow> reads d (print_string s) (JStr s)"
  using parse_string [of s d] by (auto simp: reads_def print_string_def json_space_def)

lemma reads_Itoa: "reads d (Itoa i) (JNum (Itoa i))"
proof -
  obtain c cs where "show_nat (nat i) = c # cs" "is_digit c" by (rule show_nat_first)
  then have "Itoa i \<noteq> [] \<and> \<not> json_space (hd (Itoa i))"
    by (auto simp: Itoa_def json_space_def is_digit_def)
  then show ?thesis using parse_Itoa by (simp add: reads_def)
qed

end
