(* ===== verification/Api_Bodies.thy ===== *)
theory Api_Bodies
  imports Api_Facts Go_JSON_Print
begin

text \<open>
  What a client sends and what the handler gets: a submission written as a JSON object reads
  back as that submission, its payload as the very text that was sent.
\<close>

section \<open>Submissions\<close>

definition print_submission :: "taskSubmission \<Rightarrow> string" where
  "print_submission sub = print_object
    ([(''queue'', print_string (sub_queue sub)), (''handler'', print_string (sub_handler sub))]
     @ (case sub_payload sub of None \<Rightarrow> [] | Some p \<Rightarrow> [(''payload'', p)])
     @ [(''priority'', Itoa (sub_priority sub))]
     @ (case sub_run_at sub of None \<Rightarrow> [] | Some t \<Rightarrow> [(''run_at'', print_string t)])
     @ [(''max_attempts'', Itoa (sub_max_attempts sub))]
     @ (case sub_idempotency_key sub of None \<Rightarrow> [] | Some k \<Rightarrow> [(''idempotency_key'', print_string k)]))"

text \<open>
  What can be sent: texts in UTF-8, 64-bit integers, and for the payload the text of a JSON
  object that does not nest too deep.
\<close>

definition object_text :: "string \<Rightarrow> bool" where
  "object_text p \<longleftrightarrow> p \<noteq> [] \<and> hd p = CHR ''{''
    \<and> (\<exists>ms. parse_value (maxNestingDepth - 1) p = Some (JObj ms, []))"

definition int64_range :: "int \<Rightarrow> bool" where
  "int64_range i \<longleftrightarrow> - (2 ^ 63) \<le> i \<and> i < 2 ^ 63"

definition sendable :: "taskSubmission \<Rightarrow> bool" where
  "sendable sub \<longleftrightarrow> utf8_valid (sub_queue sub) \<and> utf8_valid (sub_handler sub)
    \<and> pred_option utf8_valid (sub_run_at sub) \<and> pred_option utf8_valid (sub_idempotency_key sub)
    \<and> int64_range (sub_priority sub) \<and> int64_range (sub_max_attempts sub)
    \<and> pred_option object_text (sub_payload sub)"

lemma reads_object: "object_text p \<Longrightarrow> \<exists>ms. reads (maxNestingDepth - 1) p (JObj ms)"
  using parse_append(1) [of "maxNestingDepth - 1" p _ "[]"]
  by (fastforce simp: object_text_def reads_def json_space_def number_def)

text \<open>The members of a submission with the values they are read as.\<close>

definition submission_members :: "(string \<times> json \<times> string) list \<Rightarrow> taskSubmission \<Rightarrow> (string \<times> string \<times> json) list" where
  "submission_members obj sub =
    [(''queue'', print_string (sub_queue sub), JStr (sub_queue sub)),
     (''handler'', print_string (sub_handler sub), JStr (sub_handler sub))]
    @ (case sub_payload sub of None \<Rightarrow> [] | Some p \<Rightarrow> [(''payload'', p, JObj obj)])
    @ [(''priority'', Itoa (sub_priority sub), JNum (Itoa (sub_priority sub)))]
    @ (case sub_run_at sub of None \<Rightarrow> [] | Some t \<Rightarrow> [(''run_at'', print_string t, JStr t)])
    @ [(''max_attempts'', Itoa (sub_max_attempts sub), JNum (Itoa (sub_max_attempts sub)))]
    @ (case sub_idempotency_key sub of None \<Rightarrow> [] | Some k \<Rightarrow> [(''idempotency_key'', print_string k, JStr k)])"

lemma print_submission_members:
  "print_submission sub = print_object (map (\<lambda>(k, lit, v). (k, lit)) (submission_members obj sub))"
  by (simp add: print_submission_def submission_members_def split: option.splits)

lemma field_names_valid:
  "utf8_valid ''queue'' \<and> utf8_valid ''handler'' \<and> utf8_valid ''payload'' \<and> utf8_valid ''priority''
    \<and> utf8_valid ''run_at'' \<and> utf8_valid ''max_attempts'' \<and> utf8_valid ''idempotency_key''"
  by (simp add: byte_def)

lemma submission_members_read:
  assumes "sendable sub"
    and "\<And>p. sub_payload sub = Some p \<Longrightarrow> reads (maxNestingDepth - 1) p (JObj obj)"
    and "(k, lit, v) \<in> set (submission_members obj sub)"
  shows "utf8_valid k \<and> reads (maxNestingDepth - 1) lit v"
  using assms field_names_valid
  by (cases "sub_payload sub"; cases "sub_run_at sub"; cases "sub_idempotency_key sub")
    (auto simp: submission_members_def sendable_def reads_Itoa reads_string simp del: utf8_valid.simps(2))

lemma decode_submission_members:
  assumes "sendable sub"
  shows "decode_task (JObj (map (\<lambda>(k, lit, v). (k, v, lit)) (submission_members obj sub))) = Some sub"
proof -
  have ints: "ParseInt (Itoa (sub_priority sub)) = Some (sub_priority sub)"
    "ParseInt (Itoa (sub_max_attempts sub)) = Some (sub_max_attempts sub)"
    using assms by (simp_all add: sendable_def int64_range_def ParseInt_Itoa)
  have names: "field_for task_fields ''queue'' = Some ''queue''" "field_for task_fields ''handler'' = Some ''handler''"
    "field_for task_fields ''payload'' = Some ''payload''" "field_for task_fields ''priority'' = Some ''priority''"
    "field_for task_fields ''run_at'' = Some ''run_at''" "field_for task_fields ''max_attempts'' = Some ''max_attempts''"
    "field_for task_fields ''idempotency_key'' = Some ''idempotency_key''"
    by (simp_all add: field_for_def task_fields_def)
  show ?thesis
    using ints
    by (cases "sub_payload sub"; cases "sub_run_at sub"; cases "sub_idempotency_key sub")
      (simp_all add: decode_task_def decode_struct_def submission_members_def names set_task_field_def decode_string_def decode_int_def decode_pointer_def
        zero_submission_def)
qed

lemma decode_printed:
  assumes "sendable sub" and "length (print_submission sub) \<le> nat (MaxBodyBytes cfg)"
  shows "decode_body cfg words decode_task (print_submission sub) = Inr sub"
proof -
  have "\<exists>obj. \<forall>p. sub_payload sub = Some p \<longrightarrow> reads (maxNestingDepth - 1) p (JObj obj)"
    using assms(1) reads_object by (cases "sub_payload sub") (auto simp: sendable_def)
  then obtain obj where obj: "\<And>p. sub_payload sub = Some p \<Longrightarrow> reads (maxNestingDepth - 1) p (JObj obj)"
    by blast
  have depth: "Suc (maxNestingDepth - 1) = maxNestingDepth" by (simp add: maxNestingDepth_def)
  have "submission_members obj sub \<noteq> []" by (simp add: submission_members_def)
  from parse_printed_object [OF this submission_members_read [OF assms(1) obj], of "[]"]
  have "parse_value maxNestingDepth (print_submission sub) =
      Some (JObj (map (\<lambda>(k, lit, v). (k, v, lit)) (submission_members obj sub)), [])"
    unfolding depth print_submission_members [of sub obj] by simp
  then show ?thesis
    using assms(2) decode_submission_members [OF assms(1)]
    by (simp add: decode_body_def maxBodyBytes_def read_value_def)
qed

lemma sample_sendable:
  "sendable sample_submission"
  "length (print_submission sample_submission) \<le> nat (MaxBodyBytes (srv_cfg sample_env))"
proof -
  have "skip_space ''{}'' = ''{}''" "skip_space ''}'' = ''}''"
    by (simp_all add: skip_space_def json_space_def)
  then have "parse_value (maxNestingDepth - 1) ''{}'' = Some (JObj [], [])"
    by (simp add: parse_value.simps expect_def maxNestingDepth_def)
  then show "sendable sample_submission"
    by (simp add: sendable_def sample_submission_def object_text_def int64_range_def byte_def)
  have "length (print_submission sample_submission) \<le> 100" by code_simp
  then show "length (print_submission sample_submission) \<le> nat (MaxBodyBytes (srv_cfg sample_env))"
    by (simp add: sample_env_def server_DefaultConfig_def)
qed



end
