(* ===== verification/Go_JSON_Marshal.thy ===== *)
theory Go_JSON_Marshal
  imports Go_JSON_Print Go_RFC3339
begin

text \<open>
  The part of encoding/json that the program encodes with: strings with the characters HTML
  gives a meaning escaped, a json.RawMessage with its space taken out, times, structs whose
  omitempty fields may be absent, slices and maps. What cannot be encoded is None. For each
  there is what a decoder reads of it.
\<close>

section \<open>Strings\<close>

text \<open>Line and paragraph separator, U+2028 and U+2029, as their bytes.\<close>

definition js_separator :: "string \<Rightarrow> bool" where
  "js_separator s \<longleftrightarrow> prefix_of [CHR 0xE2, CHR 0x80, CHR 0xA8] s \<or> prefix_of [CHR 0xE2, CHR 0x80, CHR 0xA9] s"

definition html_char :: "char \<Rightarrow> bool" where
  "html_char c \<longleftrightarrow> c \<in> {CHR ''<'', CHR ''>'', CHR ''&''}"

text \<open>Escapes with four hexadecimal digits: of a byte, of a separator by its last byte.\<close>

definition byte_escape :: "char \<Rightarrow> string" where
  "byte_escape c =
    [CHR 0x5C, CHR ''u'', CHR ''0'', CHR ''0'', hex_digit (byte c div 16), hex_digit (byte c mod 16)]"

definition separator_escape :: "char \<Rightarrow> string" where
  "separator_escape c = [CHR 0x5C, CHR ''u'', CHR ''2'', CHR ''0'', CHR ''2'', hex_digit (byte c mod 16)]"

definition replacement_escape :: string where
  "replacement_escape = CHR 0x5C # ''ufffd''"

definition ascii_text :: "char \<Rightarrow> string" where
  "ascii_text c =
    (if c = CHR 0x22 \<or> c = CHR 0x5C then [CHR 0x5C, c]
     else if c = CHR 0x08 then CHR 0x5C # ''b''
     else if c = CHR 0x0C then CHR 0x5C # ''f''
     else if c = CHR 0x0A then CHR 0x5C # ''n''
     else if c = CHR 0x0D then CHR 0x5C # ''r''
     else if c = CHR 0x09 then CHR 0x5C # ''t''
     else if byte c < 32 \<or> html_char c then byte_escape c
     else [c])"

function appendString :: "string \<Rightarrow> string" where
  "appendString [] = []"
| "appendString (c # cs) =
    (if byte c < 128 then ascii_text c @ appendString cs
     else if rune_len (c # cs) = 0 then replacement_escape @ appendString cs
     else if js_separator (c # cs) then separator_escape (cs ! 1) @ appendString (drop 2 cs)
     else take (rune_len (c # cs)) (c # cs) @ appendString (drop (rune_len (c # cs) - 1) cs))"
  by pat_completeness auto
termination by (relation "measure length") auto

definition marshal_string :: "string \<Rightarrow> string" where
  "marshal_string s = [CHR 0x22] @ appendString s @ [CHR 0x22]"

text \<open>The text a decoder gets: bytes that are not UTF-8 are replaced.\<close>

function repaired :: "string \<Rightarrow> string" where
  "repaired [] = []"
| "repaired (c # cs) =
    (if byte c < 128 then c # repaired cs
     else if rune_len (c # cs) = 0 then replacement @ repaired cs
     else take (rune_len (c # cs)) (c # cs) @ repaired (drop (rune_len (c # cs) - 1) cs))"
  by pat_completeness auto
termination by (relation "measure length") auto

text \<open>A piece of a string literal that stands for v whatever follows it.\<close>

definition piece :: "string \<Rightarrow> string \<Rightarrow> bool" where
  "piece p v \<longleftrightarrow>
    (\<forall>r. scan_string (p @ r) = map_option (\<lambda>(lit, rest). (p @ lit, rest)) (scan_string r))
    \<and> (\<forall>r. unquote (p @ r) = v @ unquote r)"

lemma piece_append: "piece p v \<Longrightarrow> piece q w \<Longrightarrow> piece (p @ q) (v @ w)"
  by (auto simp: piece_def option.map_comp comp_def case_prod_unfold)

lemma piece_Nil: "piece [] []"
  by (auto simp: piece_def case_prod_unfold option.map_ident)

lemma piece_scan: "piece p v \<Longrightarrow> scan_string (p @ CHR 0x22 # r) = Some (p, r)"
  by (simp add: piece_def)

lemma piece_unquote: "piece p v \<Longrightarrow> unquote p = v"
  unfolding piece_def by (metis append.right_neutral unquote.simps(1))

lemma piece_plain: "32 \<le> byte c \<Longrightarrow> byte c < 128 \<Longrightarrow> c \<noteq> CHR 0x22 \<Longrightarrow> c \<noteq> CHR 0x5C \<Longrightarrow> piece [c] [c]"
  by (auto simp: piece_def)

lemma piece_simple:
  assumes "simple_escape e = Some c"
  shows "piece [CHR 0x5C, e] [c]"
proof -
  have "e \<noteq> CHR ''u''" using assms by (auto simp: simple_escape_quote)
  then have "getu4 (CHR 0x5C # e # r) = None" for r by (auto simp: getu4_def split: list.splits)
  then show ?thesis using assms by (auto simp: piece_def)
qed

lemma piece_unicode:
  assumes "getu4 p = Some n" and "\<not> surrogate n" and "length p = 6"
  shows "piece p (utf8_encode n)"
proof -
  obtain b u h1 h2 h3 h4 where p: "p = [b, u, h1, h2, h3, h4]"
    using assms(3) by (auto simp: length_Suc_conv eval_nat_numeral)
  have bu: "b = CHR 0x5C" "u = CHR ''u''" using assms(1) by (auto simp: p getu4_def split: if_splits)
  have u: "getu4 (p @ r) = Some n" for r using assms(1) getu4_append [of p r] by simp
  show ?thesis
    using u assms(2) simple_escape_quote(3) unfolding p bu piece_def by simp
qed


lemma hex_val_zero: "hex_val (CHR ''0'') = Some 0" "hex_val (CHR ''2'') = Some 2"
  by (simp_all add: hex_val_def byte_def)

lemma piece_byte_escape:
  assumes "byte c < 128"
  shows "piece (byte_escape c) [c]"
proof -
  have "getu4 (byte_escape c) = Some (byte c)"
    using assms by (simp add: byte_escape_def getu4_def hex_val_digit hex_val_zero)
  moreover have "\<not> surrogate (byte c)" using assms by (simp add: surrogate_def)
  ultimately have "piece (byte_escape c) (utf8_encode (byte c))"
    by (rule piece_unicode) (simp add: byte_escape_def)
  then show ?thesis using assms by (simp add: utf8_encode_def char_of_byte)
qed

lemma piece_ascii:
  assumes "byte c < 128"
  shows "piece (ascii_text c) [c]"
proof -
  have "simple_escape (CHR ''b'') = Some (CHR 0x08)" "simple_escape (CHR ''f'') = Some (CHR 0x0C)"
    "simple_escape (CHR ''n'') = Some (CHR 0x0A)" "simple_escape (CHR ''r'') = Some (CHR 0x0D)"
    "simple_escape (CHR ''t'') = Some (CHR 0x09)"
    by (simp_all add: simple_escape_def)
  then show ?thesis
    using assms piece_byte_escape [OF assms] piece_plain [of c] simple_escape_quote
    by (auto simp: ascii_text_def intro!: piece_simple)
qed

lemma piece_replacement: "piece replacement_escape replacement"
proof -
  have "getu4 replacement_escape = Some 65533"
    by (simp add: replacement_escape_def getu4_def hex_val_def byte_def)
  then have "piece replacement_escape (utf8_encode 65533)"
    by (rule piece_unicode) (simp_all add: replacement_escape_def surrogate_def)
  then show ?thesis by (simp add: utf8_encode_def replacement_def char_of_def bit_0)
qed

lemma js_separatorE:
  assumes "js_separator s"
  obtains c cs where "s = CHR 0xE2 # CHR 0x80 # c # cs" "c = CHR 0xA8 \<or> c = CHR 0xA9"
proof -
  obtain a b c cs where "s = a # b # c # cs"
    using assms by (cases s; cases "tl s"; cases "tl (tl s)") (auto simp: js_separator_def prefix_of_def)
  then show thesis using assms that by (auto simp: js_separator_def prefix_of_def)
qed

lemma piece_separator:
  assumes "c = CHR 0xA8 \<or> c = CHR 0xA9"
  shows "piece (separator_escape c) [CHR 0xE2, CHR 0x80, c]"
proof -
  have c: "hex_val (hex_digit (byte c mod 16)) = Some (byte c mod 16)" by (simp add: hex_val_digit)
  have "getu4 (separator_escape c) = Some (8224 + byte c mod 16)"
    using c by (simp add: separator_escape_def getu4_def hex_val_zero)
  moreover have "byte c mod 16 = 8 \<or> byte c mod 16 = 9" using assms by (auto simp: byte_def)
  ultimately have "piece (separator_escape c) (utf8_encode (8224 + byte c mod 16))"
    by (intro piece_unicode) (auto simp: separator_escape_def surrogate_def)
  then show ?thesis using assms by (auto simp: utf8_encode_def byte_def char_of_def bit_0)
qed

lemma piece_high:
  assumes "\<forall>c \<in> set p. 128 \<le> byte c"
  shows "scan_string (p @ r) = map_option (\<lambda>(lit, rest). (p @ lit, rest)) (scan_string r)"
  using assms
proof (induction p)
  case (Cons c p)
  then have "c \<noteq> CHR 0x22" "c \<noteq> CHR 0x5C" by auto
  then show ?case using Cons by (auto simp: option.map_comp comp_def case_prod_unfold)
qed (simp add: case_prod_unfold option.map_ident)

lemma piece_rune:
  assumes "rune_len s \<noteq> 0"
  shows "piece (take (rune_len s) s) (take (rune_len s) s)"
proof -
  define p where "p = take (rune_len s) s"
  have len: "length p = rune_len s" and high: "\<forall>c \<in> set p. 128 \<le> byte c"
    and rl: "rune_len (p @ r) = rune_len s" for r
    using rune_len_high [OF assms] by (simp_all add: p_def)
  obtain c q where p: "p = c # q" using len assms by (cases p) auto
  then have "\<not> byte c < 128" "c \<noteq> CHR 0x5C" using high by auto
  then have "unquote (p @ r) = p @ unquote r" for r
    using rl [of r] len [symmetric] assms p by (simp add: unquote.simps(2) [of c "q @ r"])
  then show ?thesis unfolding p_def [symmetric] using piece_high [OF high] by (simp add: piece_def)
qed

lemma rune_len_separator: "c = CHR 0xA8 \<or> c = CHR 0xA9 \<Longrightarrow> rune_len (CHR 0xE2 # CHR 0x80 # c # cs) = 3"
  by (auto simp: rune_len_def byte_def second_ok_def continues_def)

lemma piece_appendString: "piece (appendString s) (repaired s)"
proof (induction s rule: appendString.induct)
  case (2 c cs)
  consider (ascii) "byte c < 128" | (bad) "\<not> byte c < 128" "rune_len (c # cs) = 0"
    | (sep) "\<not> byte c < 128" "rune_len (c # cs) \<noteq> 0" "js_separator (c # cs)"
    | (rune) "\<not> byte c < 128" "rune_len (c # cs) \<noteq> 0" "\<not> js_separator (c # cs)" by blast
  then show ?case
  proof cases
    case ascii
    then show ?thesis using piece_append [OF piece_ascii 2(1)] by simp
  next
    case bad
    then show ?thesis using piece_append [OF piece_replacement 2(2)] by simp
  next
    case sep
    from sep(3) obtain e es where e: "c # cs = CHR 0xE2 # CHR 0x80 # e # es" "e = CHR 0xA8 \<or> e = CHR 0xA9"
      by (rule js_separatorE)
    then show ?thesis
      using sep 2(3) piece_append [OF piece_separator [OF e(2)], of "appendString es" "repaired es"]
        rune_len_separator [OF e(2), of es] by simp
  next
    case rune
    then show ?thesis using piece_append [OF piece_rune [OF rune(2)] 2(4)] by simp
  qed
qed (simp add: piece_Nil)

lemma repaired_valid: "utf8_valid s \<Longrightarrow> repaired s = s"
proof (induction s rule: repaired.induct)
  case (2 c cs)
  show ?case
  proof (cases "byte c < 128")
    case False
    then have "rune_len (c # cs) \<noteq> 0" using "2.prems" by simp
    then obtain m where "rune_len (c # cs) = Suc m" by (cases "rune_len (c # cs)") auto
    then show ?thesis using 2 False by simp
  qed (use 2 in simp)
qed simp

text \<open>Any string is encoded, and read back as itself with what is not UTF-8 replaced.\<close>

lemma reads_marshal_string: "reads d (marshal_string s) (JStr (repaired s))"
proof -
  have "parse_value d (CHR 0x22 # appendString s @ CHR 0x22 # r) = Some (JStr (repaired s), r)" for r
    using piece_scan [OF piece_appendString, of s r] piece_unquote [OF piece_appendString, of s]
    by (simp add: parse_value.simps scan_atom_def expect_def skip_space_def json_space_def)
  then show ?thesis by (simp add: reads_def marshal_string_def json_space_def)
qed

end
