(* ===== verification/Go_JSON_Compact.thy ===== *)
theory Go_JSON_Compact
  imports Go_JSON_Marshal
begin

text \<open>
  How encoding/json writes a json.RawMessage: appendCompact, which checks the text with the
  scanner, takes the space between tokens out and escapes what HTML gives a meaning. What it
  writes is read as the same data.
\<close>

section \<open>appendCompact\<close>

text \<open>The flag says whether the text before was the inside of a string.\<close>

function compacted :: "bool \<Rightarrow> string \<Rightarrow> string" where
  "compacted quoted [] = []"
| "compacted quoted (c # cs) =
    (if html_char c then byte_escape c @ compacted quoted cs
     else if js_separator (c # cs) then separator_escape (cs ! 1) @ compacted quoted (drop 2 cs)
     else if quoted
     then (if c = CHR 0x5C then c # take 1 cs @ compacted True (drop 1 cs)
           else c # compacted (c \<noteq> CHR 0x22) cs)
     else if json_space c then compacted False cs
     else c # compacted (c = CHR 0x22) cs)"
  by pat_completeness auto
termination by (relation "measure (length \<circ> snd)") auto

text \<open>A nil message is null; one that is not JSON is an error.\<close>

definition marshal_raw :: "string option \<Rightarrow> string option" where
  "marshal_raw m =
    (case m of None \<Rightarrow> Some ''null''
     | Some raw \<Rightarrow> map_option (\<lambda>_. compacted False raw) (unmarshal_value raw))"

section \<open>Inside a string\<close>

text \<open>The literals that scan_string returns.\<close>

function literal_ok :: "string \<Rightarrow> bool" where
  "literal_ok [] \<longleftrightarrow> True"
| "literal_ok (c # cs) \<longleftrightarrow>
    (if c = CHR 0x5C
     then cs \<noteq> [] \<and> (if simple_escape (hd cs) \<noteq> None then literal_ok (tl cs)
                     else getu4 (c # cs) \<noteq> None \<and> literal_ok (drop 5 cs))
     else c \<noteq> CHR 0x22 \<and> 32 \<le> byte c \<and> literal_ok cs)"
  by pat_completeness auto
termination by (relation "measure length") auto

function escaped :: "string \<Rightarrow> string" where
  "escaped [] = []"
| "escaped (c # cs) =
    (if html_char c then byte_escape c @ escaped cs
     else if js_separator (c # cs) then separator_escape (cs ! 1) @ escaped (drop 2 cs)
     else if c = CHR 0x5C then c # take 1 cs @ escaped (drop 1 cs)
     else c # escaped cs)"
  by pat_completeness auto
termination by (relation "measure length") auto

declare escaped.simps(2) [simp del] literal_ok.simps(2) [simp del] compacted.simps(2) [simp del]

lemma getu4_form:
  assumes "getu4 (c # cs) = Some n"
  obtains h1 h2 h3 h4 ds where "c = CHR 0x5C" "cs = CHR ''u'' # h1 # h2 # h3 # h4 # ds"
    "\<forall>h \<in> {h1, h2, h3, h4}. hex_val h \<noteq> None"
  using assms by (auto simp: getu4_def split: list.splits if_splits option.splits)

lemma not_separator: "c \<noteq> CHR 0xE2 \<Longrightarrow> \<not> js_separator (c # cs)"
  by (auto elim: js_separatorE)

lemma separator_at_quote:
  assumes "c \<noteq> CHR 0x22"
  shows "js_separator (c # cs @ CHR 0x22 # r) = js_separator (c # cs)"
  by (cases cs; cases "tl cs") (auto simp: js_separator_def prefix_of_def)

lemma hex_plain:
  assumes "hex_val h \<noteq> None"
  shows "escaped (h # s) = h # escaped s" and "literal_ok (h # s) = literal_ok s"
    and "compacted True (h # s) = h # compacted True s"
proof -
  have h: "h \<noteq> CHR 0x22" "h \<noteq> CHR 0x5C" "\<not> html_char h" "h \<noteq> CHR 0xE2" "32 \<le> byte h"
    using assms by (auto simp: hex_val_def html_char_def byte_def Let_def split: if_splits)
  then show "escaped (h # s) = h # escaped s" "literal_ok (h # s) = literal_ok s"
    "compacted True (h # s) = h # compacted True s"
    by (simp_all add: escaped.simps literal_ok.simps compacted.simps not_separator)
qed

lemma scan_string_literal:
  "scan_string s = Some (lit, r) \<Longrightarrow> s = lit @ CHR 0x22 # r \<and> literal_ok lit"
proof (induction s arbitrary: lit r rule: scan_string.induct)
  case (2 c cs)
  show ?case
  proof (cases "c = CHR 0x5C")
    case c: True
    then obtain e ds where cs: "cs = e # ds" using "2.prems" by (cases cs) auto
    show ?thesis
    proof (cases "simple_escape e = None")
      case True
      then obtain n where u: "getu4 (c # cs) = Some n" using "2.prems" c cs by (auto split: if_splits)
      then obtain h1 h2 h3 h4 es where form: "cs = CHR ''u'' # h1 # h2 # h3 # h4 # es" by (rule getu4_form)
      then have tail: "drop 4 ds = es" using cs by auto
      obtain l where l: "scan_string es = Some (l, r)" "lit = c # take 5 cs @ l"
        using "2.prems" True c cs u form by (auto split: if_splits)
      have "es = l @ CHR 0x22 # r \<and> literal_ok l"
        using "2.IH"(2) [of l r] True c cs u tail l(1) by simp
      moreover have "getu4 (c # take 5 cs @ l) \<noteq> None" using u by (auto simp: form getu4_def)
      ultimately show ?thesis using True c l(2) form cs by (simp add: literal_ok.simps)
    next
      case False
      then obtain l where l: "scan_string ds = Some (l, r)" "lit = c # e # l"
        using "2.prems" c cs by (auto split: if_splits)
      then have "ds = l @ CHR 0x22 # r \<and> literal_ok l"
        using "2.IH"(1) [of l r] False c cs by simp
      then show ?thesis using False c cs l(2) by (simp add: literal_ok.simps)
    qed
  next
    case False
    then show ?thesis using 2 by (auto simp: literal_ok.simps split: if_splits)
  qed
qed simp

lemma scan_literal_ok: "literal_ok lit \<Longrightarrow> scan_string (lit @ CHR 0x22 # r) = Some (lit, r)"
proof (induction lit rule: literal_ok.induct)
  case (2 c cs)
  show ?case
  proof (cases "c = CHR 0x5C")
    case c: True
    then obtain e ds where cs: "cs = e # ds" using "2.prems" by (cases cs) (auto simp: literal_ok.simps)
    show ?thesis
    proof (cases "simple_escape e = None")
      case True
      then obtain n where u: "getu4 (c # cs) = Some n" using "2.prems" c cs by (auto simp: literal_ok.simps split: if_splits)
      then obtain h1 h2 h3 h4 es where form: "cs = CHR ''u'' # h1 # h2 # h3 # h4 # es" by (rule getu4_form)
      then have tail: "drop 4 ds = es" using cs by auto
      have "scan_string (es @ CHR 0x22 # r) = Some (es, r)"
        using "2.IH"(2) "2.prems" True c cs u tail by (simp add: literal_ok.simps)
      moreover have "getu4 (c # cs @ CHR 0x22 # r) \<noteq> None" using u by (auto simp: form getu4_def)
      ultimately show ?thesis using True c form cs by simp
    next
      case False
      then show ?thesis using "2.IH"(1) "2.prems" c cs by (simp add: literal_ok.simps)
    qed
  next
    case False
    then show ?thesis using 2 by (auto simp: literal_ok.simps)
  qed
qed simp


text \<open>What a literal starts with, and induction over it element by element.\<close>

lemma literal_cases [consumes 1, case_names Nil html separator simple unicode plain]:
  assumes "literal_ok lit"
  obtains "lit = []"
  | c cs where "lit = c # cs" "html_char c" "literal_ok cs"
  | c cs where "lit = CHR 0xE2 # CHR 0x80 # c # cs" "c = CHR 0xA8 \<or> c = CHR 0xA9" "literal_ok cs"
  | e cs where "lit = CHR 0x5C # e # cs" "simple_escape e \<noteq> None" "literal_ok cs"
  | h1 h2 h3 h4 cs where "lit = CHR 0x5C # CHR ''u'' # h1 # h2 # h3 # h4 # cs"
      "\<forall>h \<in> {h1, h2, h3, h4}. hex_val h \<noteq> None" "literal_ok cs"
  | c cs where "lit = c # cs" "\<not> html_char c" "\<not> js_separator (c # cs)" "c \<noteq> CHR 0x5C"
      "c \<noteq> CHR 0x22" "32 \<le> byte c" "literal_ok cs"
proof (cases lit)
  case (Cons c cs)
  consider (html) "html_char c" | (sep) "js_separator (c # cs)"
    | (esc) "c = CHR 0x5C" | (plain) "\<not> html_char c" "\<not> js_separator (c # cs)" "c \<noteq> CHR 0x5C" by blast
  then show ?thesis
  proof cases
    case html
    then have "literal_ok cs" using assms Cons by (auto simp: literal_ok.simps html_char_def)
    then show ?thesis using that(2) Cons html by blast
  next
    case sep
    then obtain e es where e: "c # cs = CHR 0xE2 # CHR 0x80 # e # es" "e = CHR 0xA8 \<or> e = CHR 0xA9"
      by (rule js_separatorE)
    then have "literal_ok es" using assms Cons by (auto simp: literal_ok.simps)
    then show ?thesis using that(3) e Cons by simp
  next
    case esc
    then obtain e ds where cs: "cs = e # ds" using assms Cons by (cases cs) (auto simp: literal_ok.simps)
    show ?thesis
    proof (cases "simple_escape e = None")
      case True
      then obtain n where "getu4 (c # cs) = Some n" using assms Cons cs esc by (auto simp: literal_ok.simps)
      then obtain h1 h2 h3 h4 es where form: "cs = CHR ''u'' # h1 # h2 # h3 # h4 # es"
        "\<forall>h \<in> {h1, h2, h3, h4}. hex_val h \<noteq> None" by (rule getu4_form)
      then have "literal_ok es" using assms Cons esc simple_escape_quote(3) by (auto simp: literal_ok.simps)
      then show ?thesis using that(5) [OF _ form(2)] form(1) Cons esc by simp
    next
      case False
      then have "literal_ok ds" using assms Cons cs esc by (auto simp: literal_ok.simps)
      then show ?thesis using that(4) [OF _ False] Cons cs esc by simp
    qed
  next
    case plain
    then have "literal_ok cs" "c \<noteq> CHR 0x22" "32 \<le> byte c" using assms Cons by (auto simp: literal_ok.simps)
    then show ?thesis using that(6) plain Cons by blast
  qed
qed (rule that(1))

lemma literal_induct [consumes 1, case_names Nil html separator simple unicode plain]:
  assumes "literal_ok lit"
    and "P []"
    and "\<And>c cs. html_char c \<Longrightarrow> literal_ok cs \<Longrightarrow> P cs \<Longrightarrow> P (c # cs)"
    and "\<And>c cs. c = CHR 0xA8 \<or> c = CHR 0xA9 \<Longrightarrow> literal_ok cs \<Longrightarrow> P cs \<Longrightarrow> P (CHR 0xE2 # CHR 0x80 # c # cs)"
    and "\<And>e cs. simple_escape e \<noteq> None \<Longrightarrow> literal_ok cs \<Longrightarrow> P cs \<Longrightarrow> P (CHR 0x5C # e # cs)"
    and "\<And>h1 h2 h3 h4 cs. \<forall>h \<in> {h1, h2, h3, h4}. hex_val h \<noteq> None \<Longrightarrow> literal_ok cs \<Longrightarrow> P cs
      \<Longrightarrow> P (CHR 0x5C # CHR ''u'' # h1 # h2 # h3 # h4 # cs)"
    and "\<And>c cs. \<not> html_char c \<Longrightarrow> \<not> js_separator (c # cs) \<Longrightarrow> c \<noteq> CHR 0x5C \<Longrightarrow> c \<noteq> CHR 0x22
      \<Longrightarrow> 32 \<le> byte c \<Longrightarrow> literal_ok cs \<Longrightarrow> P cs \<Longrightarrow> P (c # cs)"
  shows "P lit"
  using assms(1)
proof (induction "length lit" arbitrary: lit rule: less_induct)
  case less
  then have IH: "P cs" if "literal_ok cs" "length cs < length lit" for cs using that by blast
  from less(2) show ?case
    by (cases rule: literal_cases) (use IH assms(2-7) in \<open>force+\<close>)
qed

lemma escaped_steps:
  "html_char c \<Longrightarrow> escaped (c # s) = byte_escape c @ escaped s"
  "c = CHR 0xA8 \<or> c = CHR 0xA9 \<Longrightarrow> escaped (CHR 0xE2 # CHR 0x80 # c # s) = separator_escape c @ escaped s"
  "escaped (CHR 0x5C # e # s) = CHR 0x5C # e # escaped s"
  "\<not> html_char c \<Longrightarrow> \<not> js_separator (c # s) \<Longrightarrow> c \<noteq> CHR 0x5C \<Longrightarrow> escaped (c # s) = c # escaped s"
  by (auto simp: escaped.simps js_separator_def prefix_of_def html_char_def)

lemma escaped_unicode:
  assumes "\<forall>h \<in> {h1, h2, h3, h4}. hex_val h \<noteq> None"
  shows "escaped (CHR 0x5C # CHR ''u'' # h1 # h2 # h3 # h4 # s) = CHR 0x5C # CHR ''u'' # h1 # h2 # h3 # h4 # escaped s"
  using assms by (simp add: escaped_steps hex_plain)

lemma compacted_literal:
  "literal_ok lit \<Longrightarrow> compacted True (lit @ CHR 0x22 # s) = escaped lit @ CHR 0x22 # compacted False s"
proof (induction lit rule: literal_induct)
  case Nil
  then show ?case by (simp add: compacted.simps html_char_def not_separator)
next
  case (html c cs)
  then show ?case by (simp add: compacted.simps escaped_steps)
next
  case (separator c cs)
  then show ?case by (auto simp: compacted.simps escaped_steps js_separator_def prefix_of_def html_char_def)
next
  case (simple e cs)
  then show ?case by (simp add: compacted.simps(2) [of _ "CHR 0x5C"] escaped_steps html_char_def not_separator)
next
  case (unicode h1 h2 h3 h4 cs)
  then show ?case
    by (simp add: compacted.simps(2) [of _ "CHR 0x5C"] escaped_unicode hex_plain html_char_def not_separator)
next
  case (plain c cs)
  then show ?case by (simp add: compacted.simps escaped_steps separator_at_quote)
qed

lemma literal_ok_plain: "c \<noteq> CHR 0x5C \<Longrightarrow> c \<noteq> CHR 0x22 \<Longrightarrow> 32 \<le> byte c \<Longrightarrow> literal_ok (c # s) = literal_ok s"
  by (simp add: literal_ok.simps)

lemma literal_ok_unicode: "getu4 p \<noteq> None \<Longrightarrow> length p = 6 \<Longrightarrow> literal_ok (p @ s) = literal_ok s"
proof -
  assume u: "getu4 p \<noteq> None" and len: "length p = 6"
  obtain c q where p: "p = c # q" using len by (cases p) auto
  then obtain n where "getu4 (c # q) = Some n" using u by auto
  then obtain h1 h2 h3 h4 es where "c = CHR 0x5C" "q = CHR ''u'' # h1 # h2 # h3 # h4 # es" by (rule getu4_form)
  then show ?thesis using u len p simple_escape_quote(3) getu4_append [OF u, of s]
    by (simp add: literal_ok.simps(2) [of "CHR 0x5C"])
qed

lemma literal_ok_escaped: "literal_ok lit \<Longrightarrow> literal_ok (escaped lit)"
proof (induction lit rule: literal_induct)
  case (html c cs)
  then have "getu4 (byte_escape c) \<noteq> None"
    by (auto simp: html_char_def byte_escape_def getu4_def hex_val_digit hex_val_zero byte_def)
  then show ?case using html literal_ok_unicode [of "byte_escape c"] by (simp add: escaped_steps byte_escape_def)
next
  case (separator c cs)
  then have "getu4 (separator_escape c) \<noteq> None"
    by (auto simp: separator_escape_def getu4_def hex_val_digit hex_val_zero byte_def)
  then show ?case
    using separator literal_ok_unicode [of "separator_escape c"] by (simp add: escaped_steps separator_escape_def)
next
  case (simple e cs)
  then show ?case by (simp add: escaped_steps literal_ok.simps)
next
  case (unicode h1 h2 h3 h4 cs)
  then have "getu4 [CHR 0x5C, CHR ''u'', h1, h2, h3, h4] \<noteq> None" by (auto simp: getu4_def)
  then show ?case
    using unicode literal_ok_unicode [of "[CHR 0x5C, CHR ''u'', h1, h2, h3, h4]"] by (simp add: escaped_unicode)
next
  case (plain c cs)
  then show ?case by (simp add: escaped_steps literal_ok_plain)
qed simp


text \<open>
  What the decoder looks at ahead of an element: a second escape after a surrogate, the
  continuation bytes after a lead byte. Escaping changes neither.
\<close>

lemma getu4_other: "c \<noteq> CHR 0x5C \<Longrightarrow> getu4 (c # s) = None"
  by (auto simp: getu4_def split: list.splits)

lemma getu4_simple: "simple_escape e \<noteq> None \<Longrightarrow> getu4 (CHR 0x5C # e # s) = None"
  by (cases "e = CHR ''u''") (auto simp: simple_escape_quote getu4_def split: list.splits)

lemma getu4_byte_escape: "byte c < 128 \<Longrightarrow> getu4 (byte_escape c @ s) = Some (byte c)"
  by (simp add: byte_escape_def getu4_def hex_val_digit hex_val_zero)

lemma getu4_separator_escape:
  "getu4 (separator_escape c @ s) = Some (8224 + byte c mod 16)"
  by (simp add: separator_escape_def getu4_def hex_val_digit hex_val_zero)

lemma html_char_ascii: "html_char c \<Longrightarrow> byte c < 128 \<and> c \<noteq> CHR 0x5C"
  by (auto simp: html_char_def byte_def)

lemma pair_rune_none: "pair_rune hi None = None" "n < 56320 \<Longrightarrow> pair_rune hi (Some n) = None"
  by (simp_all add: pair_rune_def)

lemma pair_rune_escaped:
  "literal_ok s \<Longrightarrow> pair_rune hi (getu4 (escaped s)) = pair_rune hi (getu4 s)"
proof (induction s rule: literal_induct)
  case (html c cs)
  then have c: "byte c < 128" "c \<noteq> CHR 0x5C" using html_char_ascii by auto
  then show ?case using html by (simp add: escaped_steps getu4_byte_escape getu4_other pair_rune_none)
next
  case (separator c cs)
  have "byte c mod 16 < 16" by simp
  then have "8224 + byte c mod 16 < 56320" by linarith
  then show ?case using separator by (simp add: escaped_steps getu4_separator_escape getu4_other pair_rune_none)
next
  case (simple e cs)
  then show ?case by (simp add: escaped_steps getu4_simple)
next
  case (unicode h1 h2 h3 h4 cs)
  then show ?case by (simp add: escaped_unicode getu4_def)
next
  case (plain c cs)
  then show ?case by (simp add: escaped_steps getu4_other)
qed simp

lemma rune_len_none:
  assumes "takeWhile continues xs = takeWhile continues ys"
  shows "rune_len (c # xs) = 0 \<longleftrightarrow> rune_len (c # ys) = 0"
proof -
  have "rune_len (c # zs) = rune_len (c # takeWhile continues zs)" for zs
  proof (cases zs)
    case (Cons d ds)
    have cont: "continues d" if "second_ok l (byte d)" for l
      using that by (auto simp: second_ok_def continues_def split: if_splits)
    have all: "k \<le> length ds \<and> list_all continues (take k ds) \<longleftrightarrow>
        k \<le> length (takeWhile continues ds) \<and> list_all continues (take k (takeWhile continues ds))" for k
    proof (induction ds arbitrary: k)
      case (Cons x xs)
      then show ?case by (cases k) auto
    qed auto
    show ?thesis
    proof (cases "continues d")
      case True
      then show ?thesis using Cons all by (simp add: rune_len_def Let_def)
    next
      case False
      then show ?thesis using Cons cont by (auto simp: rune_len_def Let_def)
    qed
  qed (simp add: rune_len_def)
  then show ?thesis using assms by metis
qed

lemma continues_escaped: "literal_ok s \<Longrightarrow> takeWhile continues (escaped s) = takeWhile continues s"
proof (induction s rule: literal_induct)
  case (html c cs)
  then show ?case by (auto simp: escaped_steps byte_escape_def continues_def html_char_def byte_def)
next
  case (separator c cs)
  then show ?case by (simp add: escaped_steps separator_escape_def continues_def byte_def)
next
  case (simple e cs)
  then show ?case by (simp add: escaped_steps continues_def)
next
  case (unicode h1 h2 h3 h4 cs)
  then show ?case by (simp add: escaped_unicode continues_def)
next
  case (plain c cs)
  then show ?case by (simp add: escaped_steps)
qed simp

text \<open>A character of several bytes that is no separator is left as it is.\<close>

lemma escaped_rune:
  assumes "rune_len s \<noteq> 0" and "\<not> js_separator s"
  shows "escaped (take (rune_len s) s @ r) = take (rune_len s) s @ escaped r"
    and "literal_ok s \<Longrightarrow> literal_ok (drop (rune_len s) s)"
proof -
  obtain c d cs where s: "s = c # d # cs" using assms by (auto simp: rune_len_def split: list.splits)
  obtain m where m: "rune_len s = Suc (Suc m)" using assms(1) s by (auto simp: rune_len_def Let_def split: if_splits)
  have tail: "\<forall>x \<in> set (d # take m cs). continues x"
  proof -
    have "continues d" using assms(1) by (auto simp: s rune_len_def second_ok_def continues_def Let_def split: if_splits)
    moreover have "list_all continues (take m cs)"
      using assms(1) m by (auto simp: s rune_len_def Let_def split: if_splits)
    ultimately show ?thesis by (simp add: list_all_iff)
  qed
  have cont: "escaped (xs @ r) = xs @ escaped r \<and> literal_ok (xs @ r) = literal_ok r"
    if "\<forall>x \<in> set xs. continues x" for xs r
    using that
  proof (induction xs)
    case (Cons x xs)
    then have x: "128 \<le> byte x" "byte x \<le> 191" by (simp_all add: continues_def)
    then have x': "x \<noteq> CHR 0x5C" "x \<noteq> CHR 0x22" "x \<noteq> CHR 0xE2" "\<not> html_char x"
      by (auto simp: html_char_def byte_def)
    then show ?case using Cons x by (simp add: escaped_steps not_separator literal_ok_plain)
  qed simp
  have c: "194 \<le> byte c" using assms(1) by (auto simp: s rune_len_def Let_def split: if_splits)
  then have c': "c \<noteq> CHR 0x5C" "c \<noteq> CHR 0x22" "\<not> html_char c" by (auto simp: html_char_def byte_def)
  have sep: "\<not> js_separator (c # d # take m cs @ r)"
  proof
    assume "js_separator (c # d # take m cs @ r)"
    then obtain e es where e: "c = CHR 0xE2" "d = CHR 0x80" "take m cs @ r = e # es" "e = CHR 0xA8 \<or> e = CHR 0xA9"
      by (auto elim: js_separatorE)
    have "rune_len s = 3" using assms(1) e(1) by (auto simp: s rune_len_def byte_def Let_def split: if_splits)
    then have "m = 1" using m by simp
    then have "\<exists>es. cs = e # es"
      using e(3) rune_len_high(1) [OF assms(1)] m by (cases cs) (auto simp: s)
    then show False using assms(2) e by (auto simp: s js_separator_def prefix_of_def)
  qed
  have take: "take (rune_len s) s = c # d # take m cs" by (simp add: m) (simp add: s)
  show "escaped (take (rune_len s) s @ r) = take (rune_len s) s @ escaped r"
    using cont [OF tail, of r] sep c' by (simp add: take escaped_steps)
  show "literal_ok (drop (rune_len s) s)" if "literal_ok s"
  proof -
    have "s = c # (d # take m cs) @ drop (rune_len s) s" by (simp add: m) (simp add: s)
    then have "literal_ok (c # (d # take m cs) @ drop (rune_len s) s)" using that by metis
    then show ?thesis using c c' cont [OF tail] literal_ok_plain [of c] by simp
  qed
qed


lemma unquote_steps:
  "byte c < 128 \<Longrightarrow> c \<noteq> CHR 0x5C \<Longrightarrow> unquote (c # s) = c # unquote s"
  "simple_escape e = Some x \<Longrightarrow> unquote (CHR 0x5C # e # s) = x # unquote s"
  by (simp_all add: getu4_simple)

lemma unquote_bad: "\<not> byte c < 128 \<Longrightarrow> rune_len (c # s) = 0 \<Longrightarrow> unquote (c # s) = replacement @ unquote s"
  by auto

lemma unquote_rune: "rune_len s \<noteq> 0 \<Longrightarrow> unquote (take (rune_len s) s @ r) = take (rune_len s) s @ unquote r"
  using piece_rune [of s] by (simp add: piece_def)

lemma rune_first: "rune_len (c # s) \<noteq> 0 \<Longrightarrow> \<not> byte c < 128"
  by (auto simp: rune_len_def Let_def split: list.splits if_splits)

lemma unquote_unicode:
  assumes "getu4 (CHR 0x5C # CHR ''u'' # h1 # h2 # h3 # h4 # s) = Some n"
  shows "unquote (CHR 0x5C # CHR ''u'' # h1 # h2 # h3 # h4 # s) =
    (if surrogate n
     then (case pair_rune n (getu4 s) of Some q \<Rightarrow> utf8_encode q @ unquote (drop 6 s) | None \<Rightarrow> replacement @ unquote s)
     else utf8_encode n @ unquote s)"
  using assms by simp

lemma low_escaped:
  assumes "literal_ok s" and "pair_rune n (getu4 s) \<noteq> None"
  shows "drop 6 (escaped s) = escaped (drop 6 s) \<and> literal_ok (drop 6 s)"
proof -
  obtain c cs where s: "s = c # cs" using assms(2) by (cases s) (auto simp: getu4_def pair_rune_none)
  obtain m where "getu4 (c # cs) = Some m" using assms(2) s by (cases "getu4 s") (auto simp: pair_rune_none)
  then obtain h1 h2 h3 h4 es where f: "c = CHR 0x5C" "cs = CHR ''u'' # h1 # h2 # h3 # h4 # es"
    "\<forall>h \<in> {h1, h2, h3, h4}. hex_val h \<noteq> None" by (rule getu4_form)
  then have "literal_ok es" using assms(1) s by (simp add: literal_ok.simps(2) [of "CHR 0x5C"] simple_escape_quote)
  then show ?thesis using f s escaped_unicode [OF f(3), of es] by simp
qed

text \<open>An escaped literal stands for the same text.\<close>

lemma unquote_escaped: "literal_ok s \<Longrightarrow> unquote (escaped s) = unquote s"
proof (induction "length s" arbitrary: s rule: less_induct)
  case less
  have IH: "unquote (escaped t) = unquote t" if "length t < length s" "literal_ok t" for t
    using less(1) that by blast
  from less(2) show ?case
  proof (cases rule: literal_cases)
    case (html c cs)
    then show ?thesis using IH [of cs] html_char_ascii [of c] piece_byte_escape [of c]
      by (simp add: escaped_steps unquote_steps piece_def del: unquote.simps)
  next
    case (separator c cs)
    have "unquote (separator_escape c @ t) = [CHR 0xE2, CHR 0x80, c] @ unquote t" for t
      using piece_separator [OF separator(2)] by (simp add: piece_def del: unquote.simps)
    moreover have "unquote (CHR 0xE2 # CHR 0x80 # c # t) = [CHR 0xE2, CHR 0x80, c] @ unquote t" for t
      using unquote_rune [of "[CHR 0xE2, CHR 0x80, c]" t] rune_len_separator [OF separator(2), of "[]"]
      by (simp del: unquote.simps)
    ultimately show ?thesis using separator IH [of cs] by (simp add: escaped_steps del: unquote.simps)
  next
    case (simple e cs)
    then show ?thesis using IH [of cs] by (auto simp: escaped_steps unquote_steps simp del: unquote.simps)
  next
    case (unicode h1 h2 h3 h4 cs)
    let ?p = "\<lambda>t. CHR 0x5C # CHR ''u'' # h1 # h2 # h3 # h4 # t"
    obtain n where n: "getu4 (?p t) = Some n" for t
      using unicode(2) by (cases "hex_val h1"; cases "hex_val h2"; cases "hex_val h3"; cases "hex_val h4")
        (auto simp: getu4_def)
    have "unquote (escaped (drop 6 cs)) = unquote (drop 6 cs)" if "literal_ok (drop 6 cs)"
      using IH that unicode by simp
    then show ?thesis
      using unicode n IH [of cs] pair_rune_escaped [of cs n] low_escaped [of cs n]
      by (simp add: escaped_unicode unquote_unicode [OF n] split: option.split del: unquote.simps)
  next
    case (plain c cs)
    consider (ascii) "byte c < 128" | (bad) "\<not> byte c < 128" "rune_len (c # cs) = 0" | (rune) "rune_len (c # cs) \<noteq> 0" by blast
    then show ?thesis
    proof cases
      case ascii
      then show ?thesis using plain IH [of cs] by (simp add: escaped_steps unquote_steps del: unquote.simps)
    next
      case bad
      then have "rune_len (c # escaped cs) = 0"
        using rune_len_none [of "escaped cs" cs c] continues_escaped [OF plain(7)] by simp
      then show ?thesis using plain bad IH [of cs] by (simp add: escaped_steps unquote_bad del: unquote.simps)
    next
      case rune
      define p q where "p = take (rune_len s) s" and "q = drop (rune_len s) s"
      have s: "s = p @ q" by (simp add: p_def q_def)
      have len: "rune_len s \<noteq> 0" using rune plain(1) by simp
      have sep: "\<not> js_separator s" using plain(1,3) by simp
      have "escaped (p @ q) = p @ escaped q" unfolding p_def by (rule escaped_rune(1) [OF len sep])
      moreover have "literal_ok q" unfolding q_def by (rule escaped_rune(2) [OF len sep less(2)])
      moreover have "unquote (p @ t) = p @ unquote t" for t unfolding p_def by (rule unquote_rune [OF len])
      moreover have "length q < length s" using len plain(1) by (simp add: q_def)
      ultimately show ?thesis using IH [of q] s by metis
    qed
  qed simp
qed

end
