(* ===== verification/Go_JSON_Raw.thy ===== *)
theory Go_JSON_Raw
  imports Go_JSON_Compact
begin

text \<open>
  A json.RawMessage is read as the same data after it was written: the text appendCompact
  makes of a JSON value is the text of a JSON value with the same members, elements, strings
  and numbers.
\<close>

section \<open>What is skimmed off a text\<close>

text \<open>Up to r, compacting s leaves A.\<close>

definition skim :: "string \<Rightarrow> string \<Rightarrow> string \<Rightarrow> bool" where
  "skim s r A \<longleftrightarrow> (\<exists>pre. s = pre @ r \<and> (\<forall>x. compacted False (pre @ x) = A @ compacted False x))"

lemma skim_trans: "skim s r A \<Longrightarrow> skim r q B \<Longrightarrow> skim s q (A @ B)"
  unfolding skim_def by (metis append.assoc)

lemma skim_space: "skim s (skip_space s) []"
proof -
  have "compacted False (takeWhile json_space s @ x) = compacted False x" for x
  proof (induction s)
    case (Cons c s)
    have "json_space c \<Longrightarrow> \<not> html_char c \<and> c \<noteq> CHR 0xE2" by (auto simp: json_space_def html_char_def)
    then show ?case using Cons by (simp add: compacted.simps not_separator)
  qed simp
  then show ?thesis by (auto simp: skim_def skip_space_def intro!: exI [of _ "takeWhile json_space s"])
qed

definition plain_char :: "char \<Rightarrow> bool" where
  "plain_char c \<longleftrightarrow> \<not> json_space c \<and> \<not> html_char c \<and> c \<noteq> CHR 0x22 \<and> c \<noteq> CHR 0xE2"

lemma skim_plain: "list_all plain_char A \<Longrightarrow> skim (A @ r) r A"
proof -
  assume "list_all plain_char A"
  then have "compacted False (A @ x) = A @ compacted False x" for x
    by (induction A) (auto simp: compacted.simps plain_char_def not_separator)
  then show ?thesis by (auto simp: skim_def)
qed

lemma skim_expect:
  assumes "expect c s = Some r" and "plain_char c"
  shows "skim s r [c]"
proof -
  have "skip_space s = [c] @ r" using assms(1) by (auto simp: expect_def split: list.splits if_splits)
  then show ?thesis using skim_trans [OF skim_space [of s]] skim_plain [of "[c]" r] assms(2) by simp
qed

definition quoted_literal :: "string \<Rightarrow> string" where
  "quoted_literal lit = [CHR 0x22] @ escaped lit @ [CHR 0x22]"

lemma skim_string:
  assumes "scan_string s = Some (lit, r)"
  shows "skim (CHR 0x22 # s) r (quoted_literal lit)"
proof -
  have s: "s = lit @ CHR 0x22 # r" and ok: "literal_ok lit" using scan_string_literal [OF assms] by auto
  have "compacted False (CHR 0x22 # lit @ CHR 0x22 # x) = quoted_literal lit @ compacted False x" for x
    using compacted_literal [OF ok, of x]
    by (simp add: quoted_literal_def compacted.simps(2) [of False] html_char_def not_separator json_space_def)
  then show ?thesis
    unfolding skim_def s by (intro exI [of _ "CHR 0x22 # lit @ [CHR 0x22]"]) simp
qed

lemma scan_quoted_literal:
  assumes "scan_string s = Some (lit, r)"
  shows "quoted_literal lit @ x = CHR 0x22 # escaped lit @ CHR 0x22 # x"
    and "scan_string (escaped lit @ CHR 0x22 # x) = Some (escaped lit, x)"
    and "unquote (escaped lit) = unquote lit"
  using scan_string_literal [OF assms]
  by (auto simp: quoted_literal_def literal_ok_escaped scan_literal_ok unquote_escaped)

section \<open>Numbers\<close>

lemma digits_then_iff:
  "digits_then s = Some (ds, r) \<longleftrightarrow>
    ds \<noteq> [] \<and> list_all is_digit ds \<and> s = ds @ r \<and> (r = [] \<or> \<not> is_digit (hd r))"
proof
  assume "digits_then s = Some (ds, r)"
  then have "ds = takeWhile is_digit s" "r = dropWhile is_digit s" "ds \<noteq> []"
    by (auto simp: digits_then_def Let_def split: if_splits)
  then show "ds \<noteq> [] \<and> list_all is_digit ds \<and> s = ds @ r \<and> (r = [] \<or> \<not> is_digit (hd r))"
    using hd_dropWhile [of is_digit s] by (auto simp: list_all_iff dest: set_takeWhileD)
next
  assume a: "ds \<noteq> [] \<and> list_all is_digit ds \<and> s = ds @ r \<and> (r = [] \<or> \<not> is_digit (hd r))"
  then have "takeWhile is_digit s = ds @ takeWhile is_digit r" "dropWhile is_digit s = dropWhile is_digit r"
    by (simp_all add: list_all_iff takeWhile_append2 dropWhile_append2)
  moreover have "takeWhile is_digit r = []" "dropWhile is_digit r = r" using a by (cases r; auto)+
  ultimately show "digits_then s = Some (ds, r)" using a by (simp add: digits_then_def)
qed

text \<open>What a number may not be followed by.\<close>

definition stops :: "string \<Rightarrow> bool" where
  "stops r \<longleftrightarrow> r = [] \<or> \<not> is_digit (hd r)"

lemma scan_int_parts:
  assumes "scan_int s = Some (i, r)"
  shows "s = i @ r" and "i \<noteq> []" and "list_all is_digit i"
    and "stops x \<Longrightarrow> scan_int (i @ x) = Some (i, x)"
proof -
  show "s = i @ r" "i \<noteq> []" "list_all is_digit i"
    using assms by (auto simp: scan_int_def digits_then_iff is_digit_def split: list.splits if_splits)
  show "scan_int (i @ x) = Some (i, x)" if "stops x"
    using assms that by (cases i) (auto simp: scan_int_def digits_then_iff stops_def split: list.splits if_splits)
qed

lemma scan_frac_parts:
  assumes "scan_frac s = Some (f, r)"
  shows "s = f @ r" and "f \<noteq> [] \<Longrightarrow> hd f = CHR ''.'' \<and> list_all is_digit (tl f)"
    and "stops x \<Longrightarrow> x = [] \<or> hd x \<noteq> CHR ''.'' \<Longrightarrow> scan_frac (f @ x) = Some (f, x)"
  using assms by (cases s; auto simp: scan_frac_def digits_then_iff stops_def split: if_splits)+

lemma scan_exp_parts:
  assumes "scan_exp s = Some (e, r)"
  obtains "e = []" "s = r"
  | c sg ds where "e = c # sg @ ds" "s = e @ r" "c = CHR ''e'' \<or> c = CHR ''E''"
      "sg \<in> {[], [CHR ''+''], [CHR ''-'']}" "digits_then (ds @ r) = Some (ds, r)"
proof (cases "s \<noteq> [] \<and> hd s \<in> {CHR ''e'', CHR ''E''}")
  case True
  define sg b where "sg = (if tl s \<noteq> [] \<and> hd (tl s) \<in> {CHR ''+'', CHR ''-''} then [hd (tl s)] else [])"
    and "b = (if tl s \<noteq> [] \<and> hd (tl s) \<in> {CHR ''+'', CHR ''-''} then tl (tl s) else tl s)"
  have "scan_exp s = map_option (\<lambda>(ds, rest). (hd s # sg @ ds, rest)) (digits_then b)"
    using True by (simp add: scan_exp_def sg_def b_def)
  then obtain ds where ds: "digits_then b = Some (ds, r)" "e = hd s # sg @ ds"
    using assms by (cases "digits_then b") auto
  then have b: "b = ds @ r" by (simp add: digits_then_iff)
  have "s = hd s # sg @ b" using True by (cases s; cases "tl s") (auto simp: sg_def b_def)
  then have "s = e @ r" unfolding b ds(2) by simp
  moreover have "sg \<in> {[], [CHR ''+''], [CHR ''-'']}" by (auto simp: sg_def)
  moreover have "hd s = CHR ''e'' \<or> hd s = CHR ''E''" using True by blast
  ultimately show ?thesis using that(2) [OF ds(2)] ds(1) b by metis
qed (use assms that(1) in \<open>auto simp: scan_exp_def\<close>)


lemma scan_exp_again:
  assumes "scan_exp s = Some (e, r)" and "ends_number x"
  shows "s = e @ r" and "scan_exp (e @ x) = Some (e, x)"
proof -
  show "s = e @ r" using assms(1) by (cases rule: scan_exp_parts) simp_all
  show "scan_exp (e @ x) = Some (e, x)"
    using assms(1)
  proof (cases rule: scan_exp_parts)
    case 1
    then show ?thesis using ends_number_simps(3) [OF assms(2)] by simp
  next
    case (2 c sg ds)
    then obtain d ds' where ds: "ds = d # ds'" "is_digit d" by (cases ds) (auto simp: digits_then_iff)
    then have d: "d \<noteq> CHR ''+'' \<and> d \<noteq> CHR ''-''" by (auto simp: is_digit_def)
    have "digits_then (ds @ x) = Some (ds, x)"
      using 2(5) ends_number_simps(1) [OF assms(2)] by (simp add: digits_then_iff)
    then show ?thesis using 2 d by (auto simp: scan_exp_def ds)
  qed
qed

lemma hd_exp: "scan_exp s = Some (e, r) \<Longrightarrow> e \<noteq> [] \<Longrightarrow> hd e = CHR ''e'' \<or> hd e = CHR ''E''"
  by (auto elim: scan_exp_parts)

lemma stops_frac:
  assumes "scan_exp s = Some (e, r)" and "ends_number x"
  shows "stops (e @ x)" and "e @ x = [] \<or> hd (e @ x) \<noteq> CHR ''.''"
  using hd_exp [OF assms(1)] assms(2)
  by (cases e; auto simp: stops_def ends_number_def is_digit_def)+

lemma scan_number_parts:
  assumes "scan_number s = Some (n, r)"
  obtains sg i f e where "n = sg @ i @ f @ e" "sg = [] \<and> hd i \<noteq> CHR ''-'' \<or> sg = [CHR ''-'']"
    "s = n @ r" "i \<noteq> []" "list_all is_digit i"
    "scan_int (i @ f @ e @ r) = Some (i, f @ e @ r)" "scan_frac (f @ e @ r) = Some (f, e @ r)"
    "scan_exp (e @ r) = Some (e, r)"
proof -
  define sg b where "sg = (if s \<noteq> [] \<and> hd s = CHR ''-'' then [CHR ''-''] else [])"
    and "b = (if s \<noteq> [] \<and> hd s = CHR ''-'' then tl s else s)"
  have "scan_number s = (case scan_int b of None \<Rightarrow> None | Some (i, s1) \<Rightarrow>
      case scan_frac s1 of None \<Rightarrow> None | Some (f, s2) \<Rightarrow>
      case scan_exp s2 of None \<Rightarrow> None | Some (e, s3) \<Rightarrow> Some (sg @ i @ f @ e, s3))"
    unfolding sg_def b_def by (auto simp: scan_number_def)
  then obtain i s1 f s2 e where parts: "scan_int b = Some (i, s1)" "scan_frac s1 = Some (f, s2)"
    "scan_exp s2 = Some (e, r)" "n = sg @ i @ f @ e"
    using assms by (auto split: option.splits)
  have s2: "s2 = e @ r" using parts(3) by (cases rule: scan_exp_parts) simp_all
  have s1: "s1 = f @ e @ r" using scan_frac_parts(1) [OF parts(2)] s2 by simp
  have b: "b = i @ f @ e @ r" using scan_int_parts(1) [OF parts(1)] s1 by simp
  have s: "s = sg @ b" by (cases s) (auto simp: sg_def b_def)
  have i: "i \<noteq> []" using scan_int_parts(2) [OF parts(1)] .
  moreover have "sg = [] \<and> hd i \<noteq> CHR ''-'' \<or> sg = [CHR ''-'']"
    using i b by (auto simp: sg_def b_def split: if_splits)
  ultimately show ?thesis using that parts s1 s2 b s scan_int_parts(3) [OF parts(1)] by simp
qed

lemma plain_digits: "list_all is_digit s \<Longrightarrow> list_all plain_char s"
  by (auto simp: list_all_iff plain_char_def is_digit_def json_space_def html_char_def)

lemma scan_number_again:
  assumes "scan_number s = Some (n, r)"
  shows "s = n @ r" and "list_all plain_char n" and "ends_number x \<Longrightarrow> scan_number (n @ x) = Some (n, x)"
proof -
  obtain sg i f e where n: "n = sg @ i @ f @ e" "sg = [] \<and> hd i \<noteq> CHR ''-'' \<or> sg = [CHR ''-'']"
    "s = n @ r" "i \<noteq> []" "list_all is_digit i"
    "scan_int (i @ f @ e @ r) = Some (i, f @ e @ r)" "scan_frac (f @ e @ r) = Some (f, e @ r)"
    "scan_exp (e @ r) = Some (e, r)"
    using assms by (rule scan_number_parts)
  show "s = n @ r" by (rule n(3))
  have "list_all plain_char f"
    using scan_frac_parts(2) [OF n(7)] plain_digits [of "tl f"]
    by (cases f) (auto simp: plain_char_def json_space_def html_char_def)
  moreover have "list_all plain_char e"
    using n(8)
  proof (cases rule: scan_exp_parts)
    case (2 c sg ds)
    then show ?thesis using plain_digits [of ds]
      by (auto simp: digits_then_iff plain_char_def json_space_def html_char_def)
  qed simp
  ultimately show "list_all plain_char n"
    using n(1,2) plain_digits [OF n(5)] by (auto simp: plain_char_def json_space_def html_char_def)
  show "scan_number (n @ x) = Some (n, x)" if x: "ends_number x"
  proof -
    have ex: "scan_exp (e @ x) = Some (e, x)" by (rule scan_exp_again(2) [OF n(8) x])
    have fr: "scan_frac (f @ e @ x) = Some (f, e @ x)"
      by (rule scan_frac_parts(3) [OF n(7) stops_frac [OF n(8) x]])
    have "stops (f @ e @ x)"
      using scan_frac_parts(2) [OF n(7)] stops_frac(1) [OF n(8) x] by (cases f) (auto simp: stops_def is_digit_def)
    then have int: "scan_int (i @ f @ e @ x) = Some (i, f @ e @ x)" by (rule scan_int_parts(4) [OF n(6)])
    show ?thesis using n(2,4) ex fr int unfolding n(1) by (auto simp: scan_number_def)
  qed
qed

section \<open>Values\<close>

text \<open>A value without the texts its members came from.\<close>

fun bare :: "json \<Rightarrow> json" where
  "bare (JArr vs) = JArr (map bare vs)"
| "bare (JObj ms) = JObj (map (\<lambda>(k, v, raw). (k, bare v, [])) ms)"
| "bare v = v"

lemma reads_first:
  assumes "reads d A v"
  shows "hd A \<noteq> CHR '']''" and "hd A \<noteq> CHR ''}''"
proof -
  have "parse_value d (c # s) = None" if c: "c = CHR '']'' \<or> c = CHR ''}''" for c s
  proof -
    have "skip_space (c # s) = c # s" using c by (auto simp: skip_space_def json_space_def)
    moreover have "scan_literal (c # s) = None"
      using c by (elim disjE) (simp_all add: scan_literal_def prefix_of_def)
    then have "scan_atom (c # s) = None"
      using c by (elim disjE) (simp_all add: scan_atom_def is_digit_def)
    ultimately show ?thesis using c by (auto simp: parse_value.simps [of d "c # s"] expect_def)
  qed
  moreover obtain a As where "A = a # As" using assms by (cases A) (auto simp: reads_def)
  moreover have "parse_value d (A @ '','') \<noteq> None" using assms by (simp add: reads_def ends_number_def)
  ultimately show "hd A \<noteq> CHR '']''" "hd A \<noteq> CHR ''}''" by fastforce+
qed


text \<open>Compacting s up to r leaves a text that is read as the same data.\<close>

definition keeps_value :: "nat \<Rightarrow> string \<Rightarrow> string \<Rightarrow> json \<Rightarrow> bool" where
  "keeps_value d s r v \<longleftrightarrow> (\<exists>A v'. skim s r A \<and> reads d A v' \<and> bare v' = bare v)"

definition keeps_elems :: "nat \<Rightarrow> string \<Rightarrow> string \<Rightarrow> json list \<Rightarrow> bool" where
  "keeps_elems d s r vs \<longleftrightarrow>
    (\<exists>A vs'. skim s r A \<and> A \<noteq> [] \<and> \<not> json_space (hd A) \<and> hd A \<noteq> CHR '']''
      \<and> (\<forall>x. parse_elems d (A @ x) = Some (vs', x)) \<and> map bare vs' = map bare vs)"

definition keeps_members :: "nat \<Rightarrow> string \<Rightarrow> string \<Rightarrow> (string \<times> json \<times> string) list \<Rightarrow> bool" where
  "keeps_members d s r ms \<longleftrightarrow>
    (\<exists>A ms'. skim s r A \<and> A \<noteq> [] \<and> \<not> json_space (hd A) \<and> hd A \<noteq> CHR ''}''
      \<and> (\<forall>x. parse_members d (A @ x) = Some (ms', x)) \<and> bare (JObj ms') = bare (JObj ms))"

lemma tokens [simp]:
  "plain_char (CHR ''['')" "plain_char (CHR '']'')" "plain_char (CHR ''{'')" "plain_char (CHR ''}'')"
  "plain_char (CHR '','')" "plain_char (CHR '':'')"
  by (simp_all add: plain_char_def json_space_def html_char_def)

lemma token_no_space [simp]:
  "\<not> json_space (CHR ''['')" "\<not> json_space (CHR '']'')" "\<not> json_space (CHR ''{'')" "\<not> json_space (CHR ''}'')"
  "\<not> json_space (CHR '','')" "\<not> json_space (CHR '':'')" "\<not> json_space (CHR 0x22)"
  by (simp_all add: json_space_def)

lemma keeps_number:
  assumes "scan_number s = Some (n, r)" and "s = c # cs" and "c = CHR ''-'' \<or> is_digit c"
  shows "keeps_value d s r (JNum n)"
proof -
  note again = scan_number_again [OF assms(1)]
  obtain n' where n: "n = c # n'"
    using again(1) assms(1,2) by (cases n) (auto elim: scan_number_parts)
  have first: "\<not> json_space c" "c \<noteq> CHR ''[''" "c \<noteq> CHR ''{''" "c \<noteq> CHR 0x22"
    using assms(3) by (auto simp: json_space_def is_digit_def)
  have "parse_value d (n @ x) = Some (JNum n, x)" if "ends_number x" for x
    using again(3) [OF that] assms(3) first
    by (auto simp: parse_value.simps [of d "c # n' @ x"] n expect_other scan_atom_def skip_space_id)
  then have "reads d n (JNum n)" using first n by (simp add: reads_def)
  moreover have "skim s r n" unfolding again(1) by (rule skim_plain [OF again(2)])
  ultimately show ?thesis unfolding keeps_value_def by blast
qed

lemma keeps_string:
  assumes "scan_string s = Some (lit, r)"
  shows "keeps_value d (CHR 0x22 # s) r (JStr (unquote lit))"
proof -
  have "parse_value d (quoted_literal lit @ x) = Some (JStr (unquote lit), x)" for x
    using scan_quoted_literal [OF assms]
    by (simp add: parse_value.simps [of d] expect_other scan_atom_def skip_space_id)
  then have "reads d (quoted_literal lit) (JStr (unquote lit))" by (simp add: reads_def quoted_literal_def)
  then show ?thesis using skim_string [OF assms] unfolding keeps_value_def by blast
qed

lemma scan_literal_again:
  assumes "scan_literal s = Some (v, r)"
  shows "s = ''null'' @ r \<and> v = JNull \<or> s = ''true'' @ r \<and> v = JBool True \<or> s = ''false'' @ r \<and> v = JBool False"
proof -
  have split: "prefix_of w s \<Longrightarrow> s = w @ drop (length w) s" for w
    by (metis append_take_drop_id prefix_of_def)
  consider "prefix_of ''null'' s" "v = JNull" "r = drop 4 s" | "prefix_of ''true'' s" "v = JBool True" "r = drop 4 s"
    | "prefix_of ''false'' s" "v = JBool False" "r = drop 5 s"
    using assms by (auto simp: scan_literal_def split: if_splits)
  then show ?thesis
    using split [of "''null''"] split [of "''true''"] split [of "''false''"]
    by cases (auto simp: eval_nat_numeral)
qed

lemma keeps_literal:
  assumes "scan_literal s = Some (v, r)"
  shows "keeps_value d s r v"
proof -
  obtain word where w: "s = word @ r" "word \<in> {''null'', ''true'', ''false''}"
    and again: "\<And>x. scan_literal (word @ x) = Some (v, x)"
    using scan_literal_again [OF assms] that [of "''null''"] that [of "''true''"] that [of "''false''"]
    by (auto simp: scan_literal_def prefix_of_def)
  obtain c cs where c: "word = c # cs" "c \<in> {CHR ''n'', CHR ''t'', CHR ''f''}" using w(2) by auto
  then have first: "\<not> json_space c" "c \<noteq> CHR ''[''" "c \<noteq> CHR ''{''" "c \<noteq> CHR 0x22" "c \<noteq> CHR ''-''" "\<not> is_digit c"
    by (auto simp: json_space_def is_digit_def)
  have "parse_value d (word @ x) = Some (v, x)" for x
    using again [of x] first c(1) by (simp add: parse_value.simps [of d] expect_other scan_atom_def skip_space_id)
  then have "reads d word v" using first c(1) by (simp add: reads_def)
  moreover have "skim s r word"
    unfolding w(1) by (rule skim_plain) (use w(2) in \<open>auto simp: plain_char_def json_space_def html_char_def\<close>)
  ultimately show ?thesis unfolding keeps_value_def by blast
qed

lemma keeps_space: "keeps_value d (skip_space s) r v \<Longrightarrow> keeps_value d s r v"
  unfolding keeps_value_def using skim_trans [OF skim_space [of s]] by fastforce

lemma keeps_atom:
  assumes "scan_atom s = Some (v, r)"
  shows "keeps_value d s r v"
proof -
  obtain c cs where s: "s = c # cs" using assms by (cases s) (auto simp: scan_atom_def)
  consider (str) "c = CHR 0x22" | (num) "c \<noteq> CHR 0x22" "c = CHR ''-'' \<or> is_digit c"
    | (lit) "c \<noteq> CHR 0x22" "\<not> (c = CHR ''-'' \<or> is_digit c)" by blast
  then show ?thesis
  proof cases
    case str
    then show ?thesis using assms s keeps_string by (auto simp: scan_atom_def)
  next
    case num
    then show ?thesis using assms s keeps_number [OF _ s num(2)] by (auto simp: scan_atom_def)
  next
    case lit
    then show ?thesis using assms s keeps_literal by (auto simp: scan_atom_def)
  qed
qed

lemma keeps_key:
  assumes "scan_key s = Some (k, r)"
  obtains A where "skim s r A" "A \<noteq> []" "hd A = CHR 0x22" "\<And>x. scan_key (A @ x) = Some (k, x)"
proof -
  obtain cs lit rest where key: "expect (CHR 0x22) s = Some cs" "scan_string cs = Some (lit, rest)"
    "expect (CHR '':'') rest = Some r" "k = unquote lit"
    using assms by (auto simp: scan_key_def split: option.splits)
  have "skip_space s = CHR 0x22 # cs" using key(1) by (auto simp: expect_def split: list.splits if_splits)
  then have "skim s r (quoted_literal lit @ [CHR '':''])"
    using skim_trans [OF skim_space [of s]] skim_trans [OF skim_string [OF key(2)] skim_expect [OF key(3)]] by simp
  moreover have "scan_key ((quoted_literal lit @ [CHR '':'']) @ x) = Some (k, x)" for x
    using scan_quoted_literal [OF key(2)] key(4) by (simp add: scan_key_def expect_at)
  ultimately show ?thesis using that [of "quoted_literal lit @ [CHR '':'']"] by (simp add: quoted_literal_def)
qed


text \<open>Objects and arrays, opened, continued and closed.\<close>

lemma reads_array:
  assumes "A \<noteq> []" and "\<not> json_space (hd A)" and "hd A \<noteq> CHR '']''"
    and "\<And>x. parse_elems d (A @ x) = Some (vs, x)"
  shows "reads (Suc d) (CHR ''['' # A) (JArr vs)"
proof -
  obtain a As where "A = a # As" using assms(1) by (cases A) auto
  then show ?thesis using assms by (simp add: reads_def parse_value.simps [of "Suc d"] expect_at expect_other)
qed

lemma reads_object_text:
  assumes "A \<noteq> []" and "\<not> json_space (hd A)" and "hd A \<noteq> CHR ''}''"
    and "\<And>x. parse_members d (A @ x) = Some (ms, x)"
  shows "reads (Suc d) (CHR ''{'' # A) (JObj ms)"
proof -
  obtain a As where "A = a # As" using assms(1) by (cases A) auto
  then show ?thesis using assms by (simp add: reads_def parse_value.simps [of "Suc d"] expect_at expect_other)
qed

lemma reads_empty: "reads (Suc d) ''[]'' (JArr [])" "reads (Suc d) ''{}'' (JObj [])"
  by (simp_all add: reads_def parse_value.simps [of "Suc d"] expect_at expect_other)

lemma reads_at:
  assumes "reads d A v" and "c \<in> {CHR '','', CHR '']'', CHR ''}''}"
  shows "parse_value d (A @ c # x) = Some (v, c # x)"
  using assms by (auto simp: reads_def ends_number_def)

lemma keeps_array:
  assumes "expect (CHR ''['') s = Some cs" and "keeps_elems d cs r vs"
  shows "keeps_value (Suc d) s r (JArr vs)"
proof -
  obtain A vs' where A: "skim cs r A" "A \<noteq> []" "\<not> json_space (hd A)" "hd A \<noteq> CHR '']''"
    "\<And>x. parse_elems d (A @ x) = Some (vs', x)" "map bare vs' = map bare vs"
    using assms(2) unfolding keeps_elems_def by auto
  have "skim s r (CHR ''['' # A)" using skim_trans [OF skim_expect [OF assms(1)] A(1)] by simp
  moreover have "bare (JArr vs') = bare (JArr vs)" using A(6) by simp
  ultimately show ?thesis unfolding keeps_value_def using reads_array [OF A(2-5)] by blast
qed

lemma keeps_object:
  assumes "expect (CHR ''{'') s = Some cs" and "keeps_members d cs r ms"
  shows "keeps_value (Suc d) s r (JObj ms)"
proof -
  obtain A ms' where A: "skim cs r A" "A \<noteq> []" "\<not> json_space (hd A)" "hd A \<noteq> CHR ''}''"
    "\<And>x. parse_members d (A @ x) = Some (ms', x)" "bare (JObj ms') = bare (JObj ms)"
    using assms(2) unfolding keeps_members_def by auto
  have "skim s r (CHR ''{'' # A)" using skim_trans [OF skim_expect [OF assms(1)] A(1)] by simp
  then show ?thesis unfolding keeps_value_def using reads_object_text [OF A(2-5)] A(6) by blast
qed

lemma keeps_empty:
  assumes "expect c s = Some cs" and "expect c' cs = Some r"
    and "c = CHR ''['' \<and> c' = CHR '']'' \<and> v = JArr [] \<or> c = CHR ''{'' \<and> c' = CHR ''}'' \<and> v = JObj []"
  shows "keeps_value (Suc d) s r v"
proof -
  have "skim s r ([c] @ [c'])"
    using assms(3) by (intro skim_trans [OF skim_expect [OF assms(1)] skim_expect [OF assms(2)]]) auto
  moreover have "reads (Suc d) ([c] @ [c']) v" using assms(3) reads_empty by auto
  ultimately show ?thesis unfolding keeps_value_def by blast
qed

lemma keeps_elem:
  assumes "keeps_value d s r v"
    and "expect (CHR '']'') r = Some q \<and> vs = [] \<or> expect (CHR '','') r = Some cs \<and> keeps_elems d cs q vs"
  shows "keeps_elems d s q (v # vs)"
proof -
  obtain A v' where A: "skim s r A" "reads d A v'" "bare v' = bare v"
    using assms(1) unfolding keeps_value_def by blast
  have first: "A @ B \<noteq> []" "\<not> json_space (hd (A @ B))" "hd (A @ B) \<noteq> CHR '']''" for B
    using A(2) reads_first(1) [OF A(2)] by (auto simp: reads_def)
  from assms(2) show ?thesis
  proof
    assume "expect (CHR '']'') r = Some q \<and> vs = []"
    moreover from this have "skim s q (A @ [CHR '']''])" using skim_trans [OF A(1) skim_expect] by simp
    moreover have "parse_elems d ((A @ [CHR '']'']) @ x) = Some ([v'], x)" for x
      using reads_at [OF A(2), of "CHR '']''" x] by (simp add: parse_elems_eq [of d] expect_at)
    ultimately show ?thesis
      unfolding keeps_elems_def using first [of "[CHR '']'']"] A(3)
      by (intro exI [of _ "A @ [CHR '']'']"] exI [of _ "[v']"]) auto
  next
    assume c: "expect (CHR '','') r = Some cs \<and> keeps_elems d cs q vs"
    then obtain B vs' where B: "skim cs q B" "\<And>x. parse_elems d (B @ x) = Some (vs', x)" "map bare vs' = map bare vs"
      unfolding keeps_elems_def by auto
    have "skim s q (A @ CHR '','' # B)"
      using c skim_trans [OF A(1) skim_trans [OF skim_expect B(1)]] by simp
    moreover have "parse_elems d ((A @ CHR '','' # B) @ x) = Some (v' # vs', x)" for x
      using reads_at [OF A(2), of "CHR '',''" "B @ x"] B(2) by (simp add: parse_elems_eq [of d "A @ CHR '','' # B @ x"] expect_at expect_other)
    ultimately show ?thesis
      unfolding keeps_elems_def using first [of "CHR '','' # B"] A(3) B(3)
      by (intro exI [of _ "A @ CHR '','' # B"] exI [of _ "v' # vs'"]) auto
  qed
qed


lemma keeps_member:
  assumes "scan_key s = Some (k, a)" and "keeps_value d a r v"
    and "expect (CHR ''}'') r = Some q \<and> ms = [] \<or> expect (CHR '','') r = Some cs \<and> keeps_members d cs q ms"
  shows "keeps_members d s q ((k, v, raw) # ms)"
proof -
  obtain K where K: "skim s a K" "K \<noteq> []" "hd K = CHR 0x22" "\<And>x. scan_key (K @ x) = Some (k, x)"
    using assms(1) by (rule keeps_key) blast
  obtain A v' where A: "skim a r A" "reads d A v'" "bare v' = bare v"
    using assms(2) unfolding keeps_value_def by blast
  have first: "K @ B \<noteq> []" "\<not> json_space (hd (K @ B))" "hd (K @ B) \<noteq> CHR ''}''" for B
    using K(2,3) by auto
  from assms(3) show ?thesis
  proof
    assume "expect (CHR ''}'') r = Some q \<and> ms = []"
    moreover from this have "skim s q (K @ A @ [CHR ''}''])"
      using skim_trans [OF K(1) skim_trans [OF A(1) skim_expect]] by simp
    moreover have "\<exists>t. parse_members d ((K @ A @ [CHR ''}'']) @ x) = Some ([(k, v', t)], x)
        \<and> t = value_text (A @ ''}'') ''}''" for x
      using reads_at [OF A(2), of "CHR ''}''" x] K(4) [of "A @ CHR ''}'' # x"]
        reads_text [OF A(2), of "CHR ''}'' # x"] reads_text [OF A(2), of "''}''"]
      by (simp add: parse_members_eq [of d] expect_at)
    ultimately show ?thesis
      unfolding keeps_members_def using first [of "A @ [CHR ''}'']"] A(3)
      by (intro exI [of _ "K @ A @ [CHR ''}'']"] exI [of _ "[(k, v', value_text (A @ ''}'') ''}'')]"]) auto
  next
    assume c: "expect (CHR '','') r = Some cs \<and> keeps_members d cs q ms"
    then obtain B ms' where B: "skim cs q B" "\<And>x. parse_members d (B @ x) = Some (ms', x)"
      "bare (JObj ms') = bare (JObj ms)"
      unfolding keeps_members_def by auto
    have "skim s q (K @ A @ CHR '','' # B)"
      using c skim_trans [OF K(1) skim_trans [OF A(1) skim_trans [OF skim_expect B(1)]]] by simp
    moreover have "parse_members d ((K @ A @ CHR '','' # B) @ x) = Some ((k, v', A) # ms', x)" for x
      using reads_at [OF A(2), of "CHR '',''" "B @ x"] B(2) K(4) [of "A @ CHR '','' # B @ x"]
        reads_text [OF A(2), of "CHR '','' # B @ x"]
      by (simp add: parse_members_eq [of d "K @ A @ CHR '','' # B @ x"] expect_at expect_other)
    ultimately show ?thesis
      unfolding keeps_members_def using first [of "A @ CHR '','' # B"] A(3) B(3)
      by (intro exI [of _ "K @ A @ CHR '','' # B"] exI [of _ "(k, v', A) # ms'"]) auto
  qed
qed

text \<open>Whatever is a JSON value stays the same value.\<close>

lemma compaction_keeps:
  "parse_value d s = Some (v, r) \<Longrightarrow> keeps_value d s r v"
  "parse_elems d s = Some (vs, r) \<Longrightarrow> keeps_elems d s r vs"
  "parse_members d s = Some (ms, r) \<Longrightarrow> keeps_members d s r ms"
proof (induction d s and d s and d s arbitrary: v r and vs r and ms r
    rule: parse_value_parse_elems_parse_members.induct)
  case (1 d s)
  note simps = parse_value.simps [of _ s]
  show ?case
  proof (cases "expect (CHR ''['') s")
    case arr: (Some cs)
    then have "d \<noteq> 0" using 1(3) by (auto simp: simps split: if_splits)
    then obtain e where d: "d = Suc e" by (cases d) auto
    show ?thesis
    proof (cases "expect (CHR '']'') cs")
      case None
      then obtain vs where vs: "parse_elems e cs = Some (vs, r)" "v = JArr vs"
        using 1(3) arr d by (auto simp: simps split: if_splits)
      have "keeps_elems e cs r vs" using 1(2) [OF arr _ None] vs(1) d by simp
      then show ?thesis using keeps_array [OF arr] vs(2) d by simp
    next
      case (Some rest)
      then show ?thesis using 1(3) arr d keeps_empty [OF arr Some, of v e] by (simp add: simps)
    qed
  next
    case noarr: None
    show ?thesis
    proof (cases "expect (CHR ''{'') s")
      case obj: (Some cs)
      then have "d \<noteq> 0" using 1(3) noarr by (auto simp: simps split: if_splits)
      then obtain e where d: "d = Suc e" by (cases d) auto
      show ?thesis
      proof (cases "expect (CHR ''}'') cs")
        case None
        then obtain ms where ms: "parse_members e cs = Some (ms, r)" "v = JObj ms"
          using 1(3) noarr obj d by (auto simp: simps split: if_splits)
        have "keeps_members e cs r ms" using 1(1) [OF noarr obj _ None] ms(1) d by simp
        then show ?thesis using keeps_object [OF obj] ms(2) d by simp
      next
        case (Some rest)
        then show ?thesis using 1(3) noarr obj d keeps_empty [OF obj Some, of v e] by (simp add: simps)
      qed
    next
      case None
      then have "scan_atom (skip_space s) = Some (v, r)" using 1(3) noarr by (simp add: simps)
      then show ?thesis by (rule keeps_space [OF keeps_atom])
    qed
  qed
next
  case (2 d s)
  from 2(3) obtain v r1 where v: "parse_value d s = Some (v, r1)"
    by (subst (asm) parse_elems_eq) (auto split: option.splits)
  note kv = 2(1) [OF v]
  show ?case
  proof (cases "expect (CHR '']'') r1")
    case (Some rest)
    then have "vs = [v]" "rest = r" using 2(3) v by (auto simp: parse_elems_eq [of d s])
    then show ?thesis using keeps_elem [OF kv, of r "[]"] Some by simp
  next
    case None
    then obtain cs vs' where cs: "expect (CHR '','') r1 = Some cs" "parse_elems d cs = Some (vs', r)" "vs = v # vs'"
      using 2(3) v by (auto simp: parse_elems_eq [of d s] split: option.splits)
    have "length cs < length s" using expect_shorter [OF cs(1)] parse_shorter(1) [OF v] by simp
    then have "keeps_elems d cs r vs'" using 2(2) [OF v refl None cs(1) _ cs(2)] by simp
    then show ?thesis using keeps_elem [OF kv, of r vs' cs] cs(1,3) by simp
  qed
next
  case (3 d s)
  from 3(3) obtain k a where k: "scan_key s = Some (k, a)"
    by (subst (asm) parse_members_eq) (auto split: option.splits)
  from 3(3) k obtain v r1 where v: "parse_value d a = Some (v, r1)"
    by (subst (asm) parse_members_eq) (auto split: option.splits)
  note kv = 3(1) [OF k refl v]
  show ?case
  proof (cases "expect (CHR ''}'') r1")
    case (Some rest)
    then have "ms = [(k, v, value_text a r1)]" "rest = r" using 3(3) k v by (auto simp: parse_members_eq [of d s])
    then show ?thesis using keeps_member [OF k kv, of r "[]"] Some by simp
  next
    case None
    then obtain cs ms' where cs: "expect (CHR '','') r1 = Some cs" "parse_members d cs = Some (ms', r)"
      "ms = (k, v, value_text a r1) # ms'"
      using 3(3) k v by (auto simp: parse_members_eq [of d s] split: option.splits)
    have "length cs < length s"
      using expect_shorter [OF cs(1)] parse_shorter(1) [OF v] scan_key_shorter [OF k] by simp
    then have "keeps_members d cs r ms'" using 3(2) [OF k refl v refl refl None cs(1) _ cs(2)] by simp
    then show ?thesis using keeps_member [OF k kv, of r ms' cs] cs(1,3) by simp
  qed
qed

section \<open>Raw messages\<close>

lemma compacted_spaces: "skip_space s = [] \<Longrightarrow> compacted False s = []"
proof (induction s)
  case (Cons c s)
  then have "json_space c" "skip_space s = []" by (auto simp: skip_space_def split: if_splits)
  then have "\<not> html_char c \<and> c \<noteq> CHR 0xE2" by (auto simp: json_space_def html_char_def)
  then show ?case using Cons \<open>json_space c\<close> \<open>skip_space s = []\<close> by (simp add: compacted.simps not_separator)
qed simp

lemma compacted_reads:
  assumes "parse_value d raw = Some (v, r)" and "skip_space r = []"
  shows "\<exists>v'. reads d (compacted False raw) v' \<and> bare v' = bare v"
proof -
  obtain A v' where A: "skim raw r A" "reads d A v'" "bare v' = bare v"
    using compaction_keeps(1) [OF assms(1)] unfolding keeps_value_def by blast
  then obtain pre where "raw = pre @ r" "compacted False (pre @ r) = A @ compacted False r"
    unfolding skim_def by blast
  then have "compacted False raw = A" using compacted_spaces [OF assms(2)] by simp
  then show ?thesis using A by blast
qed

end
