(* ===== verification/Go_JSON_Time.thy ===== *)
theory Go_JSON_Time
  imports Go_JSON_Marshal
begin

text \<open>
  Time.MarshalJSON: the layout RFC3339Nano in the zone the time carries, which is refused for
  a year of other than four digits and for an offset of a day or more; and that time.Parse
  reads the same instant back. The offset is written in minutes, so it must be a whole number
  of them.
\<close>

section \<open>Time.MarshalJSON\<close>

text \<open>Trailing zeros are cut, and the point where nothing is left.\<close>

definition fraction_text :: "int \<Rightarrow> string" where
  "fraction_text u =
    (if u = 0 then []
     else CHR ''.'' # rev (dropWhile (\<lambda>c. c = CHR ''0'') (rev (pad0 6 (nat u)))))"

definition zone_minutes :: "int \<Rightarrow> int" where
  "zone_minutes off = \<bar>off\<bar> div 60"

definition zone_text :: "int \<Rightarrow> string" where
  "zone_text off =
    (if off = 0 then ''Z''
     else (if off < 0 \<and> zone_minutes off \<noteq> 0 then ''-'' else ''+'')
       @ pad0 2 (nat (zone_minutes off div 60)) @ '':'' @ pad0 2 (nat (zone_minutes off mod 60)))"

definition zone_of :: "location \<Rightarrow> instant \<Rightarrow> int" where
  "zone_of loc t = fst (lookup loc (t div second))"

definition Format_RFC3339Nano :: "location \<Rightarrow> instant \<Rightarrow> string" where
  "Format_RFC3339Nano loc t =
    (let r = reading_of (In t loc)
     in year_text (Year (date r)) @ time_text r @ fraction_text (Micro r) @ zone_text (zone_of loc t))"

definition time_encodable :: "location \<Rightarrow> instant \<Rightarrow> bool" where
  "time_encodable loc t \<longleftrightarrow>
    (let y = Year (date (reading_of (In t loc)))
     in 0 \<le> y \<and> y \<le> 9999 \<and> zone_minutes (zone_of loc t) div 60 < 24)"

definition marshal_time :: "location \<Rightarrow> instant \<Rightarrow> string option" where
  "marshal_time loc t =
    (if time_encodable loc t then Some ([CHR 0x22] @ Format_RFC3339Nano loc t @ [CHR 0x22]) else None)"

section \<open>Reading it back\<close>

lemma month_day_length:
  "month_day ls m yd = (mm, dd) \<Longrightarrow> 0 \<le> yd \<Longrightarrow> yd < sum_list ls \<Longrightarrow> dd \<le> ls ! nat (mm - m)"
proof (induction ls arbitrary: m yd)
  case (Cons l ls)
  show ?case
  proof (cases "yd < l")
    case False
    then have rec: "month_day ls (m + 1) (yd - l) = (mm, dd)" "0 \<le> yd - l" "yd - l < sum_list ls"
      using Cons.prems by auto
    have "m + 1 \<le> mm" using month_day_range [OF rec] by simp
    then have "nat (mm - m) = Suc (nat (mm - (m + 1)))" by linarith
    then show ?thesis using Cons.IH [OF rec] by simp
  qed (use Cons.prems in auto)
qed simp

lemma Day_in_month: "Day (civil_of_days d) \<le> daysIn (Month (civil_of_days d)) (Year (civil_of_days d))"
proof -
  obtain y yd where y: "year_yday (d + 719162) = (y, yd)" by (metis prod.exhaust)
  obtain m dd where m: "month_day (month_lengths (leap_year y)) 1 yd = (m, dd)" by (metis prod.exhaust)
  show ?thesis
    using month_day_length [OF m year_yday_range(1) [OF y] year_yday_range(2) [OF y]]
    by (simp add: civil_of_days_def y m daysIn_def)
qed

lemma digit_0: "digit 0 = CHR ''0''"
  by (simp add: digit_def char_of_def bit_0)

lemma pad0_2: "n < 100 \<Longrightarrow> pad0 2 n = [digit (n div 10), digit (n mod 10)]"
  by (cases "n < 10") (auto simp: pad0_def show_nat.simps [of n] show_nat.simps [of "n div 10"] digit_0)

lemma getnum_pad0: "n < 100 \<Longrightarrow> getnum fixed (pad0 2 n @ s) = Some (int n, s)"
proof -
  assume n: "n < 100"
  then have "n div 10 < 10" "n mod 10 < 10" by auto
  moreover have "10 * int (n div 10) + int (n mod 10) = int n"
    by (metis mult_div_mod_eq of_nat_add of_nat_mult of_nat_numeral)
  ultimately show ?thesis using n by (simp add: pad0_2 getnum_def)
qed

lemma after_literal_pad0:
  "0 \<le> i \<Longrightarrow> i < 100 \<Longrightarrow> lo \<le> i \<Longrightarrow> i \<le> hi \<Longrightarrow>
    after_literal c fixed lo hi (c # pad0 2 (nat i) @ s) = Some (i, s)"
  by (simp add: after_literal_def literal_def getnum_pad0 ranged_def)

lemma digits_value_zeros: "digits_value (replicate k (CHR ''0'') @ s) = digits_value s"
proof -
  have "foldl (\<lambda>a c. 10 * a + (of_char c - 48)) (0 :: int) (replicate k (CHR ''0'')) = 0"
    by (induction k) simp_all
  then show ?thesis by (simp add: digits_value_def)
qed

lemma digits_value_pad0: "digits_value (pad0 w n) = int n"
  by (simp add: pad0_def digits_value_zeros digits_value_show)

lemma getyear_text:
  assumes "0 \<le> y" and "y \<le> 9999"
  shows "getyear (year_text y @ s) = Some (y, s)"
proof -
  have y: "year_text y = pad0 4 (nat y)" using assms by (simp add: year_text_def)
  have "length (pad0 (Suc 3) (nat y)) = Suc 3" by (rule length_pad0) (use assms in simp)
  then have "length (pad0 4 (nat y)) = 4" by simp
  moreover have "list_all is_digit (pad0 4 (nat y))" by (auto simp: list_all_iff intro: pad0_digits)
  ultimately show ?thesis using assms by (simp add: y getyear_def digits_value_pad0)
qed

lemma takeWhile_eq: "takeWhile (\<lambda>c. c = z) s = replicate (length (takeWhile (\<lambda>c. c = z) s)) z"
  by (induction s) auto

lemma cut_zeros:
  obtains k where "s = rev (dropWhile (\<lambda>c. c = CHR ''0'') (rev s)) @ replicate k (CHR ''0'')"
proof -
  define k where "k = length (takeWhile (\<lambda>c. c = CHR ''0'') (rev s))"
  have "rev s = replicate k (CHR ''0'') @ dropWhile (\<lambda>c. c = CHR ''0'') (rev s)"
    unfolding k_def by (subst takeWhile_eq [symmetric]) (rule takeWhile_dropWhile_id [symmetric])
  from arg_cong [where f = rev, OF this] show thesis
    by (intro that [of k]) (simp only: rev_rev_ident rev_append rev_replicate)
qed

lemma fraction_micros_text:
  assumes "0 \<le> u" and "u < 1000000" and "s \<noteq> []" and "hd s \<notin> {CHR ''.'', CHR '',''}" and "\<not> is_digit (hd s)"
  shows "fraction_micros (fraction_text u @ s) = (u, s)"
proof (cases "u = 0")
  case True
  obtain c cs where "s = c # cs" using assms(3) by (cases s) auto
  then show ?thesis using True assms(4) by (cases cs) (simp_all add: fraction_text_def fraction_micros_def)
next
  case False
  define p where "p = pad0 6 (nat u)"
  define ds where "ds = rev (dropWhile (\<lambda>c. c = CHR ''0'') (rev p))"
  obtain k where p: "p = ds @ replicate k (CHR ''0'')" unfolding ds_def by (rule cut_zeros)
  have "length (pad0 (Suc 5) (nat u)) = Suc 5" by (rule length_pad0) (use assms(2) in simp)
  then have len: "length p = 6" by (simp add: p_def)
  have val: "digits_value p = u" using assms(1) by (simp add: p_def digits_value_pad0)
  have "ds \<noteq> []"
  proof
    assume "ds = []"
    then have "digits_value p = 0" using digits_value_zeros [of k "[]"] by (simp add: p digits_value_def)
    then show False using val False by simp
  qed
  then obtain d ds' where ds: "ds = d # ds'" by (cases ds) auto
  have digits: "\<forall>c \<in> set ds. is_digit c" using pad0_digits [of _ 6 "nat u"] p by (auto simp: p_def)
  have scan: "takeWhile is_digit (ds @ s) = ds" "dropWhile is_digit (ds @ s) = s"
    using digits assms(3,5) by (cases s; simp add: takeWhile_append2 dropWhile_append2)+
  have "take 6 (ds @ ''000000'') = p"
  proof -
    have "length ds + k = 6" using len p by simp
    then have len6: "6 - length ds = k" "min k 6 = k" "length ds \<le> 6" by auto
    have zeros: "''000000'' = replicate 6 (CHR ''0'')" by (simp add: numeral_eq_Suc)
    have "take 6 (ds @ ''000000'') = ds @ replicate k (CHR ''0'')"
      unfolding zeros by (simp only: take_append take_replicate take_all len6)
    then show ?thesis by (simp only: p)
  qed
  then show ?thesis
    using False val scan digits ds
    by (simp add: fraction_text_def fraction_micros_def p_def [symmetric] ds_def [symmetric] Let_def)
qed

lemma zone_offset_text:
  assumes "\<bar>off\<bar> < 86400" and "off mod 60 = 0"
  shows "zone_offset (zone_text off) = Some (off, [])"
    and "zone_text off \<noteq> []" and "hd (zone_text off) \<notin> {CHR ''.'', CHR '',''}" and "\<not> is_digit (hd (zone_text off))"
proof -
  let ?z = "zone_minutes off"
  have z: "0 \<le> ?z" "?z < 1440" using assms(1) unfolding zone_minutes_def by linarith+
  have off: "\<bar>off\<bar> = ?z * 60" using assms(2) unfolding zone_minutes_def by (auto simp: abs_if dvd_eq_mod_eq_0 [symmetric])
  have hm: "0 \<le> ?z div 60" "?z div 60 < 24" "0 \<le> ?z mod 60" "?z mod 60 < 60" "?z div 60 * 60 + ?z mod 60 = ?z"
    using z by (auto simp: pos_imp_zdiv_nonneg_iff)
  show "zone_offset (zone_text off) = Some (off, [])"
  proof (cases "off = 0")
    case False
    then have "?z \<noteq> 0" using off by auto
    moreover have "ranged 0 24 (getnum True (pad0 2 (nat (?z div 60)) @ s)) = Some (?z div 60, s)" for s
      using hm by (simp add: getnum_pad0 ranged_def)
    moreover have "after_literal (CHR '':'') True 0 60 (CHR '':'' # pad0 2 (nat (?z mod 60))) = Some (?z mod 60, [])"
      using hm after_literal_pad0 [of "?z mod 60" 0 60 "CHR '':''" True "[]"] by simp
    moreover have "3600 * (?z div 60) + ?z mod 60 * 60 = \<bar>off\<bar>" using hm(5) off by linarith
    ultimately show ?thesis using False by (auto simp: zone_text_def zone_offset_def Let_def abs_if split: if_splits)
  qed (simp add: zone_text_def zone_offset_def)
  show "zone_text off \<noteq> []" "hd (zone_text off) \<notin> {CHR ''.'', CHR '',''}" "\<not> is_digit (hd (zone_text off))"
    by (auto simp: zone_text_def is_digit_def)
qed

lemma Parse_Format:
  assumes "time_encodable loc t" and "zone_of loc t mod 60 = 0"
  shows "Parse_RFC3339 (Format_RFC3339Nano loc t) = Some t"
proof -
  define r where "r = reading_of (In t loc)"
  define off where "off = zone_of loc t"
  have ok: "reading_ok r" unfolding r_def by (rule reading_of_ok)
  have y: "0 \<le> Year (date r)" "Year (date r) \<le> 9999" and z: "\<bar>off\<bar> < 86400"
    using assms(1) unfolding time_encodable_def r_def [symmetric] off_def [symmetric] zone_minutes_def Let_def by linarith+
  have zone: "zone_offset (zone_text off) = Some (off, [])" and frac: "fraction_micros (fraction_text (Micro r) @ zone_text off) = (Micro r, zone_text off)"
    using zone_offset_text [OF z] assms(2) by (auto simp: off_def r_def reading_of_def Let_def second_def intro!: fraction_micros_text)
  have day: "1 \<le> Day (date r)" "Day (date r) \<le> daysIn (Month (date r)) (Year (date r))"
    using ok Day_in_month by (simp_all add: reading_ok_def r_def reading_of_def Let_def)
  have "wall_of \<lparr>date = \<lparr>Year = Year (date r), Month = Month (date r), Day = Day (date r)\<rparr>, Hour = Hour r,
      Minute = Minute r, Second = Second r, Micro = Micro r\<rparr> = wall_of r"
    by (simp add: wall_of_def days_of_civil_def)
  moreover have "wall_of r - off * second = t"
    by (simp add: r_def In_def offset_at_def off_def zone_of_def)
  moreover have "0 \<le> Month (date r) \<and> Month (date r) < 100 \<and> 0 \<le> Day (date r) \<and> Day (date r) < 100 \<and>
      Hour r < 100 \<and> Minute r < 100 \<and> Second r < 100"
    using ok unfolding reading_ok_def by linarith
  ultimately show ?thesis
    using ok y day
    by (simp add: Format_RFC3339Nano_def r_def [symmetric] off_def [symmetric] Let_def Parse_RFC3339_def time_text_def
        getyear_text after_literal_pad0 reading_ok_def frac zone)
qed

end
