(* ===== verification/Go_JSON_Struct.thy ===== *)
theory Go_JSON_Struct
  imports Go_JSON_Raw Go_JSON_Time
begin

text \<open>
  How encoding/json writes structs, slices and maps, of members and elements that may fail to
  be encoded; and that what it writes is one JSON value with those members and elements.
\<close>

section \<open>Encoding\<close>

text \<open>
  A field under the name its tag gives, in the order of the struct; a field with omitempty is
  there if it has a value. One value that cannot be encoded makes the whole encoding fail.
\<close>

definition marshal_field :: "string \<times> string option \<Rightarrow> string option" where
  "marshal_field f = map_option (\<lambda>lit. [CHR 0x22] @ fst f @ [CHR 0x22, CHR '':''] @ lit) (snd f)"

definition marshal_struct :: "(string \<times> string option) list \<Rightarrow> string option" where
  "marshal_struct fs = map_option (\<lambda>lits. ''{'' @ Join lits '','' @ ''}'') (those (map marshal_field fs))"

definition marshal_slice :: "('a \<Rightarrow> string option) \<Rightarrow> 'a list \<Rightarrow> string option" where
  "marshal_slice f xs = map_option (\<lambda>lits. ''['' @ Join lits '','' @ '']'') (those (map f xs))"

definition omitempty :: "string \<Rightarrow> ('a \<Rightarrow> string option) \<Rightarrow> 'a option \<Rightarrow> (string \<times> string option) list" where
  "omitempty name f x = (case x of None \<Rightarrow> [] | Some y \<Rightarrow> [(name, f y)])"

definition marshal_bool :: "bool \<Rightarrow> string" where
  "marshal_bool b = (if b then ''true'' else ''false'')"

section \<open>Reading it back\<close>

text \<open>More nesting allowed changes nothing.\<close>

lemma parse_deeper:
  "parse_value d s = Some (v, r) \<Longrightarrow> parse_value (d + k) s = Some (v, r)"
  "parse_elems d s = Some (vs, r) \<Longrightarrow> parse_elems (d + k) s = Some (vs, r)"
  "parse_members d s = Some (ms, r) \<Longrightarrow> parse_members (d + k) s = Some (ms, r)"
proof (induction d s and d s and d s arbitrary: v r and vs r and ms r
    rule: parse_value_parse_elems_parse_members.induct)
  case (1 d s)
  note simps = parse_value.simps [of _ s]
  show ?case
  proof (cases "expect (CHR ''['') s")
    case arr: (Some cs)
    then have "d \<noteq> 0" using 1(3) by (auto simp: simps split: if_splits)
    then obtain e where d: "d = Suc e" by (cases d) auto
    show ?thesis using 1(2) [OF arr] 1(3) arr d by (auto simp: simps split: option.splits)
  next
    case noarr: None
    show ?thesis
    proof (cases "expect (CHR ''{'') s")
      case obj: (Some cs)
      then have "d \<noteq> 0" using 1(3) noarr by (auto simp: simps split: if_splits)
      then obtain e where d: "d = Suc e" by (cases d) auto
      show ?thesis using 1(1) [OF noarr obj] 1(3) noarr obj d by (auto simp: simps split: option.splits)
    next
      case None
      then show ?thesis using 1(3) noarr by (simp add: simps)
    qed
  qed
next
  case (2 d s)
  from 2(3) obtain v r1 where v: "parse_value d s = Some (v, r1)"
    by (subst (asm) parse_elems_eq) (auto split: option.splits)
  note v' = 2(1) [OF v]
  show ?case
  proof (cases "expect (CHR '']'') r1")
    case (Some rest)
    then show ?thesis using 2(3) v v' by (simp add: parse_elems_eq [of _ s])
  next
    case None
    then obtain cs vs' where cs: "expect (CHR '','') r1 = Some cs" "parse_elems d cs = Some (vs', r)" "vs = v # vs'"
      using 2(3) v by (auto simp: parse_elems_eq [of d s] split: option.splits)
    have "length cs < length s" using expect_shorter [OF cs(1)] parse_shorter(1) [OF v] by simp
    then show ?thesis
      using 2(2) [OF v refl None cs(1) _ cs(2)] v' None cs(1,3) by (simp add: parse_elems_eq [of _ s])
  qed
next
  case (3 d s)
  from 3(3) obtain key a where key: "scan_key s = Some (key, a)"
    by (subst (asm) parse_members_eq) (auto split: option.splits)
  from 3(3) key obtain v r1 where v: "parse_value d a = Some (v, r1)"
    by (subst (asm) parse_members_eq) (auto split: option.splits)
  note v' = 3(1) [OF key refl v]
  show ?case
  proof (cases "expect (CHR ''}'') r1")
    case (Some rest)
    then show ?thesis using 3(3) key v v' by (simp add: parse_members_eq [of _ s])
  next
    case None
    then obtain cs ms' where cs: "expect (CHR '','') r1 = Some cs" "parse_members d cs = Some (ms', r)"
      "ms = (key, v, value_text a r1) # ms'"
      using 3(3) key v by (auto simp: parse_members_eq [of d s] split: option.splits)
    have "length cs < length s"
      using expect_shorter [OF cs(1)] parse_shorter(1) [OF v] scan_key_shorter [OF key] by simp
    then show ?thesis
      using 3(2) [OF key refl v refl refl None cs(1) _ cs(2)] key v' None cs(1,3) by (simp add: parse_members_eq [of _ s])
  qed
qed

lemma reads_deeper: "reads d lit v \<Longrightarrow> d \<le> e \<Longrightarrow> reads e lit v"
  unfolding reads_def using parse_deeper(1) [of d] by (metis le_add_diff_inverse)

lemma reads_bool: "reads d (marshal_bool b) (JBool b)"
  by (cases b) (simp_all add: reads_def marshal_bool_def parse_value.simps [of d] expect_other scan_atom_def
      skip_space_id scan_literal_def prefix_of_def is_digit_def json_space_def)

lemma reads_null: "reads d ''null'' JNull"
  by (simp add: reads_def parse_value.simps [of d] expect_other scan_atom_def
      skip_space_id scan_literal_def prefix_of_def is_digit_def json_space_def)

text \<open>A name that stands for itself between quotes.\<close>

definition plain_name :: "string \<Rightarrow> bool" where
  "plain_name k \<longleftrightarrow> list_all (\<lambda>c. 32 \<le> byte c \<and> byte c < 128 \<and> c \<noteq> CHR 0x22 \<and> c \<noteq> CHR 0x5C) k"

lemma print_plain_name:
  assumes "plain_name k"
  shows "print_string k = [CHR 0x22] @ k @ [CHR 0x22]" and "utf8_valid k"
proof -
  have "escape k = k \<and> utf8_valid k"
    using assms by (induction k) (auto simp: plain_name_def escape_char_def)
  then show "print_string k = [CHR 0x22] @ k @ [CHR 0x22]" "utf8_valid k" by (simp_all add: print_string_def)
qed

lemma those_Some: "those (map Some xs) = Some xs"
  by (induction xs) simp_all

lemma reads_struct:
  assumes "\<And>k lit v. (k, lit, v) \<in> set ms \<Longrightarrow> plain_name k \<and> reads d lit v"
  shows "\<exists>lit. marshal_struct (map (\<lambda>(k, lit, v). (k, Some lit)) ms) = Some lit
    \<and> reads (Suc d) lit (JObj (map (\<lambda>(k, lit, v). (k, v, lit)) ms))"
proof (cases "ms = []")
  case True
  then show ?thesis using reads_empty(2) by (simp add: marshal_struct_def)
next
  case False
  let ?lit = "print_object (map (\<lambda>(k, lit, v). (k, lit)) ms)"
  have "map marshal_field (map (\<lambda>(k, lit, v). (k, Some lit)) ms) =
      map Some (map print_member (map (\<lambda>(k, lit, v). (k, lit)) ms))"
    using assms print_plain_name(1) by (auto simp: marshal_field_def print_member_def)
  then have "marshal_struct (map (\<lambda>(k, lit, v). (k, Some lit)) ms) = Some ?lit"
    unfolding marshal_struct_def print_object_def by (simp only: those_Some option.map)
  moreover have "parse_value (Suc d) (?lit @ r) = Some (JObj (map (\<lambda>(k, lit, v). (k, v, lit)) ms), r)" for r
    using assms print_plain_name(2) by (intro parse_printed_object [OF False]) blast
  ultimately show ?thesis by (simp add: reads_def print_object_def)
qed

lemma parse_printed_elems:
  assumes "ls \<noteq> []" and "\<And>lit v. (lit, v) \<in> set ls \<Longrightarrow> reads d lit v"
  shows "parse_elems d (Join (map fst ls) '','' @ CHR '']'' # r) = Some (map snd ls, r)"
  using assms
proof (induction ls)
  case (Cons l ls)
  obtain lit v where l: "l = (lit, v)" by (cases l)
  have v: "reads d lit v" using Cons.prems(2) l by simp
  show ?case
  proof (cases ls)
    case Nil
    then show ?thesis using reads_at [OF v, of "CHR '']''" r] l by (simp add: parse_elems_eq [of d] expect_at)
  next
    case (Cons l' ls')
    then have "parse_elems d (Join (map fst ls) '','' @ CHR '']'' # r) = Some (map snd ls, r)"
      using Cons.IH Cons.prems(2) by simp
    then show ?thesis using reads_at [OF v, of "CHR '',''"] l Cons
      by (simp add: parse_elems_eq [of d "lit @ CHR '','' # _"] expect_at expect_other)
  qed
qed simp

lemma reads_slice:
  assumes "\<And>lit v. (lit, v) \<in> set ls \<Longrightarrow> reads d lit v"
  shows "reads (Suc d) (''['' @ Join (map fst ls) '','' @ '']'') (JArr (map snd ls))"
proof (cases ls)
  case (Cons l ls')
  let ?A = "Join (map fst ls) '','' @ '']''"
  have elems: "parse_elems d (?A @ x) = Some (map snd ls, x)" for x
    using parse_printed_elems [of ls d x] assms Cons by simp
  have l: "reads d (fst l) (snd l)" using assms Cons by (cases l) simp
  then have "hd ?A = hd (fst l)" "fst l \<noteq> []" using Cons by (cases ls'; auto simp: reads_def)+
  then have "\<not> json_space (hd ?A)" "hd ?A \<noteq> CHR '']''" using l reads_first(1) [OF l] by (auto simp: reads_def)
  then have "reads (Suc d) (CHR ''['' # ?A) (JArr (map snd ls))" by (intro reads_array elems) simp_all
  then show ?thesis by simp
qed (use reads_empty(1) in simp)

section \<open>What is encoded is JSON\<close>

definition json_at :: "nat \<Rightarrow> string option \<Rightarrow> bool" where
  "json_at d m \<longleftrightarrow> (\<forall>lit. m = Some lit \<longrightarrow> (\<exists>v. reads d lit v))"

lemma json_at_None [simp]: "json_at d None"
  by (simp add: json_at_def)

lemma json_at_reads: "reads d lit v \<Longrightarrow> json_at d (Some lit)"
  by (auto simp: json_at_def)

lemma json_at_deeper: "json_at d m \<Longrightarrow> d \<le> e \<Longrightarrow> json_at e m"
  using reads_deeper by (fastforce simp: json_at_def)

lemma those_list: "those xs = Some ys \<longleftrightarrow> xs = map Some ys"
proof
  show "those xs = Some ys \<Longrightarrow> xs = map Some ys"
    by (induction xs arbitrary: ys) (auto split: option.splits)
qed (simp add: those_Some)

lemma fields_read:
  assumes "\<And>k m. (k, m) \<in> set fs \<Longrightarrow> plain_name k \<and> json_at d m" and "\<And>k m. (k, m) \<in> set fs \<Longrightarrow> m \<noteq> None"
  shows "\<exists>ms. fs = map (\<lambda>(k, lit, v). (k, Some lit)) ms \<and> (\<forall>(k, lit, v) \<in> set ms. plain_name k \<and> reads d lit v)"
  using assms
proof (induction fs)
  case (Cons f fs)
  obtain k m where f: "f = (k, m)" by (cases f)
  then obtain lit where lit: "m = Some lit" "plain_name k" using Cons.prems [of k m] by auto
  then obtain v where v: "reads d lit v" using Cons.prems(1) [of k m] f by (auto simp: json_at_def)
  from Cons obtain ms where "fs = map (\<lambda>(k, lit, v). (k, Some lit)) ms"
    "\<forall>(k, lit, v) \<in> set ms. plain_name k \<and> reads d lit v" by force
  then show ?case using f lit v by (intro exI [of _ "(k, lit, v) # ms"]) simp
qed simp

lemma json_at_struct:
  assumes "\<And>k m. (k, m) \<in> set fs \<Longrightarrow> plain_name k \<and> json_at d m"
  shows "json_at (Suc d) (marshal_struct fs)"
proof (cases "those (map marshal_field fs)")
  case (Some lits)
  then have all: "map marshal_field fs = map Some lits" by (simp add: those_list)
  have some: "m \<noteq> None" if "(k, m) \<in> set fs" for k m
  proof
    assume "m = None"
    with that have "None \<in> set (map marshal_field fs)" by (force simp: marshal_field_def)
    then show False unfolding all by auto
  qed
  have "\<exists>ms. fs = map (\<lambda>(k, lit, v). (k, Some lit)) ms \<and> (\<forall>(k, lit, v) \<in> set ms. plain_name k \<and> reads d lit v)"
    by (rule fields_read) (use assms some in blast)+
  then obtain ms where "fs = map (\<lambda>(k, lit, v). (k, Some lit)) ms"
    "\<forall>(k, lit, v) \<in> set ms. plain_name k \<and> reads d lit v" by blast
  then show ?thesis using reads_struct [of ms d] by (force simp: json_at_def)
qed (simp add: marshal_struct_def)

lemma elems_read:
  assumes "\<And>lit. lit \<in> set lits \<Longrightarrow> \<exists>v. reads d lit v"
  shows "\<exists>ls. lits = map fst ls \<and> (\<forall>(lit, v) \<in> set ls. reads d lit v)"
  using assms
proof (induction lits)
  case (Cons lit lits)
  obtain v where v: "reads d lit v" using Cons.prems by auto
  from Cons obtain ls where "lits = map fst ls" "\<forall>(lit, v) \<in> set ls. reads d lit v" by force
  then show ?case using v by (intro exI [of _ "(lit, v) # ls"]) simp
qed simp

lemma json_at_slice:
  assumes "\<And>x. x \<in> set xs \<Longrightarrow> json_at d (f x)"
  shows "json_at (Suc d) (marshal_slice f xs)"
proof (cases "those (map f xs)")
  case (Some lits)
  then have "map f xs = map Some lits" by (simp add: those_list)
  then have "Some lit \<in> f ` set xs" if "lit \<in> set lits" for lit using that by (metis image_eqI image_set)
  then have "\<exists>v. reads d lit v" if "lit \<in> set lits" for lit using that assms by (force simp: json_at_def)
  from elems_read [OF this] obtain ls where "lits = map fst ls" "\<forall>(lit, v) \<in> set ls. reads d lit v" by blast
  then have "reads (Suc d) (''['' @ Join lits '','' @ '']'') (JArr (map snd ls))"
    using reads_slice [of ls d] by auto
  then show ?thesis using Some by (auto simp: marshal_slice_def json_at_def)
qed (simp add: marshal_slice_def)

end
