(* ===== verification/Api_Responses.thy ===== *)
theory Api_Responses
  imports Api_Bodies Go_JSON_Struct
begin

text \<open>
  The bytes of a response: writeJSON's Encode over the struct tags of internal/domain,
  internal/store and internal/api. The times of a row come from the driver in the process's
  own zone, a parameter; fire times are computed in UTC. A value that cannot be encoded
  leaves the body empty, since the error of Encode is dropped.
\<close>

section \<open>The types with their tags\<close>

abbreviation text_field :: "string \<Rightarrow> string option" where
  "text_field s \<equiv> Some (marshal_string s)"

abbreviation int_field :: "int \<Rightarrow> string option" where
  "int_field i \<equiv> Some (Itoa i)"

definition marshal_Task :: "location \<Rightarrow> Task \<Rightarrow> string option" where
  "marshal_Task loc t = marshal_struct
    ([(''id'', int_field (t_id t)), (''queue'', text_field (t_queue t)),
      (''handler'', text_field (t_handler t)), (''payload'', marshal_raw (t_payload t)),
      (''priority'', int_field (t_priority t)), (''status'', text_field (status_text (t_status t))),
      (''run_at'', marshal_time loc (t_run_at t)), (''attempts'', int_field (t_attempts t)),
      (''max_attempts'', int_field (t_max_attempts t))]
     @ omitempty ''claimed_by'' text_field (t_claimed_by t)
     @ omitempty ''heartbeat_at'' (marshal_time loc) (t_heartbeat_at t)
     @ omitempty ''idempotency_key'' text_field (t_idempotency_key t)
     @ omitempty ''schedule_id'' int_field (t_schedule_id t)
     @ omitempty ''last_error'' text_field (t_last_error t)
     @ [(''created_at'', marshal_time loc (t_created_at t))])"

definition schedule_members :: "location \<Rightarrow> Schedule \<Rightarrow> (string \<times> string option) list" where
  "schedule_members loc s =
    [(''id'', int_field (s_id s)), (''cron'', text_field (s_cron s)),
     (''timezone'', text_field (s_timezone s)), (''queue'', text_field (s_queue s)),
     (''handler'', text_field (s_handler s)), (''payload'', marshal_raw (s_payload s)),
     (''priority'', int_field (s_priority s)), (''max_attempts'', int_field (s_max_attempts s)),
     (''enabled'', Some (marshal_bool (s_enabled s)))]
    @ omitempty ''last_materialized_at'' (marshal_time loc) (s_last_materialized_at s)
    @ [(''created_at'', marshal_time loc (s_created_at s))]"

definition marshal_Schedule :: "location \<Rightarrow> Schedule \<Rightarrow> string option" where
  "marshal_Schedule loc s = marshal_struct (schedule_members loc s)"

text \<open>scheduleResponse: the fields of the embedded schedule come first; a nil slice is null.\<close>

definition marshal_scheduleResponse :: "location \<Rightarrow> Schedule \<Rightarrow> instant list option \<Rightarrow> string option" where
  "marshal_scheduleResponse loc s next = marshal_struct (schedule_members loc s
     @ [(''next_fire_times'',
         case next of None \<Rightarrow> Some ''null'' | Some ts \<Rightarrow> marshal_slice (marshal_time UTC) ts)])"

definition marshal_fieldError :: "fieldError \<Rightarrow> string option" where
  "marshal_fieldError e =
    marshal_struct [(''field'', text_field (Field e)), (''message'', text_field (Message e))]"

definition marshal_fieldErrors :: "string \<Rightarrow> fieldError list \<Rightarrow> (string \<times> string option) list" where
  "marshal_fieldErrors name errs = (if errs = [] then [] else [(name, marshal_slice marshal_fieldError errs)])"

definition marshal_apiErrorBody :: "string \<Rightarrow> string \<Rightarrow> fieldError list \<Rightarrow> string option" where
  "marshal_apiErrorBody code message errs = marshal_struct
    [(''error'', marshal_struct
       ([(''code'', text_field code), (''message'', text_field message)] @ marshal_fieldErrors ''fields'' errs))]"

definition marshal_bulkItemResult :: "location \<Rightarrow> bulkItemResult \<Rightarrow> string option" where
  "marshal_bulkItemResult loc r = marshal_struct
    ([(''index'', int_field (int (Index r))), (''status'', text_field (bulk_Status r))]
     @ omitempty ''task'' (marshal_Task loc) (bulk_Task r) @ marshal_fieldErrors ''errors'' (bulk_Errors r))"

text \<open>A map's keys are sorted.\<close>

definition sorted_statuses :: "Status list" where
  "sorted_statuses =
    [StatusCancelled, StatusDead, StatusFailed, StatusPending, StatusRunning, StatusSucceeded]"

definition marshal_depth :: "(Status \<rightharpoonup> nat) \<Rightarrow> string option" where
  "marshal_depth depth = marshal_struct
    (concat (map (\<lambda>st. omitempty (status_text st) int_field (map_option int (depth st))) sorted_statuses))"

text \<open>
  A float64 of seconds that counts microseconds: the fewest digits that mean it, which are the
  decimals of the count while it has no more than fifteen digits (31 years).
\<close>

definition seconds_text :: "real \<Rightarrow> string" where
  "seconds_text x = (let u = \<lfloor>x * 1000000\<rfloor> in Itoa (u div 1000000) @ fraction_text (u mod 1000000))"

definition marshal_QueueStats :: "StoreQueueStats \<Rightarrow> string option" where
  "marshal_QueueStats s = marshal_struct
    [(''queue'', text_field (qs_queue s)), (''depth'', marshal_depth (qs_depth s)),
     (''oldest_pending_age_seconds'', Some (seconds_text (qs_oldest_pending_age_seconds s))),
     (''completed_last_minute'', int_field (int (qs_completed_last_minute s))),
     (''completed_last_hour'', int_field (int (qs_completed_last_hour s))),
     (''completed_last_day'', int_field (int (qs_completed_last_day s)))]"

section \<open>writeJSON's Encode\<close>

fun marshal_body :: "location \<Rightarrow> body \<Rightarrow> string option" where
  "marshal_body loc NoBody = Some []"
| "marshal_body loc (ErrorBody code message errs) = marshal_apiErrorBody code message errs"
| "marshal_body loc (StatusBody s) = marshal_struct [(''status'', text_field s)]"
| "marshal_body loc (TaskBody t) = marshal_Task loc t"
| "marshal_body loc (BulkBody rs) = marshal_struct [(''results'', marshal_slice (marshal_bulkItemResult loc) rs)]"
| "marshal_body loc (StatsBody s) = marshal_QueueStats s"
| "marshal_body loc (ScheduleBody s) = marshal_Schedule loc s"
| "marshal_body loc (CreatedScheduleBody s next) = marshal_scheduleResponse loc s next"
| "marshal_body loc (SchedulesBody ss) = marshal_slice (marshal_Schedule loc) ss"

definition Encode :: "location \<Rightarrow> body \<Rightarrow> string option" where
  "Encode loc b = map_option (\<lambda>lit. lit @ [CHR 0x0A]) (marshal_body loc b)"

text \<open>What the client receives: nothing for a response without a body, and nothing after an error.\<close>

definition response_text :: "location \<Rightarrow> body \<Rightarrow> string" where
  "response_text loc b = (if b = NoBody then [] else case Encode loc b of None \<Rightarrow> [] | Some s \<Rightarrow> s)"


section \<open>Every body is JSON\<close>

lemma omitempty_iff: "(k, m) \<in> set (omitempty name f x) \<longleftrightarrow> k = name \<and> (\<exists>y. x = Some y \<and> m = f y)"
  by (auto simp: omitempty_def split: option.splits)

lemma task_names [simp]:
  "plain_name ''id''" "plain_name ''queue''" "plain_name ''handler''" "plain_name ''payload''"
  "plain_name ''priority''" "plain_name ''status''" "plain_name ''run_at''" "plain_name ''attempts''"
  "plain_name ''max_attempts''" "plain_name ''claimed_by''" "plain_name ''heartbeat_at''"
  "plain_name ''idempotency_key''" "plain_name ''schedule_id''" "plain_name ''last_error''"
  "plain_name ''created_at''"
  by (simp_all add: plain_name_def byte_def)

lemma schedule_names [simp]:
  "plain_name ''cron''" "plain_name ''timezone''" "plain_name ''enabled''"
  "plain_name ''last_materialized_at''" "plain_name ''next_fire_times''"
  by (simp_all add: plain_name_def byte_def)

lemma answer_names [simp]:
  "plain_name ''field''" "plain_name ''message''" "plain_name ''fields''" "plain_name ''error''"
  "plain_name ''code''" "plain_name ''index''" "plain_name ''task''" "plain_name ''errors''" "plain_name ''results''"
  by (simp_all add: plain_name_def byte_def)

lemma stats_names [simp]:
  "plain_name ''depth''" "plain_name ''oldest_pending_age_seconds''" "plain_name ''completed_last_minute''"
  "plain_name ''completed_last_hour''" "plain_name ''completed_last_day''" "plain_name (status_text st)"
  by (simp_all add: plain_name_def byte_def) (cases st; simp add: byte_def)

lemma json_string [simp]: "json_at d (text_field s)"
  by (rule json_at_reads [OF reads_marshal_string])

lemma json_int [simp]: "json_at d (int_field i)"
  by (rule json_at_reads [OF reads_Itoa])

lemma json_bool [simp]: "json_at d (Some (marshal_bool b))"
  by (rule json_at_reads [OF reads_bool])

lemma json_null [simp]: "json_at d (Some ''null'')"
  by (rule json_at_reads [OF reads_null])

lemma json_raw [simp]: "json_at maxNestingDepth (marshal_raw m)"
proof (cases m)
  case (Some raw)
  show ?thesis
  proof (cases "unmarshal_value raw")
    case (Some v)
    then obtain r where "parse_value maxNestingDepth raw = Some (v, r)" "skip_space r = []"
      by (auto simp: unmarshal_value_def split: option.splits prod.splits if_splits)
    from compacted_reads [OF this] show ?thesis
      using \<open>m = Some raw\<close> Some by (auto simp: marshal_raw_def json_at_def)
  qed (use Some in \<open>simp add: marshal_raw_def\<close>)
qed (simp add: marshal_raw_def)

text \<open>A time is a string without anything to escape.\<close>

definition time_char :: "char \<Rightarrow> bool" where
  "time_char c \<longleftrightarrow> is_digit c \<or> c \<in> {CHR ''-'', CHR '':'', CHR ''.'', CHR ''T'', CHR ''Z'', CHR ''+''}"

lemma time_chars: "list_all time_char (Format_RFC3339Nano loc t)"
proof -
  have pad: "list_all time_char (pad0 w n)" for w n
    by (auto simp: list_all_iff time_char_def dest: pad0_digits)
  have frac: "list_all time_char (fraction_text u)" for u
    using pad0_digits [of _ 6 "nat u"] by (auto simp: fraction_text_def list_all_iff time_char_def dest!: set_dropWhileD)
  show ?thesis
    by (simp add: Format_RFC3339Nano_def year_text_def time_text_def zone_text_def pad frac Let_def)
      (simp add: time_char_def)
qed

lemma reads_plain:
  assumes "plain_name s"
  shows "reads d ([CHR 0x22] @ s @ [CHR 0x22]) (JStr s)"
  using reads_string [OF print_plain_name(2) [OF assms]] print_plain_name(1) [OF assms] by metis

lemma reads_time: "reads d ([CHR 0x22] @ Format_RFC3339Nano loc t @ [CHR 0x22]) (JStr (Format_RFC3339Nano loc t))"
proof (rule reads_plain)
  show "plain_name (Format_RFC3339Nano loc t)"
    using time_chars [of loc t] unfolding plain_name_def list_all_iff
    by (auto simp: time_char_def is_digit_def byte_def)
qed

lemma json_time [simp]: "json_at d (marshal_time loc t)"
  using json_at_reads [OF reads_time [of d loc t]] by (simp add: marshal_time_def)

lemma scan_number_decimal:
  assumes "0 \<le> f" and "f < 1000000" and "ends_number r"
  shows "scan_number (Itoa i @ fraction_text f @ r) = Some (Itoa i @ fraction_text f, r)"
proof -
  have frac: "scan_frac (fraction_text f @ r) = Some (fraction_text f, r)"
  proof (cases "f = 0")
    case True
    then show ?thesis using ends_number_simps(2) [OF assms(3)] by (simp add: fraction_text_def)
  next
    case False
    define ds where "ds = tl (fraction_text f)"
    have f: "fraction_text f = CHR ''.'' # ds" using False by (simp add: fraction_text_def ds_def)
    have "ds \<noteq> []"
    proof
      assume "ds = []"
      then have "fraction_micros (fraction_text f @ ''Z'') = (0, ''.Z'')"
        by (simp add: f fraction_micros_def is_digit_def)
      then show False using fraction_micros_text [of f "''Z''"] assms False by (simp add: is_digit_def)
    qed
    moreover have "list_all is_digit ds"
      using pad0_digits [of _ 6 "nat f"] False
      by (auto simp: ds_def fraction_text_def list_all_iff dest!: set_dropWhileD)
    ultimately have "digits_then (ds @ r) = Some (ds, r)"
      using ends_number_simps(1) [OF assms(3)] by (simp add: digits_then_iff)
    then show ?thesis by (simp add: f scan_frac_def)
  qed
  have "stops (fraction_text f @ r)"
    using ends_number_simps(1) [OF assms(3)] by (cases "f = 0") (simp_all add: fraction_text_def stops_def is_digit_def)
  then have int: "scan_int (show_nat n @ fraction_text f @ r) = Some (show_nat n, fraction_text f @ r)" for n
    using scan_int_parts(4) [OF scan_int_show [of "'',''" n]] by (simp add: ends_number_def)
  have "show_nat n \<noteq> [] \<and> hd (show_nat n) \<noteq> CHR ''-''" for n
  proof -
    obtain c cs where "show_nat n = c # cs" "is_digit c" by (rule show_nat_first)
    then show ?thesis by (auto simp: is_digit_def)
  qed
  then show ?thesis
    using int frac ends_number_simps(3) [OF assms(3)] by (auto simp: scan_number_def Itoa_def)
qed

lemma json_seconds [simp]: "json_at d (Some (seconds_text x))"
proof -
  define u where "u = \<lfloor>x * 1000000\<rfloor>"
  let ?n = "Itoa (u div 1000000) @ fraction_text (u mod 1000000)"
  have num: "scan_number (?n @ r) = Some (?n, r)" if "ends_number r" for r
    using scan_number_decimal [of "u mod 1000000" r "u div 1000000"] that by simp
  obtain c cs where c: "?n = c # cs" "c = CHR ''-'' \<or> is_digit c"
    by (cases "u div 1000000 < 0"; rule show_nat_first [of "nat (u div 1000000)"]) (auto simp: Itoa_def)
  then have first: "\<not> json_space c" "c \<noteq> CHR ''[''" "c \<noteq> CHR ''{''" "c \<noteq> CHR 0x22"
    by (auto simp: json_space_def is_digit_def)
  have "parse_value d (?n @ r) = Some (JNum ?n, r)" if "ends_number r" for r
    using num [OF that] c(2) first unfolding c(1)
    by (auto simp: parse_value.simps [of d "c # cs @ r"] expect_other scan_atom_def skip_space_id)
  then have "reads d ?n (JNum ?n)" using c(1) first by (simp add: reads_def)
  then show ?thesis unfolding seconds_text_def Let_def u_def [symmetric] by (rule json_at_reads)
qed


lemma json_fieldErrors: "(k, m) \<in> set (marshal_fieldErrors name errs) \<Longrightarrow> k = name \<and> json_at (Suc (Suc d)) m"
  by (auto simp: marshal_fieldErrors_def marshal_fieldError_def intro!: json_at_slice json_at_struct split: if_splits)

lemma json_Task: "json_at (Suc maxNestingDepth) (marshal_Task loc t)"
  unfolding marshal_Task_def by (rule json_at_struct) (auto simp: omitempty_iff)

lemma schedule_members_json:
  "(k, m) \<in> set (schedule_members loc s) \<Longrightarrow> plain_name k \<and> json_at maxNestingDepth m"
  by (auto simp: schedule_members_def omitempty_iff)

lemma json_Schedule: "json_at (Suc maxNestingDepth) (marshal_Schedule loc s)"
  unfolding marshal_Schedule_def by (rule json_at_struct) (rule schedule_members_json)

lemma depth_Suc: obtains e where "maxNestingDepth = Suc (Suc (Suc e))"
  by (rule that [of 9997]) (simp add: maxNestingDepth_def)

lemma json_scheduleResponse: "json_at (Suc maxNestingDepth) (marshal_scheduleResponse loc s next)"
proof -
  obtain e where e: "maxNestingDepth = Suc (Suc (Suc e))" by (rule depth_Suc)
  have "json_at maxNestingDepth (case next of None \<Rightarrow> Some ''null'' | Some ts \<Rightarrow> marshal_slice (marshal_time UTC) ts)"
    unfolding e by (auto intro!: json_at_slice split: option.split)
  then show ?thesis
    unfolding marshal_scheduleResponse_def
    by (intro json_at_struct) (use schedule_members_json in \<open>auto split: option.splits\<close>)
qed

lemma json_bulkItemResult: "json_at (Suc (Suc maxNestingDepth)) (marshal_bulkItemResult loc r)"
proof -
  obtain e where e: "maxNestingDepth = Suc (Suc (Suc e))" by (rule depth_Suc)
  have "plain_name k \<and> json_at (Suc maxNestingDepth) m" if "(k, m) \<in> set (marshal_fieldErrors ''errors'' (bulk_Errors r))" for k m
    using json_fieldErrors [OF that, of "Suc (Suc e)"] e by auto
  then show ?thesis
    unfolding marshal_bulkItemResult_def by (intro json_at_struct) (use json_Task in \<open>auto simp: omitempty_iff\<close>)
qed

lemma json_QueueStats: "json_at (Suc (Suc d)) (marshal_QueueStats s)"
proof -
  have "json_at (Suc d) (marshal_depth depth)" for depth
    unfolding marshal_depth_def by (rule json_at_struct) (auto simp: omitempty_iff)
  then show ?thesis unfolding marshal_QueueStats_def by (intro json_at_struct) auto
qed

lemma json_apiErrorBody: "json_at (Suc (Suc (Suc (Suc d)))) (marshal_apiErrorBody code message errs)"
proof -
  have "plain_name k \<and> json_at (Suc (Suc d)) m" if "(k, m) \<in> set (marshal_fieldErrors ''fields'' errs)" for k m
    using json_fieldErrors [OF that] by auto
  then have "json_at (Suc (Suc (Suc d))) (marshal_struct
      ([(''code'', text_field code), (''message'', text_field message)] @ marshal_fieldErrors ''fields'' errs))"
    by (intro json_at_struct) auto
  then show ?thesis unfolding marshal_apiErrorBody_def by (intro json_at_struct) auto
qed

text \<open>A payload is at the depth that decoding allows it, inside at most four levels of the answer.\<close>

lemma json_body:
  assumes "b \<noteq> NoBody"
  shows "json_at (maxNestingDepth + 4) (marshal_body loc b)"
proof -
  obtain e where e: "maxNestingDepth = Suc (Suc (Suc e))" by (rule depth_Suc)
  let ?M = maxNestingDepth
  have "json_at (?M + 4) m" if "json_at (Suc (Suc (Suc (Suc ?M)))) m" for m using that by (simp add: eval_nat_numeral)
  moreover have "json_at (Suc (Suc (Suc (Suc ?M)))) (marshal_body loc b)"
  proof (cases b)
    case (ErrorBody code message errs)
    then show ?thesis using json_apiErrorBody by simp
  next
    case (StatusBody x)
    then show ?thesis by (auto intro!: json_at_struct)
  next
    case (TaskBody t)
    then show ?thesis using json_at_deeper [OF json_Task] by simp
  next
    case (BulkBody rs)
    have "json_at (Suc (Suc (Suc ?M))) (marshal_slice (marshal_bulkItemResult loc) rs)"
      by (rule json_at_slice) (rule json_bulkItemResult)
    then show ?thesis using BulkBody by (auto intro!: json_at_struct)
  next
    case (StatsBody s)
    then show ?thesis using json_QueueStats by simp
  next
    case (ScheduleBody s)
    then show ?thesis using json_at_deeper [OF json_Schedule] by simp
  next
    case (CreatedScheduleBody s fires)
    then show ?thesis using json_at_deeper [OF json_scheduleResponse] by simp
  next
    case (SchedulesBody ss)
    have "json_at (Suc (Suc ?M)) (marshal_slice (marshal_Schedule loc) ss)"
      by (rule json_at_slice) (rule json_Schedule)
    then show ?thesis using SchedulesBody json_at_deeper by simp
  qed (use assms in simp)
  ultimately show ?thesis by blast
qed

text \<open>What stands in a body that can fail to be encoded: times, and payloads that are no JSON.\<close>

definition payload_encodable :: "string option \<Rightarrow> bool" where
  "payload_encodable p \<longleftrightarrow> (case p of None \<Rightarrow> True | Some raw \<Rightarrow> unmarshal_value raw \<noteq> None)"

definition task_encodable :: "location \<Rightarrow> Task \<Rightarrow> bool" where
  "task_encodable loc t \<longleftrightarrow> payload_encodable (t_payload t) \<and> time_encodable loc (t_run_at t)
    \<and> pred_option (time_encodable loc) (t_heartbeat_at t) \<and> time_encodable loc (t_created_at t)"

definition schedule_encodable :: "location \<Rightarrow> Schedule \<Rightarrow> bool" where
  "schedule_encodable loc s \<longleftrightarrow> payload_encodable (s_payload s)
    \<and> pred_option (time_encodable loc) (s_last_materialized_at s) \<and> time_encodable loc (s_created_at s)"

fun encodable :: "location \<Rightarrow> body \<Rightarrow> bool" where
  "encodable loc (TaskBody t) = task_encodable loc t"
| "encodable loc (BulkBody rs) = list_all (\<lambda>r. pred_option (task_encodable loc) (bulk_Task r)) rs"
| "encodable loc (ScheduleBody s) = schedule_encodable loc s"
| "encodable loc (CreatedScheduleBody s next) =
    (schedule_encodable loc s \<and> pred_option (list_all (time_encodable UTC)) next)"
| "encodable loc (SchedulesBody ss) = list_all (schedule_encodable loc) ss"
| "encodable loc _ = True"


lemma those_None: "those xs = None \<longleftrightarrow> None \<in> set xs"
  by (induction xs) (auto split: option.splits)

abbreviation some_missing :: "(string \<times> string option) list \<Rightarrow> bool" where
  "some_missing fs \<equiv> list_ex (\<lambda>f. snd f = None) fs"

lemma marshal_struct_None: "marshal_struct fs = None \<longleftrightarrow> some_missing fs"
  by (auto simp: marshal_struct_def those_None marshal_field_def list_ex_iff image_iff)

lemma marshal_slice_None: "marshal_slice f xs = None \<longleftrightarrow> list_ex (\<lambda>x. f x = None) xs"
  by (auto simp: marshal_slice_def those_None list_ex_iff image_iff eq_commute [of None])

lemma marshal_leaves_None:
  "marshal_raw p = None \<longleftrightarrow> \<not> payload_encodable p"
  "marshal_time loc t = None \<longleftrightarrow> \<not> time_encodable loc t"
  by (simp_all add: marshal_raw_def payload_encodable_def marshal_time_def split: option.splits)

lemma omitempty_missing: "some_missing (omitempty name f x) \<longleftrightarrow> (\<exists>y. x = Some y \<and> f y = None)"
  by (cases x) (simp_all add: omitempty_def)

lemmas marshal_None = marshal_struct_None marshal_slice_None marshal_leaves_None omitempty_missing

lemma marshal_Task_None: "marshal_Task loc t = None \<longleftrightarrow> \<not> task_encodable loc t"
  by (cases "t_heartbeat_at t") (simp_all add: marshal_Task_def marshal_None task_encodable_def)

lemma schedule_members_None: "some_missing (schedule_members loc s) \<longleftrightarrow> \<not> schedule_encodable loc s"
  by (cases "s_last_materialized_at s") (simp_all add: schedule_members_def marshal_None schedule_encodable_def)

lemma marshal_Schedule_None: "marshal_Schedule loc s = None \<longleftrightarrow> \<not> schedule_encodable loc s"
  by (simp add: marshal_Schedule_def marshal_None schedule_members_None)

lemma fieldErrors_Some: "\<not> some_missing (marshal_fieldErrors name errs)"
proof -
  have "marshal_fieldError e \<noteq> None" for e by (simp add: marshal_fieldError_def marshal_None del: not_None_eq)
  then show ?thesis by (simp add: marshal_fieldErrors_def marshal_None list_ex_iff del: not_None_eq)
qed

lemma marshal_bulkItemResult_None:
  "marshal_bulkItemResult loc r = None \<longleftrightarrow> \<not> pred_option (task_encodable loc) (bulk_Task r)"
  by (cases "bulk_Task r")
    (simp_all add: marshal_bulkItemResult_def marshal_None fieldErrors_Some marshal_Task_None)

lemma marshal_QueueStats_Some: "marshal_QueueStats s \<noteq> None"
proof -
  have "marshal_depth depth \<noteq> None" for depth
    by (simp add: marshal_depth_def marshal_None sorted_statuses_def)
  then show ?thesis by (simp only: marshal_QueueStats_def marshal_None) simp
qed

lemma marshal_apiErrorBody_Some: "marshal_apiErrorBody code message errs \<noteq> None"
  by (simp add: marshal_apiErrorBody_def marshal_None fieldErrors_Some del: not_None_eq)

lemma marshal_body_None: "marshal_body loc b = None \<longleftrightarrow> \<not> encodable loc b"
proof (cases b)
  case (CreatedScheduleBody s fires)
  then show ?thesis
    using schedule_members_None [of loc s]
    by (cases fires) (auto simp: marshal_scheduleResponse_def marshal_None list_all_iff list_ex_iff)
next
  case (BulkBody rs)
  then show ?thesis by (simp add: marshal_None marshal_bulkItemResult_None list_all_iff list_ex_iff)
next
  case (SchedulesBody ss)
  then show ?thesis by (simp add: marshal_None marshal_Schedule_None list_all_iff list_ex_iff)
next
  case (ErrorBody code message errs)
  then show ?thesis using marshal_apiErrorBody_Some by simp
next
  case (StatsBody s)
  then show ?thesis using marshal_QueueStats_Some by simp
qed (simp_all add: marshal_Task_None marshal_Schedule_None marshal_None)

text \<open>A body is one JSON value and a newline, or nothing where it cannot be encoded.\<close>

lemma every_body_is_one_json_value:
  "(response_text loc b = [] \<or> (\<exists>v. parse_value (maxNestingDepth + 4) (response_text loc b) = Some (v, [CHR 0x0A])))
    \<and> response_text loc b \<noteq> [] = (b \<noteq> NoBody \<and> encodable loc b)"
proof (cases "marshal_body loc b")
  case None
  then have "response_text loc b = []" by (simp add: response_text_def Encode_def)
  then show ?thesis using None marshal_body_None by simp
next
  case (Some lit)
  show ?thesis
  proof (cases "b = NoBody")
    case False
    then have lit: "response_text loc b = lit @ [CHR 0x0A]" using Some by (simp add: response_text_def Encode_def)
    obtain v where v: "reads (maxNestingDepth + 4) lit v"
      using json_body [OF False, of loc] Some by (auto simp: json_at_def)
    have "parse_value (maxNestingDepth + 4) (lit @ [CHR 0x0A]) = Some (v, [CHR 0x0A])"
      using v by (simp add: reads_def ends_number_def)
    moreover have "encodable loc b" using marshal_body_None [of loc b] Some by simp
    ultimately show ?thesis using lit False by auto
  qed (simp add: response_text_def)
qed


text \<open>
  C29. Every request, with any body, id and header, is answered with one of the API's statuses,
  whichever of its statements or their answers the connection to the database loses: no
  handler panics and none waits forever. The bytes of the answer are one JSON value and a
  newline, whatever strings, payloads and numbers stand in it, or they are none: exactly when
  there is no body to send or it holds a time outside the years 0 to 9999 of the server's zone
  or a payload that is not JSON. The request id is echoed, and the database stays in a state
  that the store's own operations reach.
\<close>

theorem every_request_is_answered:
  assumes "reachable d" and "env_ok (cron_lib e)"
  shows "\<exists>d' resp. routes e (net_api_store lk) now r d = (d', Responds resp)
    \<and> serve e (net_api_store lk) reqID now r d
      = (d', Responds (if reqID = [] then resp else resp\<lparr>rs_request_id := Some reqID\<rparr>))
    \<and> rs_status resp \<in> {200, 201, 204, 400, 404, 409, 500, 503} \<and> reachable d'
    \<and> (response_text loc (rs_body resp) = []
        \<or> (\<exists>v. parse_value (maxNestingDepth + 4) (response_text loc (rs_body resp)) = Some (v, [CHR 0x0A])))
    \<and> (response_text loc (rs_body resp) \<noteq> []) = (rs_body resp \<noteq> NoBody \<and> encodable loc (rs_body resp))"
proof -
  obtain d' resp where "routes e (net_api_store lk) now r d = (d', Responds resp)"
    "rs_status resp \<in> {200, 201, 204, 400, 404, 409, 500, 503}" "reachable d'"
    using net_api_answers [OF assms] by blast
  then show ?thesis
    using every_body_is_one_json_value [of loc "rs_body resp"]
    by (intro exI [of _ d'] exI [of _ resp]) (simp add: serve_def setRequestIDHeader_def panic_recoverer_def)
qed

lemma every_request_is_answered_witness:
  "\<exists>d' resp. routes sample_env (net_api_store (only_ping None)) 0 (PostSchedules ''{}'') sample_submitted = (d', Responds resp)
    \<and> rs_status resp \<in> {200, 201, 204, 400, 404, 409, 500, 503} \<and> reachable d'"
proof -
  have "env_ok (cron_lib sample_env)" by (simp add: sample_env_def once_env_ok)
  from every_request_is_answered [OF sample_reachable(1) this, of "only_ping None" 0 "PostSchedules ''{}''" "[]" UTC]
  show ?thesis by auto
qed

section \<open>What a client reads in a task\<close>

text \<open>The fields of an object, as a client of the documented types reads them.\<close>

definition member :: "(string \<times> json \<times> string) list \<Rightarrow> string \<Rightarrow> json option" where
  "member ms k = map_option fst (map_of ms k)"

definition shown_int :: "(string \<times> json \<times> string) list \<Rightarrow> string \<Rightarrow> int option" where
  "shown_int ms k = (case member ms k of Some (JNum n) \<Rightarrow> ParseInt n | _ \<Rightarrow> None)"

definition shown_text :: "(string \<times> json \<times> string) list \<Rightarrow> string \<Rightarrow> string option" where
  "shown_text ms k = (case member ms k of Some (JStr s) \<Rightarrow> Some s | _ \<Rightarrow> None)"

definition shown_time :: "(string \<times> json \<times> string) list \<Rightarrow> string \<Rightarrow> instant option" where
  "shown_time ms k = Option.bind (shown_text ms k) Parse_RFC3339"

definition shown_data :: "(string \<times> json \<times> string) list \<Rightarrow> string \<Rightarrow> json option" where
  "shown_data ms k = map_option bare (member ms k)"

text \<open>The object says of a task all there is: absent fields where it has none, the payload as data.\<close>

definition shows_task :: "(string \<times> json \<times> string) list \<Rightarrow> Task \<Rightarrow> bool" where
  "shows_task ms t \<longleftrightarrow>
    shown_int ms ''id'' = Some (t_id t) \<and> shown_text ms ''queue'' = Some (t_queue t)
    \<and> shown_text ms ''handler'' = Some (t_handler t)
    \<and> shown_data ms ''payload'' = map_option bare (Option.bind (t_payload t) unmarshal_value)
    \<and> shown_int ms ''priority'' = Some (t_priority t)
    \<and> shown_text ms ''status'' = Some (status_text (t_status t))
    \<and> shown_time ms ''run_at'' = Some (t_run_at t) \<and> shown_int ms ''attempts'' = Some (t_attempts t)
    \<and> shown_int ms ''max_attempts'' = Some (t_max_attempts t)
    \<and> shown_text ms ''claimed_by'' = t_claimed_by t \<and> shown_time ms ''heartbeat_at'' = t_heartbeat_at t
    \<and> shown_text ms ''idempotency_key'' = t_idempotency_key t
    \<and> shown_int ms ''schedule_id'' = t_schedule_id t \<and> shown_text ms ''last_error'' = t_last_error t
    \<and> shown_time ms ''created_at'' = Some (t_created_at t)"

text \<open>Texts in UTF-8, 64-bit integers, a payload of JSON and times of four-digit years.\<close>

definition presentable :: "location \<Rightarrow> Task \<Rightarrow> bool" where
  "presentable loc t \<longleftrightarrow> task_encodable loc t \<and> t_payload t \<noteq> None
    \<and> utf8_valid (t_queue t) \<and> utf8_valid (t_handler t) \<and> pred_option utf8_valid (t_claimed_by t)
    \<and> pred_option utf8_valid (t_idempotency_key t) \<and> pred_option utf8_valid (t_last_error t)
    \<and> int64_range (t_id t) \<and> int64_range (t_priority t) \<and> int64_range (t_attempts t)
    \<and> int64_range (t_max_attempts t) \<and> pred_option int64_range (t_schedule_id t)"

text \<open>A zone whose offsets are whole minutes, as RFC 3339 writes them.\<close>

definition whole_minutes :: "location \<Rightarrow> bool" where
  "whole_minutes loc \<longleftrightarrow> first_offset loc mod 60 = 0 \<and> list_all (\<lambda>(_, off). off mod 60 = 0) (transitions loc)"

lemma zone_of_whole:
  assumes "whole_minutes loc"
  shows "zone_of loc t mod 60 = 0"
proof -
  have "fst (lookup_from off start ts s) mod 60 = 0"
    if "off mod 60 = 0" "list_all (\<lambda>(_, off). off mod 60 = 0) ts" for off start ts s
    using that by (induction off start ts s rule: lookup_from.induct) auto
  then show ?thesis using assms by (simp add: zone_of_def lookup_def whole_minutes_def)
qed

abbreviation time_lit :: "location \<Rightarrow> instant \<Rightarrow> string" where
  "time_lit loc t \<equiv> [CHR 0x22] @ Format_RFC3339Nano loc t @ [CHR 0x22]"

definition present :: "string \<Rightarrow> ('a \<Rightarrow> string \<times> json) \<Rightarrow> 'a option \<Rightarrow> (string \<times> string \<times> json) list" where
  "present name f x = (case x of None \<Rightarrow> [] | Some y \<Rightarrow> [(name, f y)])"

lemma map_of_present:
  "map_of (present name f x @ rest) k =
    (if k = name then (case x of None \<Rightarrow> map_of rest k | Some y \<Rightarrow> Some (f y)) else map_of rest k)"
  by (cases x) (simp_all add: present_def)

definition as_text :: "string \<Rightarrow> string \<times> json" where
  "as_text s = (marshal_string s, JStr (repaired s))"

definition as_int :: "int \<Rightarrow> string \<times> json" where
  "as_int i = (Itoa i, JNum (Itoa i))"

definition as_time :: "location \<Rightarrow> instant \<Rightarrow> string \<times> json" where
  "as_time loc t = (time_lit loc t, JStr (Format_RFC3339Nano loc t))"

definition task_members :: "location \<Rightarrow> string \<times> json \<Rightarrow> Task \<Rightarrow> (string \<times> string \<times> json) list" where
  "task_members loc p t =
    (''id'', as_int (t_id t)) # (''queue'', as_text (t_queue t)) # (''handler'', as_text (t_handler t))
    # (''payload'', p) # (''priority'', as_int (t_priority t)) # (''status'', as_text (status_text (t_status t)))
    # (''run_at'', as_time loc (t_run_at t)) # (''attempts'', as_int (t_attempts t))
    # (''max_attempts'', as_int (t_max_attempts t))
    # present ''claimed_by'' as_text (t_claimed_by t) @ present ''heartbeat_at'' (as_time loc) (t_heartbeat_at t)
    @ present ''idempotency_key'' as_text (t_idempotency_key t) @ present ''schedule_id'' as_int (t_schedule_id t)
    @ present ''last_error'' as_text (t_last_error t) @ [(''created_at'', as_time loc (t_created_at t))]"

lemma present_omitempty:
  "(\<And>y. x = Some y \<Longrightarrow> g y = Some (fst (f y))) \<Longrightarrow>
    map (\<lambda>(k, lit, v). (k, Some lit)) (present name f x) = omitempty name g x"
  by (cases x) (auto simp: present_def omitempty_def split: prod.splits)

lemma marshal_Task_members:
  assumes "task_encodable loc t" and "marshal_raw (t_payload t) = Some (fst p)"
  shows "marshal_Task loc t = marshal_struct (map (\<lambda>(k, lit, v). (k, Some lit)) (task_members loc p t))"
proof -
  have time: "marshal_time loc (t_run_at t) = Some (fst (as_time loc (t_run_at t)))"
    "marshal_time loc (t_created_at t) = Some (fst (as_time loc (t_created_at t)))"
    "\<And>h. t_heartbeat_at t = Some h \<Longrightarrow> marshal_time loc h = Some (fst (as_time loc h))"
    using assms(1) by (auto simp: task_encodable_def marshal_time_def as_time_def)
  have omit: "map (\<lambda>(k, lit, v). (k, Some lit)) (present ''heartbeat_at'' (as_time loc) (t_heartbeat_at t)) =
      omitempty ''heartbeat_at'' (marshal_time loc) (t_heartbeat_at t)"
    "map (\<lambda>(k, lit, v). (k, Some lit)) (present name as_text x) = omitempty name text_field x"
    "map (\<lambda>(k, lit, v). (k, Some lit)) (present name as_int y) = omitempty name int_field y" for name x y
    by (rule present_omitempty, simp add: time as_text_def as_int_def)+
  show ?thesis
    unfolding marshal_Task_def task_members_def
    by (simp only: map_append list.map omit append_Cons append_Nil)
      (simp add: time assms(2) as_text_def as_int_def case_prod_unfold)
qed

lemma task_members_read:
  assumes "reads maxNestingDepth (fst p) (snd p)" and "(k, lit, v) \<in> set (task_members loc p t)"
  shows "plain_name k \<and> reads maxNestingDepth lit v"
proof -
  have leaf: "reads maxNestingDepth (fst (as_text x)) (snd (as_text x))"
    "reads maxNestingDepth (fst (as_int i)) (snd (as_int i))"
    "reads maxNestingDepth (fst (as_time loc u)) (snd (as_time loc u))" for x i u
    using reads_marshal_string reads_Itoa reads_time [of maxNestingDepth loc u]
    by (simp_all add: as_text_def as_int_def as_time_def)
  have pres: "(k, lit, v) \<in> set (present name f x) \<Longrightarrow> k = name \<and> (\<exists>y. (lit, v) = f y)" for name f x
    by (cases x) (auto simp: present_def)
  have some: "(lit, v) = as_text x \<Longrightarrow> reads maxNestingDepth lit v"
    "(lit, v) = as_int i \<Longrightarrow> reads maxNestingDepth lit v"
    "(lit, v) = as_time loc u \<Longrightarrow> reads maxNestingDepth lit v"
    for x i u
    using leaf(1) [of x] leaf(2) [of i] leaf(3) [of u] by (metis fst_conv snd_conv)+
  show ?thesis using assms by (cases p) (auto simp: task_members_def dest!: pres some)
qed

lemma shown_members:
  "shown_int (map (\<lambda>(k, lit, v). (k, v, lit)) ms) k =
    (case map_of ms k of Some (lit, JNum n) \<Rightarrow> ParseInt n | _ \<Rightarrow> None)"
  "shown_text (map (\<lambda>(k, lit, v). (k, v, lit)) ms) k =
    (case map_of ms k of Some (lit, JStr s) \<Rightarrow> Some s | _ \<Rightarrow> None)"
  "shown_data (map (\<lambda>(k, lit, v). (k, v, lit)) ms) k = map_option (bare \<circ> snd) (map_of ms k)"
proof -
  have "map_of (map (\<lambda>(k, lit, v). (k, v, lit)) ms) k = map_option (\<lambda>(lit, v). (v, lit)) (map_of ms k)"
    by (induction ms) auto
  then show "shown_int (map (\<lambda>(k, lit, v). (k, v, lit)) ms) k =
      (case map_of ms k of Some (lit, JNum n) \<Rightarrow> ParseInt n | _ \<Rightarrow> None)"
    "shown_text (map (\<lambda>(k, lit, v). (k, v, lit)) ms) k =
      (case map_of ms k of Some (lit, JStr s) \<Rightarrow> Some s | _ \<Rightarrow> None)"
    "shown_data (map (\<lambda>(k, lit, v). (k, v, lit)) ms) k = map_option (bare \<circ> snd) (map_of ms k)"
    by (simp_all add: shown_int_def shown_text_def shown_data_def member_def option.map_comp comp_def
        case_prod_unfold split: option.split)
qed

lemma task_members_lookup:
  "map_of (task_members loc p t) ''id'' = Some (as_int (t_id t))"
  "map_of (task_members loc p t) ''queue'' = Some (as_text (t_queue t))"
  "map_of (task_members loc p t) ''handler'' = Some (as_text (t_handler t))"
  "map_of (task_members loc p t) ''payload'' = Some p"
  "map_of (task_members loc p t) ''priority'' = Some (as_int (t_priority t))"
  "map_of (task_members loc p t) ''status'' = Some (as_text (status_text (t_status t)))"
  "map_of (task_members loc p t) ''run_at'' = Some (as_time loc (t_run_at t))"
  "map_of (task_members loc p t) ''attempts'' = Some (as_int (t_attempts t))"
  "map_of (task_members loc p t) ''max_attempts'' = Some (as_int (t_max_attempts t))"
  "map_of (task_members loc p t) ''claimed_by'' = map_option as_text (t_claimed_by t)"
  "map_of (task_members loc p t) ''heartbeat_at'' = map_option (as_time loc) (t_heartbeat_at t)"
  "map_of (task_members loc p t) ''idempotency_key'' = map_option as_text (t_idempotency_key t)"
  "map_of (task_members loc p t) ''schedule_id'' = map_option as_int (t_schedule_id t)"
  "map_of (task_members loc p t) ''last_error'' = map_option as_text (t_last_error t)"
  "map_of (task_members loc p t) ''created_at'' = Some (as_time loc (t_created_at t))"
  by (simp_all add: task_members_def map_of_present split: option.split del: map_of_append)

lemma shows_members:
  assumes "presentable loc t" and "whole_minutes loc"
    and "bare (snd p) = bare v" and "Option.bind (t_payload t) unmarshal_value = Some v"
  shows "shows_task (map (\<lambda>(k, lit, v). (k, v, lit)) (task_members loc p t)) t"
proof -
  have ints: "ParseInt (Itoa (t_id t)) = Some (t_id t)" "ParseInt (Itoa (t_priority t)) = Some (t_priority t)"
    "ParseInt (Itoa (t_attempts t)) = Some (t_attempts t)" "ParseInt (Itoa (t_max_attempts t)) = Some (t_max_attempts t)"
    "\<And>i. t_schedule_id t = Some i \<Longrightarrow> ParseInt (Itoa i) = Some i"
    using assms(1) by (simp_all add: presentable_def int64_range_def ParseInt_Itoa)
  have texts: "repaired (t_queue t) = t_queue t" "repaired (t_handler t) = t_handler t"
    "\<And>s. t_claimed_by t = Some s \<Longrightarrow> repaired s = s" "\<And>s. t_idempotency_key t = Some s \<Longrightarrow> repaired s = s"
    "\<And>s. t_last_error t = Some s \<Longrightarrow> repaired s = s"
    using assms(1) by (simp_all add: presentable_def repaired_valid)
  have "repaired (status_text st) = status_text st" for st
    by (rule repaired_valid [OF print_plain_name(2)]) simp
  moreover have times: "Parse_RFC3339 (Format_RFC3339Nano loc u) = Some u" if "time_encodable loc u" for u
    using Parse_Format [OF that zone_of_whole [OF assms(2)]] .
  moreover have "Parse_RFC3339 (Format_RFC3339Nano loc (t_run_at t)) = Some (t_run_at t)"
    "Parse_RFC3339 (Format_RFC3339Nano loc (t_created_at t)) = Some (t_created_at t)"
    "\<And>h. t_heartbeat_at t = Some h \<Longrightarrow> Parse_RFC3339 (Format_RFC3339Nano loc h) = Some h"
    using assms(1) times by (simp_all add: presentable_def task_encodable_def)
  ultimately show ?thesis
    using ints texts assms(3,4)
    by (simp add: shows_task_def shown_time_def shown_members task_members_lookup as_int_def as_text_def as_time_def
        split: option.split)
qed

lemma task_text:
  assumes "presentable loc t" and "whole_minutes loc"
  shows "\<exists>ms. parse_value (Suc maxNestingDepth) (response_text loc (TaskBody t)) = Some (JObj ms, [CHR 0x0A]) \<and> shows_task ms t"
proof -
  obtain raw v r where raw: "t_payload t = Some raw" "parse_value maxNestingDepth raw = Some (v, r)" "skip_space r = []"
    "unmarshal_value raw = Some v"
    using assms(1) by (cases "t_payload t") (auto simp: presentable_def task_encodable_def payload_encodable_def
        unmarshal_value_def split: option.splits prod.splits if_splits)
  obtain v' where v': "reads maxNestingDepth (compacted False raw) v'" "bare v' = bare v"
    using compacted_reads [OF raw(2,3)] by blast
  let ?p = "(compacted False raw, v')"
  let ?ms = "task_members loc ?p t"
  have "marshal_raw (t_payload t) = Some (fst ?p)" using raw by (simp add: marshal_raw_def)
  then have mt: "marshal_Task loc t = marshal_struct (map (\<lambda>(k, lit, v). (k, Some lit)) ?ms)"
    using assms(1) by (intro marshal_Task_members) (simp_all add: presentable_def)
  have "plain_name k \<and> reads maxNestingDepth lit w" if "(k, lit, w) \<in> set ?ms" for k lit w
    by (rule task_members_read [OF _ that]) (simp add: v'(1))
  from reads_struct [OF this] obtain lit where lit: "marshal_Task loc t = Some lit"
    "reads (Suc maxNestingDepth) lit (JObj (map (\<lambda>(k, lit, v). (k, v, lit)) ?ms))"
    unfolding mt by blast
  have "parse_value (Suc maxNestingDepth) (lit @ [CHR 0x0A]) = Some (JObj (map (\<lambda>(k, lit, v). (k, v, lit)) ?ms), [CHR 0x0A])"
    using lit(2) by (simp add: reads_def ends_number_def)
  moreover have "shows_task (map (\<lambda>(k, lit, v). (k, v, lit)) ?ms) t"
    by (rule shows_members [OF assms, of _ v]) (use v'(2) raw in simp_all)
  ultimately show ?thesis using lit(1) by (auto simp: response_text_def Encode_def)
qed


text \<open>What GET answers for a stored row.\<close>

lemma shown_by_get:
  assumes "task_by_id d (t_id t) = Some t" and "presentable loc t" and "whole_minutes loc"
  shows "\<exists>resp ms. serve e (pg_api_store ping) reqID now (GetTask (Itoa (t_id t))) d = (d, Responds resp)
    \<and> rs_status resp = 200
    \<and> parse_value (Suc maxNestingDepth) (response_text loc (rs_body resp)) = Some (JObj ms, [CHR 0x0A])
    \<and> shows_task ms t"
proof -
  have "ParseInt (Itoa (t_id t)) = Some (t_id t)"
    using assms(2) by (simp add: presentable_def int64_range_def ParseInt_Itoa)
  with assms(1) have "routes e (pg_api_store ping) now (GetTask (Itoa (t_id t))) d =
      (d, Responds (writeJSON 200 None (TaskBody t)))"
    by (simp add: getTask_def parseTaskID_def Get_def)
  then have "serve e (pg_api_store ping) reqID now (GetTask (Itoa (t_id t))) d = (d, Responds
      ((writeJSON 200 None (TaskBody t))\<lparr>rs_request_id := if reqID = [] then None else Some reqID\<rparr>))"
    by (simp add: serve_def panic_recoverer_def setRequestIDHeader_def writeJSON_def)
  then show ?thesis using task_text [OF assms(2,3)] by (auto simp: writeJSON_def)
qed


lemma sample_presentable: "presentable UTC sample_row" "whole_minutes UTC"
proof -
  have "skip_space ''{}'' = ''{}''" "skip_space ''}'' = ''}''"
    by (simp_all add: skip_space_def json_space_def)
  then have "unmarshal_value ''{}'' = Some (JObj [])"
    by (simp add: unmarshal_value_def parse_value.simps expect_def maxNestingDepth_def skip_space_def)
  moreover have "time_encodable UTC 1000" "time_encodable UTC 0" by code_simp+
  ultimately show "presentable UTC sample_row"
    by (simp add: presentable_def task_encodable_def payload_encodable_def sample_row_def sample_task_def
        int64_range_def byte_def)
  show "whole_minutes UTC" by (simp add: whole_minutes_def UTC_def)
qed


section \<open>A time JSON cannot hold\<close>

text \<open>
  A run_at in the first hours of the year 0, given with an offset, passes validation, and is an
  instant of the year before in UTC: the task is stored and answered 201, with nothing in the
  body.
\<close>

definition before_year_0 :: taskSubmission where
  "before_year_0 = sample_submission\<lparr>sub_run_at := Some ''0000-01-01T00:00:00+01:00''\<rparr>"

lemma run_at_before_year_0:
  "\<exists>d' resp. submitTask (pg_api_store None) [] (Inr before_year_0) (empty_db 0) = (d', Responds resp)
    \<and> rs_status resp = 201 \<and> length (tasks d') = 1 \<and> response_text UTC (rs_body resp) = []"
proof -
  have "case submitTask (pg_api_store None) [] (Inr before_year_0) (empty_db 0) of
      (d', Responds resp) \<Rightarrow> rs_status resp = 201 \<and> length (tasks d') = 1 \<and> \<not> encodable UTC (rs_body resp)
    | _ \<Rightarrow> False"
    by code_simp
  then obtain d' resp where ans: "submitTask (pg_api_store None) [] (Inr before_year_0) (empty_db 0) = (d', Responds resp)"
    "rs_status resp = 201" "length (tasks d') = 1" "\<not> encodable UTC (rs_body resp)"
    by (auto split: prod.splits handling.splits)
  moreover have "response_text UTC (rs_body resp) = []"
    using ans(4) marshal_body_None [of UTC "rs_body resp"] by (simp add: response_text_def Encode_def)
  ultimately show ?thesis by blast
qed

end
