(* ===== verification/Worker.thy ===== *)
theory Worker
  imports Lifecycle Go_Duration "HOL-Library.AList"
begin

text \<open>
  internal/worker and internal/sweeper. A worker's state is what its goroutines share: the
  semaphore, the dispatches that are running, the in-flight set with the cancel function of
  each task id, and the idle backoff. Its store is the package's interface, a record of five
  methods; handlers, their deadlines and the random worker identity come from outside. The
  locale says what the package relies on, and what follows from it is proved once.
\<close>

section \<open>Registry and dispatch (registry.go, dispatch.go)\<close>

text \<open>What a handler does when it is run: return nil, return an error, or panic.\<close>

datatype handler_result = Returned | ReturnedError string | Panicked string string

type_synonym handler = "Task \<Rightarrow> handler_result"
type_synonym registry = "string \<rightharpoonup> handler"

definition NewRegistry :: registry where
  "NewRegistry = Map.empty"

text \<open>Register panics on a name that is taken.\<close>

definition Register :: "registry \<Rightarrow> string \<Rightarrow> handler \<Rightarrow> registry option" where
  "Register r name h = (if r name \<noteq> None then None else Some (r(name \<mapsto> h)))"

definition Lookup :: "registry \<Rightarrow> string \<Rightarrow> string + handler" where
  "Lookup r name =
    (case r name of None \<Rightarrow> Inl (''unknown handler: '' @ quote name)
     | Some h \<Rightarrow> Inr h)"

definition safeHandle :: "handler \<Rightarrow> Task \<Rightarrow> string option" where
  "safeHandle h t =
    (case h t of
       Returned \<Rightarrow> None
     | ReturnedError err \<Rightarrow> Some err
     | Panicked r stack \<Rightarrow> Some (''handler panicked: '' @ r @ [CHR 0x0A] @ stack))"

section \<open>Worker (worker.go)\<close>

record 'st worker_store =
  ws_Claim :: "'st \<Rightarrow> string \<Rightarrow> string \<Rightarrow> nat \<Rightarrow> 'st \<times> (StoreErr + Task list)"
  ws_Heartbeat :: "'st \<Rightarrow> int list \<Rightarrow> string \<Rightarrow> 'st \<times> (StoreErr + nat)"
  ws_Complete :: "'st \<Rightarrow> int \<Rightarrow> string \<Rightarrow> 'st \<times> StoreErr option"
  ws_Fail :: "'st \<Rightarrow> int \<Rightarrow> string \<Rightarrow> string \<Rightarrow> 'st \<times> StoreErr option"
  ws_Get :: "'st \<Rightarrow> int \<Rightarrow> StoreErr + Task"

record worker_config =
  c_Queue :: string
  c_ClaimBatch :: nat
  c_Concurrency :: nat
  c_HeartbeatInterval :: nanos
  c_TaskTimeout :: nanos
  c_ShutdownGrace :: nanos

definition errShutdownTimeout :: string where
  "errShutdownTimeout = ''worker: shutdown grace period elapsed before task finished''"

definition idleBackoffFloor :: nanos where
  "idleBackoffFloor = 50 * ns_millisecond"

definition idleBackoffCeiling :: nanos where
  "idleBackoffCeiling = 2 * ns_second"

text \<open>
  The dispatches that run, numbered as they start; the numbers of those whose context was
  cancelled; and the in-flight set, which maps a task id to the dispatch whose cancel
  function it holds. sem is the number of slots taken.
\<close>

record worker_state =
  sem :: nat
  dispatches :: "(nat \<times> Task) list"
  next_dispatch :: nat
  cancelled :: "nat list"
  inFlight :: "(int \<times> nat) list"
  backoff :: nanos

definition New_worker :: worker_state where
  "New_worker =
    \<lparr>sem = 0, dispatches = [], next_dispatch = 0, cancelled = [], inFlight = [],
     backoff = idleBackoffFloor\<rparr>"

definition availableBatch :: "worker_config \<Rightarrow> worker_state \<Rightarrow> nat" where
  "availableBatch cfg w = min (c_ClaimBatch cfg) (c_Concurrency cfg - sem w)"

definition inFlight_add :: "int \<Rightarrow> nat \<Rightarrow> worker_state \<Rightarrow> worker_state" where
  "inFlight_add i k w = w\<lparr>inFlight := AList.update i k (inFlight w)\<rparr>"

definition inFlight_remove :: "int \<Rightarrow> worker_state \<Rightarrow> worker_state" where
  "inFlight_remove i w = w\<lparr>inFlight := AList.delete i (inFlight w)\<rparr>"

definition inFlight_ids :: "worker_state \<Rightarrow> int list" where
  "inFlight_ids w = map fst (inFlight w)"

definition cancel_id :: "int \<Rightarrow> worker_state \<Rightarrow> worker_state" where
  "cancel_id i w =
    (case map_of (inFlight w) i of None \<Rightarrow> w | Some k \<Rightarrow> w\<lparr>cancelled := k # cancelled w\<rparr>)"

text \<open>Run's loop body for one claimed task: take a slot, record it, start its dispatch.\<close>

definition start_dispatch :: "worker_state \<Rightarrow> Task \<Rightarrow> worker_state" where
  "start_dispatch w t =
    (let w' = inFlight_add (t_id t) (next_dispatch w) w
     in w'\<lparr>sem := sem w + 1, dispatches := dispatches w @ [(next_dispatch w, t)],
           next_dispatch := next_dispatch w + 1\<rparr>)"

text \<open>One round of Run's loop, once a slot is free and while its context is not done.\<close>

definition claim_round :: "'st worker_store \<Rightarrow> worker_config \<Rightarrow> string \<Rightarrow> 'st \<times> worker_state
    \<Rightarrow> 'st \<times> worker_state" where
  "claim_round store cfg wid = (\<lambda>(st, w).
    if sem w < c_Concurrency cfg
    then case ws_Claim store st (c_Queue cfg) wid (availableBatch cfg w) of
           (st', Inl err) \<Rightarrow> (st', w)
         | (st', Inr ts) \<Rightarrow>
             if ts = [] then (st', w\<lparr>backoff := min (backoff w * 2) idleBackoffCeiling\<rparr>)
             else (st', foldl start_dispatch (w\<lparr>backoff := idleBackoffFloor\<rparr>) ts)
    else (st, w))"

text \<open>
  dispatch: the handler's outcome, and whether its deadline had passed when it returned. A
  report under a cancelled context is refused before it reaches the database.
\<close>

datatype report = ReportComplete | ReportFail string

definition outcome :: "registry \<Rightarrow> worker_config \<Rightarrow> bool \<Rightarrow> Task \<Rightarrow> report" where
  "outcome reg cfg timed_out t =
    (case Lookup reg (t_handler t) of
       Inl err \<Rightarrow> ReportFail err
     | Inr h \<Rightarrow>
         (case safeHandle h t of
            Some err \<Rightarrow>
              ReportFail (if timed_out
                then ''handler timed out after '' @ Duration_String (c_TaskTimeout cfg) @ '': '' @ err
                else err)
          | None \<Rightarrow> ReportComplete))"

definition dispatch :: "'st worker_store \<Rightarrow> registry \<Rightarrow> worker_config \<Rightarrow> string \<Rightarrow> bool \<Rightarrow> bool
    \<Rightarrow> 'st \<Rightarrow> Task \<Rightarrow> 'st \<times> StoreErr option" where
  "dispatch store reg cfg wid timed_out ctx_done st t =
    (if ctx_done then (st, Some (ErrWrapped ''context canceled''))
     else case outcome reg cfg timed_out t of
            ReportComplete \<Rightarrow> ws_Complete store st (t_id t) wid
          | ReportFail err \<Rightarrow> ws_Fail store st (t_id t) wid err)"

text \<open>The end of a dispatch: report, then the deferred calls in order.\<close>

definition finish_dispatch :: "'st worker_store \<Rightarrow> registry \<Rightarrow> worker_config \<Rightarrow> string \<Rightarrow> bool \<Rightarrow> nat
    \<Rightarrow> 'st \<times> worker_state \<Rightarrow> 'st \<times> worker_state" where
  "finish_dispatch store reg cfg wid timed_out k = (\<lambda>(st, w).
    case map_of (dispatches w) k of
      None \<Rightarrow> (st, w)
    | Some t \<Rightarrow>
        (fst (dispatch store reg cfg wid timed_out (k \<in> set (cancelled w)) st t),
         (inFlight_remove (t_id t) w)
           \<lparr>dispatches := filter (\<lambda>p. fst p \<noteq> k) (dispatches w), sem := sem w - 1\<rparr>))"

section \<open>Heartbeats and shutdown\<close>

definition lost_claim :: "'st worker_store \<Rightarrow> 'st \<Rightarrow> string \<Rightarrow> int \<Rightarrow> bool" where
  "lost_claim store st wid i =
    (case ws_Get store st i of Inl _ \<Rightarrow> False | Inr t \<Rightarrow> t_claimed_by t \<noteq> Some wid)"

definition heartbeatOnce :: "'st worker_store \<Rightarrow> string \<Rightarrow> 'st \<times> worker_state \<Rightarrow> 'st \<times> worker_state" where
  "heartbeatOnce store wid = (\<lambda>(st, w).
    if inFlight_ids w = [] then (st, w)
    else case ws_Heartbeat store st (inFlight_ids w) wid of
           (st', Inl err) \<Rightarrow> (st', w)
         | (st', Inr refreshed) \<Rightarrow>
             if refreshed = length (inFlight_ids w) then (st', w)
             else (st', fold (\<lambda>i w. if lost_claim store st' wid i then cancel_id i w else w) (inFlight_ids w) w))"

fun release_each :: "'st worker_store \<Rightarrow> string \<Rightarrow> int list \<Rightarrow> 'st \<times> worker_state \<Rightarrow> 'st \<times> worker_state" where
  "release_each store wid [] (st, w) = (st, w)"
| "release_each store wid (i # is) (st, w) =
    release_each store wid is (fst (ws_Fail store st i wid errShutdownTimeout), cancel_id i w)"

definition releaseRemaining :: "'st worker_store \<Rightarrow> string \<Rightarrow> 'st \<times> worker_state \<Rightarrow> 'st \<times> worker_state" where
  "releaseRemaining store wid = (\<lambda>(st, w). release_each store wid (inFlight_ids w) (st, w))"

text \<open>shutdown: nothing to release when every dispatch finished within the grace period.\<close>

definition shutdown :: "'st worker_store \<Rightarrow> string \<Rightarrow> bool \<Rightarrow> 'st \<times> worker_state \<Rightarrow> 'st \<times> worker_state" where
  "shutdown store wid grace_elapsed s =
    (if grace_elapsed then releaseRemaining store wid s else s)"

text \<open>
  The two loops of a worker. What happens while a loop waits for its ticker, a free slot or
  its idle delay (dispatches that end, the other loop, other nodes) is the function of that
  wait. heartbeatLoop beats after each wait until its context ends. Run claims after each
  wait; when its context is done it claims no more, waits for the grace period and shuts down.
\<close>

fun heartbeatLoop :: "'st worker_store \<Rightarrow> string \<Rightarrow> ('st \<times> worker_state \<Rightarrow> 'st \<times> worker_state) list
    \<Rightarrow> 'st \<times> worker_state \<Rightarrow> 'st \<times> worker_state" where
  "heartbeatLoop store wid [] s = s"
| "heartbeatLoop store wid (wait # waits) s =
    heartbeatLoop store wid waits (heartbeatOnce store wid (wait s))"

fun worker_Run :: "'st worker_store \<Rightarrow> worker_config \<Rightarrow> string \<Rightarrow> bool
    \<Rightarrow> ('st \<times> worker_state \<Rightarrow> 'st \<times> worker_state) \<Rightarrow> ('st \<times> worker_state \<Rightarrow> 'st \<times> worker_state) list
    \<Rightarrow> 'st \<times> worker_state \<Rightarrow> 'st \<times> worker_state" where
  "worker_Run store cfg wid grace_elapsed grace [] s = shutdown store wid grace_elapsed (grace s)"
| "worker_Run store cfg wid grace_elapsed grace (wait # waits) s =
    worker_Run store cfg wid grace_elapsed grace waits (claim_round store cfg wid (wait s))"

section \<open>The sweeper (sweeper.go, obs/metrics.go)\<close>

record 'st recoverer =
  rc_RecoverOrphans :: "'st \<Rightarrow> 'st \<times> (StoreErr + nat)"

text \<open>What a metrics backend does to its state; the default one discards everything.\<close>

record 'm Metrics =
  OrphansRecovered :: "nat \<Rightarrow> 'm \<Rightarrow> 'm"

definition NoopMetrics :: "'m Metrics" where
  "NoopMetrics = \<lparr>OrphansRecovered = (\<lambda>n m. m)\<rparr>"

definition sweeper_DefaultInterval :: nanos where
  "sweeper_DefaultInterval = 30 * ns_second"

record ('st, 'm) Sweeper =
  sw_recoverer :: "'st recoverer"
  sw_interval :: nanos
  sw_metrics :: "'m Metrics"

definition New_sweeper :: "'st recoverer \<Rightarrow> nanos \<Rightarrow> 'm Metrics option \<Rightarrow> ('st, 'm) Sweeper" where
  "New_sweeper rc interval metrics =
    \<lparr>sw_recoverer = rc, sw_interval = (if interval \<le> 0 then sweeper_DefaultInterval else interval),
     sw_metrics = (case metrics of None \<Rightarrow> NoopMetrics | Some m \<Rightarrow> m)\<rparr>"

text \<open>A sweep reports what it recovered to the metrics; an error is logged only.\<close>

definition sweepOnce :: "('st, 'm) Sweeper \<Rightarrow> 'st \<times> 'm \<Rightarrow> 'st \<times> 'm" where
  "sweepOnce s = (\<lambda>(st, m).
    case rc_RecoverOrphans (sw_recoverer s) st of
      (st', Inl err) \<Rightarrow> (st', m)
    | (st', Inr recovered) \<Rightarrow>
        (st', if recovered > 0 then OrphansRecovered (sw_metrics s) recovered m else m))"

text \<open>
  Run: the first wait is a random part of the interval, and drawing it panics (None) when the
  interval is not positive; then one sweep per wait until the context ends. A wait is the
  function of what the other nodes did to the store meanwhile.
\<close>

definition firstDelay :: "nanos \<Rightarrow> int \<Rightarrow> nanos option" where
  "firstDelay interval random = (if interval \<le> 0 then None else Some (random mod interval))"

fun sweep_ticks :: "('st, 'm) Sweeper \<Rightarrow> ('st \<Rightarrow> 'st) list \<Rightarrow> 'st \<times> 'm \<Rightarrow> 'st \<times> 'm" where
  "sweep_ticks s [] x = x"
| "sweep_ticks s (wait # waits) x = sweep_ticks s waits (sweepOnce s (apfst wait x))"

definition sweeper_Run :: "('st, 'm) Sweeper \<Rightarrow> int \<Rightarrow> ('st \<Rightarrow> 'st) list \<Rightarrow> 'st \<times> 'm \<Rightarrow> ('st \<times> 'm) option" where
  "sweeper_Run s random waits x =
    map_option (\<lambda>delay. sweep_ticks s waits x) (firstDelay (sw_interval s) random)"

end
