(* ===== verification/Worker_Facts.thy ===== *)
theory Worker_Facts
  imports Worker Store_Properties Store_Faults
begin

text \<open>
  What holds of a worker whatever its tasks do: it never runs more than its concurrency, its
  in-flight set never points at a dispatch that is gone, a heartbeat cancels exactly the
  dispatches that lost their claim, and a forced shutdown gives every claim back. Proved
  once from the laws of its store, which the Postgres store keeps.
\<close>

section \<open>The worker's invariant\<close>

definition worker_inv :: "worker_config \<Rightarrow> worker_state \<Rightarrow> bool" where
  "worker_inv cfg w \<longleftrightarrow>
    sem w = length (dispatches w) \<and> sem w \<le> c_Concurrency cfg
    \<and> distinct (map fst (dispatches w)) \<and> (\<forall>p \<in> set (dispatches w). fst p < next_dispatch w)
    \<and> distinct (map fst (inFlight w))
    \<and> (\<forall>(i, k) \<in> set (inFlight w). \<exists>t. (k, t) \<in> set (dispatches w) \<and> t_id t = i)
    \<and> idleBackoffFloor \<le> backoff w \<and> backoff w \<le> idleBackoffCeiling"

lemma worker_invD:
  assumes "worker_inv cfg w"
  shows worker_inv_sem: "sem w = length (dispatches w)" "sem w \<le> c_Concurrency cfg"
    and worker_inv_inFlight: "distinct (map fst (inFlight w))"
    and worker_inv_entry: "(i, k) \<in> set (inFlight w) \<Longrightarrow> \<exists>t. (k, t) \<in> set (dispatches w) \<and> t_id t = i"
    and worker_inv_numbers: "distinct (map fst (dispatches w))"
  using assms by (auto simp: worker_inv_def)

lemma New_worker_inv: "worker_inv cfg New_worker"
  by (simp add: worker_inv_def New_worker_def idleBackoffFloor_def idleBackoffCeiling_def
      ns_millisecond_def ns_second_def)

lemma start_dispatch_inv:
  assumes "worker_inv cfg w" and "sem w < c_Concurrency cfg"
  shows "worker_inv cfg (start_dispatch w t)"
proof -
  let ?n = "next_dispatch w"
  have "\<exists>u. (k, u) \<in> set (dispatches w @ [(?n, t)]) \<and> t_id u = i"
    if "(i, k) \<in> set (AList.update (t_id t) ?n (inFlight w))" for i k
  proof (cases "i = t_id t")
    case True
    have "map_of (AList.update (t_id t) ?n (inFlight w)) i = Some k"
      using that worker_inv_inFlight [OF assms(1)] by (simp add: distinct_update map_of_eq_Some_iff)
    then have "k = ?n" using True by (simp add: update_conv')
    then show ?thesis using True by auto
  next
    case False
    have "map_of (AList.update (t_id t) ?n (inFlight w)) i = Some k"
      using that worker_inv_inFlight [OF assms(1)] by (simp add: distinct_update map_of_eq_Some_iff)
    then have "(i, k) \<in> set (inFlight w)" using False by (simp add: update_conv' map_of_SomeD)
    then show ?thesis using worker_inv_entry [OF assms(1)] by auto
  qed
  moreover have "\<forall>p \<in> set (dispatches w). fst p < ?n" and "?n \<notin> fst ` set (dispatches w)"
    using assms(1) by (auto simp: worker_inv_def)
  ultimately show ?thesis
    using assms unfolding worker_inv_def start_dispatch_def Let_def inFlight_add_def
    by (auto simp: distinct_update less_SucI)
qed

lemma start_all_inv:
  "worker_inv cfg w \<Longrightarrow> sem w + length ts \<le> c_Concurrency cfg \<Longrightarrow>
    worker_inv cfg (foldl start_dispatch w ts)"
proof (induction ts arbitrary: w)
  case (Cons t ts)
  then have "worker_inv cfg (start_dispatch w t)" by (simp add: start_dispatch_inv)
  then show ?case using Cons by (simp add: start_dispatch_def inFlight_add_def Let_def)
qed simp

lemma cancel_id_inv: "worker_inv cfg (cancel_id i w) = worker_inv cfg w"
  by (simp add: cancel_id_def worker_inv_def split: option.split)

lemma cancel_fold_inv:
  "worker_inv cfg (fold (\<lambda>i w. if p i then cancel_id i w else w) is w) = worker_inv cfg w"
  by (induction "is" arbitrary: w) (auto simp: cancel_id_inv)

lemma remove_dispatch_inv:
  assumes inv: "worker_inv cfg w" and t: "map_of (dispatches w) k = Some t"
  shows "worker_inv cfg ((inFlight_remove (t_id t) w)
    \<lparr>dispatches := filter (\<lambda>p. fst p \<noteq> k) (dispatches w), sem := sem w - 1\<rparr>)"
proof -
  note numbers = worker_inv_numbers [OF inv]
  have "filter (\<lambda>p. fst p = k) (dispatches w) = [(k, t)]"
    using filter_fst_singleton [OF numbers map_of_SomeD [OF t]] .
  then have "length (filter (\<lambda>p. fst p \<noteq> k) (dispatches w)) = sem w - 1"
    using worker_inv_sem(1) [OF inv] sum_length_filter_compl [of "\<lambda>p. fst p = k" "dispatches w"]
    by simp
  moreover have "\<exists>u. (k', u) \<in> set (filter (\<lambda>p. fst p \<noteq> k) (dispatches w)) \<and> t_id u = i"
    if e: "(i, k') \<in> set (AList.delete (t_id t) (inFlight w))" for i k'
  proof -
    have "i \<noteq> t_id t" and "(i, k') \<in> set (inFlight w)"
      using e by (auto simp: AList.delete_eq)
    from worker_inv_entry [OF inv this(2)] obtain u where u: "(k', u) \<in> set (dispatches w)" "t_id u = i"
      by blast
    have "k' \<noteq> k"
    proof
      assume "k' = k"
      then have "u = t" using u(1) map_of_SomeD [OF t] numbers by (metis eq_key_imp_eq_value)
      then show False using u(2) \<open>i \<noteq> t_id t\<close> by simp
    qed
    with u show ?thesis by auto
  qed
  ultimately show ?thesis
    using inv unfolding worker_inv_def inFlight_remove_def
    by (auto simp: distinct_delete distinct_map_filterI)
qed

section \<open>What the worker relies on\<close>

text \<open>
  holder tells who holds a task's claim, and heard which reports reach the server in a given
  state. A claim that is answered hands out no more than asked for and holds each task for
  the worker; a heartbeat that is answered counts the ids the worker holds; a report never
  gives anyone a claim, and ends that of the worker that makes it once it is heard.
\<close>

locale worker_store_laws =
  fixes store :: "'st worker_store" and holder :: "'st \<Rightarrow> int \<Rightarrow> string option"
    and ok :: "'st \<Rightarrow> bool" and heard :: "'st \<Rightarrow> int \<Rightarrow> bool"
  assumes claim_ok: "ok st \<Longrightarrow> ok (fst (ws_Claim store st q w n))"
    and claim_limit: "ok st \<Longrightarrow> ws_Claim store st q w n = (st', Inr ts) \<Longrightarrow> length ts \<le> n"
    and claim_holds: "ok st \<Longrightarrow> ws_Claim store st q w n = (st', Inr ts) \<Longrightarrow> t \<in> set ts \<Longrightarrow>
      holder st' (t_id t) = Some w"
    and heartbeat_ok: "ok st \<Longrightarrow> ok (fst (ws_Heartbeat store st is w))"
    and heartbeat_counts: "ok st \<Longrightarrow> distinct is \<Longrightarrow> ws_Heartbeat store st is w = (st', Inr n) \<Longrightarrow>
      n = length (filter (\<lambda>i. holder st i = Some w) is)"
    and heartbeat_keeps: "ok st \<Longrightarrow> holder (fst (ws_Heartbeat store st is w)) = holder st"
    and get_reads: "ok st \<Longrightarrow> ws_Get store st i = Inr t \<Longrightarrow> t_claimed_by t = holder st i"
    and report_ok: "ok st \<Longrightarrow> ok (fst (ws_Complete store st i w))"
      "ok st \<Longrightarrow> ok (fst (ws_Fail store st i w err))"
    and report_ends:
      "ok st \<Longrightarrow> heard st i \<Longrightarrow> holder (fst (ws_Complete store st i w)) i \<noteq> Some w"
      "ok st \<Longrightarrow> heard st i \<Longrightarrow> holder (fst (ws_Fail store st i w err)) i \<noteq> Some w"
    and report_takes: "ok st \<Longrightarrow> holder (fst (ws_Fail store st i w err)) j = Some v \<Longrightarrow> holder st j = Some v"
begin

lemma claim_round_keeps:
  assumes "ok st" and "worker_inv cfg w" and "claim_round store cfg wid (st, w) = (st', w')"
  shows "ok st'" and "worker_inv cfg w'"
proof -
  show "ok st'"
    using assms(1,3) claim_ok [OF assms(1), of "c_Queue cfg" wid "availableBatch cfg w"]
    by (auto simp: claim_round_def split: if_splits prod.splits sum.splits)
  show "worker_inv cfg w'"
  proof (cases "sem w < c_Concurrency cfg")
    case True
    obtain st1 r where claim: "ws_Claim store st (c_Queue cfg) wid (availableBatch cfg w) = (st1, r)"
      by fastforce
    show ?thesis
    proof (cases r)
      case (Inl e)
      then show ?thesis using assms True claim by (simp add: claim_round_def)
    next
      case (Inr ts)
      have "length ts \<le> availableBatch cfg w" using claim_limit [OF assms(1)] claim Inr by blast
      then have room: "sem w + length ts \<le> c_Concurrency cfg"
        using True unfolding availableBatch_def by linarith
      have reset: "worker_inv cfg (w\<lparr>backoff := idleBackoffFloor\<rparr>)"
        "worker_inv cfg (w\<lparr>backoff := min (backoff w * 2) idleBackoffCeiling\<rparr>)"
        using assms(2) by (auto simp: worker_inv_def idleBackoffFloor_def idleBackoffCeiling_def
            ns_millisecond_def ns_second_def)
      then have "worker_inv cfg (foldl start_dispatch (w\<lparr>backoff := idleBackoffFloor\<rparr>) ts)"
        using start_all_inv room by simp
      then show ?thesis
        using assms(3) True claim Inr reset(2) by (auto simp: claim_round_def split: if_splits)
    qed
  qed (use assms in \<open>simp add: claim_round_def\<close>)
qed

lemma dispatch_keeps: "ok st \<Longrightarrow> ok (fst (dispatch store reg cfg wid late dn st t))"
  by (auto simp: dispatch_def report_ok split: report.split)

lemma finish_dispatch_keeps:
  assumes "ok st" and "worker_inv cfg w"
    and "finish_dispatch store reg cfg wid late k (st, w) = (st', w')"
  shows "ok st'" and "worker_inv cfg w'"
  using assms dispatch_keeps remove_dispatch_inv [OF assms(2), of k]
  by (auto simp: finish_dispatch_def split: option.splits)

lemma heartbeatOnce_keeps:
  assumes "ok st" and "worker_inv cfg w" and "heartbeatOnce store wid (st, w) = (st', w')"
  shows "ok st'" and "worker_inv cfg w'"
  using assms heartbeat_ok [OF assms(1), of "inFlight_ids w" wid]
  by (auto simp: heartbeatOnce_def cancel_fold_inv split: if_splits prod.splits sum.splits)

lemma release_each_keeps:
  "ok st \<Longrightarrow> worker_inv cfg w \<Longrightarrow> release_each store wid is (st, w) = (st', w') \<Longrightarrow>
    ok st' \<and> worker_inv cfg w'"
proof (induction "is" arbitrary: st w)
  case (Cons i "is")
  from Cons.IH [of "fst (ws_Fail store st i wid errShutdownTimeout)" "cancel_id i w"]
    report_ok(2) [OF Cons.prems(1)] Cons.prems(2,3) show ?case by (simp add: cancel_id_inv)
qed simp

text \<open>A dispatch whose context is alive ends the worker's claim, one way or the other.\<close>

lemma dispatch_releases:
  "ok st \<Longrightarrow> heard st (t_id t) \<Longrightarrow>
    holder (fst (dispatch store reg cfg wid late False st t)) (t_id t) \<noteq> Some wid"
  by (simp add: dispatch_def report_ends split: report.split)

text \<open>The dispatches a heartbeat cancels are those whose claim another worker or no one holds.\<close>

lemma cancelled_fold:
  "distinct is \<Longrightarrow>
    set (cancelled (fold (\<lambda>i w. if p i then cancel_id i w else w) is w))
      = set (cancelled w) \<union> {k. \<exists>i \<in> set is. p i \<and> map_of (inFlight w) i = Some k}"
proof (induction "is" arbitrary: w)
  case (Cons i "is")
  have "inFlight (cancel_id i w) = inFlight w"
    by (simp add: cancel_id_def split: option.split)
  moreover have "set (cancelled (cancel_id i w))
      = set (cancelled w) \<union> {k. map_of (inFlight w) i = Some k}"
    by (auto simp: cancel_id_def split: option.split)
  ultimately show ?case using Cons by auto
qed auto

lemma lost_claim_iff:
  "ok st \<Longrightarrow> lost_claim store st wid i \<longleftrightarrow> holder st i \<noteq> Some wid \<and> \<not> isl (ws_Get store st i)"
  using get_reads [of st i] by (auto simp: lost_claim_def split: sum.split)

lemma heartbeatOnce_cancels:
  assumes "ok st" and "worker_inv cfg w" and "ws_Heartbeat store st (inFlight_ids w) wid = (st1, Inr n)"
    and "heartbeatOnce store wid (st, w) = (st', w')"
  shows "set (cancelled w') = set (cancelled w)
    \<union> {k. \<exists>i. (i, k) \<in> set (inFlight w) \<and> holder st i \<noteq> Some wid \<and> \<not> isl (ws_Get store st1 i)}"
proof -
  have dist: "distinct (inFlight_ids w)"
    using worker_inv_inFlight [OF assms(2)] by (simp add: inFlight_ids_def)
  have same: "holder st1 = holder st" and ok1: "ok st1"
    using heartbeat_keeps [OF assms(1)] heartbeat_ok [OF assms(1)] assms(3) by (metis fst_conv)+
  have entry: "map_of (inFlight w) i = Some k \<longleftrightarrow> (i, k) \<in> set (inFlight w)" for i k
    using worker_inv_inFlight [OF assms(2)] by (simp add: map_of_eq_Some_iff)
  have mem: "i \<in> set (inFlight_ids w)" if "(i, k) \<in> set (inFlight w)" for i k
    using that by (force simp: inFlight_ids_def)
  show ?thesis
  proof (cases "n = length (inFlight_ids w)")
    case True
    then have "length (filter (\<lambda>i. holder st i = Some wid) (inFlight_ids w)) = length (inFlight_ids w)"
      using heartbeat_counts [OF assms(1) dist assms(3)] by simp
    then have "\<forall>i \<in> set (inFlight_ids w). holder st i = Some wid"
      using length_filter_less [of _ "inFlight_ids w" "\<lambda>i. holder st i = Some wid"] by auto
    moreover have "w' = w" using assms(3,4) True by (auto simp: heartbeatOnce_def split: if_splits)
    ultimately show ?thesis using mem by blast
  next
    case False
    then have "inFlight_ids w \<noteq> []"
      using heartbeat_counts [OF assms(1) dist assms(3)] by auto
    then have "w' = fold (\<lambda>i w. if lost_claim store st1 wid i then cancel_id i w else w) (inFlight_ids w) w"
      using assms(3,4) False by (auto simp: heartbeatOnce_def)
    then show ?thesis
      using cancelled_fold [OF dist] mem by (auto simp: entry lost_claim_iff [OF ok1] same)
  qed
qed

lemma release_each_releases:
  "ok st \<Longrightarrow> release_each store wid is (st, w) = (st', w') \<Longrightarrow> (\<And>st. heard st i) \<Longrightarrow>
    i \<in> set is \<or> holder st i \<noteq> Some wid \<Longrightarrow> holder st' i \<noteq> Some wid"
proof (induction "is" arbitrary: st w)
  case (Cons j "is")
  have "ok (fst (ws_Fail store st j wid errShutdownTimeout))" using report_ok(2) Cons.prems(1) .
  moreover have "i \<in> set is \<or> holder (fst (ws_Fail store st j wid errShutdownTimeout)) i \<noteq> Some wid"
    using Cons.prems(1,3,4) report_ends(2) report_takes by fastforce
  ultimately show ?case using Cons.IH Cons.prems(2,3) by simp
qed simp

lemma release_each_cancels:
  "release_each store wid is (st, w) = (st', w') \<Longrightarrow>
    inFlight w' = inFlight w \<and> set (cancelled w) \<subseteq> set (cancelled w')
    \<and> (\<forall>i k. i \<in> set is \<longrightarrow> map_of (inFlight w) i = Some k \<longrightarrow> k \<in> set (cancelled w'))"
proof (induction "is" arbitrary: st w)
  case (Cons j "is")
  have keep: "inFlight (cancel_id j w) = inFlight w" "set (cancelled w) \<subseteq> set (cancelled (cancel_id j w))"
    "map_of (inFlight w) j = Some k \<Longrightarrow> k \<in> set (cancelled (cancel_id j w))" for k
    by (auto simp: cancel_id_def split: option.split)
  from Cons.IH [of _ "cancel_id j w"] Cons.prems keep show ?case by auto blast+
qed auto

end

section \<open>The Postgres store as the worker's store\<close>

definition pg_worker_store :: "int list \<Rightarrow> real \<Rightarrow> db worker_store" where
  "pg_worker_store locked random =
    \<lparr>ws_Claim = (\<lambda>d q w n. let (d', ts) = Claim d locked q w n in (d', Inr ts)),
     ws_Heartbeat = (\<lambda>d is w. let (d', n) = Heartbeat d is w in (d', Inr n)),
     ws_Complete = Complete,
     ws_Fail = (\<lambda>d i w err. Fail random d i w (Some err)),
     ws_Get = Get\<rparr>"

text \<open>
  The same store over a connection that may fail: which statements are lost in which state.
\<close>

record worker_faults =
  wf_query :: "db \<Rightarrow> fault"
  wf_rows :: "db \<Rightarrow> fault"
  wf_heartbeat :: "db \<Rightarrow> fault"
  wf_complete :: "db \<Rightarrow> int \<Rightarrow> fault"
  wf_fail :: "db \<Rightarrow> int \<Rightarrow> fault"
  wf_get :: "db \<Rightarrow> int \<Rightarrow> string option"

definition net_worker_store :: "worker_faults \<Rightarrow> int list \<Rightarrow> real \<Rightarrow> db worker_store" where
  "net_worker_store lk locked random =
    \<lparr>ws_Claim = (\<lambda>d q w n. net_Claim (wf_query lk d) (wf_rows lk d) d locked q w n),
     ws_Heartbeat = (\<lambda>d is w. net_Heartbeat (wf_heartbeat lk d) d is w),
     ws_Complete = (\<lambda>d i w. net_Complete (wf_complete lk d i) d i w),
     ws_Fail = (\<lambda>d i w err. net_Fail (wf_fail lk d i) random d i w (Some err)),
     ws_Get = (\<lambda>d i. net_Get (wf_get lk d i) d i)\<rparr>"

definition no_worker_faults :: worker_faults where
  "no_worker_faults =
    \<lparr>wf_query = (\<lambda>_. Fine), wf_rows = (\<lambda>_. Fine), wf_heartbeat = (\<lambda>_. Fine), wf_complete = (\<lambda>_ _. Fine),
     wf_fail = (\<lambda>_ _. Fine), wf_get = (\<lambda>_ _. None)\<rparr>"

lemma net_worker_store_Fine: "net_worker_store no_worker_faults locked random = pg_worker_store locked random"
  by (simp add: net_worker_store_def no_worker_faults_def pg_worker_store_def net_Claim_def
      net_Heartbeat_def net_Complete_def net_Fail_def net_Get_def fun_eq_iff Heartbeat_def
      split: prod.split)

fun reaches :: "fault \<Rightarrow> bool" where
  "reaches (LostBefore e) = False"
| "reaches f = True"

definition reports_reach :: "worker_faults \<Rightarrow> db \<Rightarrow> int \<Rightarrow> bool" where
  "reports_reach lk d i \<longleftrightarrow> reaches (wf_complete lk d i) \<and> reaches (wf_fail lk d i)"

lemma fst_call: "fst (call doing f d r) = (if reaches f then fst r else d)"
  by (cases f) (simp_all add: call_def round_trip_def)

definition claim_holder :: "db \<Rightarrow> int \<Rightarrow> string option" where
  "claim_holder d i = Option.bind (task_by_id d i) t_claimed_by"

lemma claim_holder_iff: "claim_holder d i = Some w \<longleftrightarrow> holds_claim d i w"
  by (auto simp: claim_holder_def holds_claim_def bind_eq_Some_conv)

lemma claim_holder_owned:
  assumes inv: "db_inv d" and f: "keeps_identity f" and released: "\<And>t. t_claimed_by (f t) = None"
  shows "claim_holder (update_tasks (owned_by i w) f d) j =
    (if j = i \<and> claim_holder d i = Some w then None else claim_holder d j)"
proof (cases "holds_claim d i w")
  case True
  then obtain t where "task_by_id d i = Some t" "t_claimed_by t = Some w"
    unfolding holds_claim_def by blast
  with True show ?thesis
    using task_by_id_owned [OF f, of d i t w j] by (auto simp: claim_holder_def released)
next
  case False
  then show ?thesis using update_tasks_unowned [OF inv False] by (simp add: claim_holder_iff)
qed

lemma claim_holder_heartbeat:
  "claim_holder (fst (Heartbeat d is w)) = claim_holder d"
proof
  fix i
  have "t_claimed_by (if p then heartbeat_row now t else t) = t_claimed_by t" for p now t
    by (simp add: heartbeat_row_def)
  then show "claim_holder (fst (Heartbeat d is w)) i = claim_holder d i"
    by (cases "task_by_id d i")
      (simp_all add: Heartbeat_def claim_holder_def task_by_id_update row_laws)
qed

lemma heartbeat_count:
  assumes inv: "db_inv d" and "distinct is"
  shows "rows_affected (heartbeat_where is w) (tasks d)
    = length (filter (\<lambda>i. claim_holder d i = Some w) is)"
proof -
  let ?A = "{t \<in> set (tasks d). heartbeat_where is w t}"
  have "t_id ` ?A = {i \<in> set is. claim_holder d i = Some w}"
  proof -
    have "heartbeat_where is w t \<longleftrightarrow> t_id t \<in> set is \<and> t_claimed_by t = Some w"
      if "t \<in> set (tasks d)" for t
      using row_inv_claimed [OF db_inv_row [OF inv that]] by (auto simp: heartbeat_where_def)
    then show ?thesis
      by (force simp: claim_holder_def bind_eq_Some_conv task_by_id_iff [OF inv])
  qed
  moreover have "inj_on t_id ?A"
    using distinct_key_eq [OF db_inv_ids [OF inv]] by (auto intro!: inj_onI)
  ultimately have "card ?A = card (set (filter (\<lambda>i. claim_holder d i = Some w) is))"
    by (metis card_image set_filter)
  then show ?thesis
    using assms(2) by (simp add: rows_affected_card [OF inv] distinct_card del: set_filter)
qed

lemma Claim_holds:
  assumes inv: "db_inv d" and claim: "Claim d locked q w n = (d', ts)" and t: "t \<in> set ts"
  shows "claim_holder d' (t_id t) = Some w"
proof -
  have inv': "db_inv d'" using Claim_inv [OF inv, of locked q w n] claim by simp
  let ?due = "{u \<in> set (tasks d). claimable d q u \<and> t_id u \<notin> set locked}"
  let ?taken = "{u \<in> ?due. t_id u \<in> t_id ` set ts}"
  from Claim_meets_spec [OF inv claim] have ts: "set ts = claim_row w (clock d) ` ?taken"
    and d': "tasks d' = map (\<lambda>u. if u \<in> ?taken then claim_row w (clock d) u else u) (tasks d)"
    unfolding claim_spec_rows Let_def by (blast, simp)
  from t ts obtain u where u: "u \<in> ?taken" "t = claim_row w (clock d) u" by blast
  then have "t \<in> set (tasks d')" and "t_claimed_by t = Some w"
    unfolding d' by (auto simp: claim_row_def)
  then show ?thesis using task_by_id_iff [OF inv', of "t_id t" t] by (simp add: claim_holder_def)
qed

lemma net_Claim_Inr:
  "net_Claim fq fr d locked q w n = (d', Inr ts) \<Longrightarrow> Claim d locked q w n = (d', ts)"
  by (auto simp: net_Claim_def split: prod.splits sum.splits dest!: call_Inr)

lemma claim_holder_reports:
  assumes "db_inv d"
  shows "claim_holder (fst (Complete d i w)) j =
      (if j = i \<and> claim_holder d i = Some w then None else claim_holder d j)"
    and "claim_holder (fst (Fail random d i w err)) j =
      (if j = i \<and> claim_holder d i = Some w then None else claim_holder d j)"
  using assms by (simp_all add: Complete_def Fail_def Let_def claim_holder_owned row_laws
      complete_row_def fail_row_def)

lemmas net_reports = net_Complete_def net_Fail_def fst_case_result fst_call claim_holder_reports

lemma net_runs_reachable:
  assumes "reachable d"
  shows "reachable (fst (net_Claim fq fr d locked q w n))" "reachable (fst (net_Heartbeat f d ids w))"
    "reachable (fst (net_Complete f d i w))" "reachable (fst (net_Fail f random d i w err))"
    "reachable (fst (net_RecoverOrphans f d))"
  by (rule runs_to_reachable [OF _ assms], rule net_runs)+

interpretation net_worker: worker_store_laws "net_worker_store lk locked random" claim_holder reachable
    "reports_reach lk"
  for lk locked random
proof
  fix d :: db and q w n "is" i j err v
  show "reachable d \<Longrightarrow> reachable (fst (ws_Claim (net_worker_store lk locked random) d q w n))"
    "reachable d \<Longrightarrow> reachable (fst (ws_Heartbeat (net_worker_store lk locked random) d is w))"
    "reachable d \<Longrightarrow> reachable (fst (ws_Complete (net_worker_store lk locked random) d i w))"
    "reachable d \<Longrightarrow> reachable (fst (ws_Fail (net_worker_store lk locked random) d i w err))"
    by (simp_all add: net_worker_store_def net_runs_reachable)
  show "claim_holder (fst (ws_Heartbeat (net_worker_store lk locked random) d is w)) = claim_holder d"
    using claim_holder_heartbeat [of d "is" w] by (simp add: net_worker_store_def net_Heartbeat_def fst_call)
  show "reachable d \<Longrightarrow> reports_reach lk d i \<Longrightarrow>
      claim_holder (fst (ws_Complete (net_worker_store lk locked random) d i w)) i \<noteq> Some w"
    "reachable d \<Longrightarrow> reports_reach lk d i \<Longrightarrow>
      claim_holder (fst (ws_Fail (net_worker_store lk locked random) d i w err)) i \<noteq> Some w"
    by (simp_all add: net_worker_store_def net_reports reports_reach_def reachable_inv)
  show "reachable d \<Longrightarrow> claim_holder (fst (ws_Fail (net_worker_store lk locked random) d i w err)) j = Some v \<Longrightarrow>
      claim_holder d j = Some v"
    by (auto simp: net_worker_store_def net_reports reachable_inv split: if_splits)
next
  fix d :: db and q w n d' ts
  assume "reachable d" and "ws_Claim (net_worker_store lk locked random) d q w n = (d', Inr ts)"
  then have claim: "db_inv d" "Claim d locked q w n = (d', ts)"
    by (auto simp: net_worker_store_def reachable_inv dest: net_Claim_Inr)
  then show "length ts \<le> n" using Claim_meets_spec by (fastforce simp: claim_spec_rows Let_def)
  show "claim_holder d' (t_id t) = Some w" if "t \<in> set ts" for t using Claim_holds [OF claim that] .
next
  fix d :: db and "is" w d' n
  show "reachable d \<Longrightarrow> distinct is \<Longrightarrow>
      ws_Heartbeat (net_worker_store lk locked random) d is w = (d', Inr n) \<Longrightarrow>
      n = length (filter (\<lambda>i. claim_holder d i = Some w) is)"
    using heartbeat_count [OF reachable_inv, of d "is" w]
    by (auto simp: net_worker_store_def net_Heartbeat_def Heartbeat_def split: if_splits dest!: call_Inr)
next
  fix d :: db and i t
  show "reachable d \<Longrightarrow> ws_Get (net_worker_store lk locked random) d i = Inr t \<Longrightarrow> t_claimed_by t = claim_holder d i"
    by (auto simp: net_worker_store_def net_Get_def Get_def claim_holder_def split: option.splits)
qed

section \<open>A worker beside everything else\<close>

text \<open>
  The states of one worker and its database, in any order of its own steps and of any other
  node's: what the connection loses, the rows other claims hold locked and the server's random
  numbers are arbitrary and change from step to step.
\<close>

inductive worker_run :: "worker_config \<Rightarrow> registry \<Rightarrow> string \<Rightarrow> db \<times> worker_state \<Rightarrow> bool"
  for cfg :: worker_config and reg :: registry and wid :: string where
  started: "reachable d \<Longrightarrow> worker_run cfg reg wid (d, New_worker)"
| claims: "worker_run cfg reg wid s \<Longrightarrow>
    worker_run cfg reg wid (claim_round (net_worker_store lk locked random) cfg wid s)"
| finishes: "worker_run cfg reg wid s \<Longrightarrow>
    worker_run cfg reg wid (finish_dispatch (net_worker_store lk locked random) reg cfg wid late k s)"
| beats: "worker_run cfg reg wid s \<Longrightarrow>
    worker_run cfg reg wid (heartbeatOnce (net_worker_store lk locked random) wid s)"
| shuts_down: "worker_run cfg reg wid s \<Longrightarrow>
    worker_run cfg reg wid (shutdown (net_worker_store lk locked random) wid elapsed s)"
| others: "worker_run cfg reg wid (d, w) \<Longrightarrow> store_step d ev d' \<Longrightarrow> worker_run cfg reg wid (d', w)"

lemma shutdown_keeps:
  assumes "reachable d" and "worker_inv cfg w"
    and "shutdown (net_worker_store lk locked random) wid elapsed (d, w) = (d', w')"
  shows "reachable d' \<and> worker_inv cfg w'"
  using assms net_worker.release_each_keeps [OF assms(1,2)]
  by (auto simp: shutdown_def releaseRemaining_def split: if_splits)

lemma worker_run_inv: "worker_run cfg reg wid s \<Longrightarrow> reachable (fst s) \<and> worker_inv cfg (snd s)"
proof (induction rule: worker_run.induct)
  case (started d)
  then show ?case by (simp add: New_worker_inv)
next
  case (claims s lk locked random)
  then show ?case
    using net_worker.claim_round_keeps [of "fst s" cfg "snd s" lk locked random wid] by (metis prod.collapse)
next
  case (finishes s lk locked random late k)
  then show ?case
    using net_worker.finish_dispatch_keeps [of "fst s" cfg "snd s" lk locked random reg wid late k]
    by (metis prod.collapse)
next
  case (beats s lk locked random)
  then show ?case
    using net_worker.heartbeatOnce_keeps [of "fst s" cfg "snd s" lk locked random wid]
    by (metis prod.collapse)
next
  case (shuts_down s lk locked random elapsed)
  then show ?case
    using shutdown_keeps [of "fst s" cfg "snd s" lk locked random wid elapsed] by (metis prod.collapse)
next
  case (others d w ev d')
  then show ?case using reachable.step by auto
qed

text \<open>
  C23. At any time a worker runs exactly as many dispatches as it holds semaphore slots, never
  more than its concurrency, whatever it claims; every entry of its in-flight set is the
  cancel function of a dispatch that is running that very task; and its idle delay stays
  between 50 milliseconds and 2 seconds.
\<close>

theorem worker_within_capacity:
  assumes "worker_run cfg reg wid (d, w)"
  shows "sem w = length (dispatches w) \<and> length (dispatches w) \<le> c_Concurrency cfg
    \<and> distinct (map fst (inFlight w))
    \<and> (\<forall>(i, k) \<in> set (inFlight w). \<exists>t. (k, t) \<in> set (dispatches w) \<and> t_id t = i)
    \<and> 50 * ns_millisecond \<le> backoff w \<and> backoff w \<le> 2 * ns_second"
  using worker_run_inv [OF assms]
  by (auto simp: worker_inv_def idleBackoffFloor_def idleBackoffCeiling_def)

definition sample_config :: worker_config where
  "sample_config =
    \<lparr>c_Queue = ''default'', c_ClaimBatch = 10, c_Concurrency = 4, c_HeartbeatInterval = 10 * ns_second,
     c_TaskTimeout = 300 * ns_second, c_ShutdownGrace = 30 * ns_second\<rparr>"

definition sample_worker :: "db \<times> worker_state" where
  "sample_worker = claim_round (pg_worker_store [] 0) sample_config ''w1'' (sample_submitted, New_worker)"

lemma sample_worker_run: "worker_run sample_config Map.empty ''w1'' sample_worker"
  unfolding sample_worker_def net_worker_store_Fine [symmetric]
  by (intro worker_run.claims worker_run.started sample_reachable)

lemma sample_worker_state:
  "inFlight (snd sample_worker) = [(1, 0)]"
  "map fst (dispatches (snd sample_worker)) = [0]" "fst sample_worker = sample_claimed"
  unfolding sample_worker_def claim_round_def pg_worker_store_def sample_config_def New_worker_def
  by code_simp+

lemma worker_within_capacity_witness:
  "sem (snd sample_worker) = 1 \<and> length (dispatches (snd sample_worker)) \<le> 4"
proof -
  have "length (dispatches (snd sample_worker)) = 1"
    using sample_worker_state(2) by (metis One_nat_def length_Cons length_map list.size(3))
  with worker_within_capacity [of sample_config Map.empty "''w1''" "fst sample_worker" "snd sample_worker"]
    sample_worker_run show ?thesis by (simp add: sample_config_def)
qed





text \<open>
  C26. When a worker is shut down after its grace period, the contexts of the dispatches it
  still has in flight are cancelled, so that none of them can report any more, and the worker
  holds no claim of theirs as long as its failure reports reach the server, even where the
  server's answer is lost.
\<close>

theorem forced_shutdown_releases_every_claim:
  assumes "worker_run cfg reg wid (d, w)"
    and "shutdown (net_worker_store lk locked random) wid True (d, w) = (d', w')"
    and "(i, k) \<in> set (inFlight w)"
  shows "k \<in> set (cancelled w') \<and> ((\<forall>d. reports_reach lk d i) \<longrightarrow> \<not> holds_claim d' i wid)"
proof -
  have inv: "reachable d" "worker_inv cfg w" using worker_run_inv [OF assms(1)] by simp_all
  have rel: "release_each (net_worker_store lk locked random) wid (inFlight_ids w) (d, w) = (d', w')"
    using assms(2) by (simp add: shutdown_def releaseRemaining_def)
  have i: "i \<in> set (inFlight_ids w)" using assms(3) by (force simp: inFlight_ids_def)
  have "map_of (inFlight w) i = Some k"
    using assms(3) worker_inv_inFlight [OF inv(2)] by (simp add: map_of_eq_Some_iff)
  then have "k \<in> set (cancelled w')" using net_worker.release_each_cancels [OF rel] i by blast
  then show ?thesis
    using net_worker.release_each_releases [OF inv(1) rel, of i] i by (auto simp: claim_holder_iff)
qed

lemma forced_shutdown_releases_every_claim_witness:
  "\<not> holds_claim (fst (shutdown (net_worker_store no_worker_faults [] 0) ''w1'' True sample_worker)) 1 ''w1''"
proof -
  have "reports_reach no_worker_faults d 1" for d
    by (simp add: reports_reach_def no_worker_faults_def)
  moreover have "worker_run sample_config Map.empty ''w1'' (fst sample_worker, snd sample_worker)"
    using sample_worker_run by simp
  ultimately show ?thesis
    using forced_shutdown_releases_every_claim [OF _ surjective_pairing, of sample_config Map.empty "''w1''"
        "fst sample_worker" "snd sample_worker" 1 0 no_worker_faults "[]" 0] sample_worker_state(1)
    by simp
qed

section \<open>The sweeper\<close>

text \<open>A recoverer that succeeds leaves no orphan and reports how many there were.\<close>

locale recoverer_laws =
  fixes rc :: "'st recoverer" and orphans :: "'st \<Rightarrow> int set" and ok :: "'st \<Rightarrow> bool"
  assumes recovers: "ok st \<Longrightarrow> rc_RecoverOrphans rc st = (st', Inr n) \<Longrightarrow>
      n = card (orphans st) \<and> orphans st' = {} \<and> ok st'"
    and recovery_fails: "ok st \<Longrightarrow> rc_RecoverOrphans rc st = (st', Inl e) \<Longrightarrow>
      orphans st' \<subseteq> orphans st \<and> ok st'"
    and finite_orphans: "ok st \<Longrightarrow> finite (orphans st)"
begin

lemma sweepOnce_clears:
  assumes "ok st" and "rc_RecoverOrphans rc st = (st', Inr n)" and "sw_recoverer s = rc"
  shows "sweepOnce s (st, m) = (st', if orphans st = {} then m
      else OrphansRecovered (sw_metrics s) (card (orphans st)) m) \<and> orphans st' = {}"
  using recovers [OF assms(1,2)] finite_orphans [OF assms(1)] assms(2,3)
  by (auto simp: sweepOnce_def card_gt_0_iff)

lemma sweepOnce_failed:
  assumes "ok st" and "rc_RecoverOrphans rc st = (st', Inl e)" and "sw_recoverer s = rc"
  shows "sweepOnce s (st, m) = (st', m) \<and> orphans st' \<subseteq> orphans st"
  using recovery_fails [OF assms(1,2)] assms(2,3) by (simp add: sweepOnce_def)

end

definition net_recoverer :: "(db \<Rightarrow> fault) \<Rightarrow> db recoverer" where
  "net_recoverer lost = \<lparr>rc_RecoverOrphans = (\<lambda>d. net_RecoverOrphans (lost d) d)\<rparr>"

definition stale :: "instant \<Rightarrow> Task \<Rightarrow> bool" where
  "stale now t \<longleftrightarrow>
    t_status t = StatusRunning \<and> (\<exists>h. t_heartbeat_at t = Some h \<and> h + 90 * second < now)"

definition orphan_ids :: "db \<Rightarrow> int set" where
  "orphan_ids d = t_id ` {t \<in> set (tasks d). stale (clock d) t}"

lemma stale_orphaned: "stale = orphaned"
  by (auto simp: fun_eq_iff stale_def orphaned_def split: option.splits)

lemma recover_row_not_orphaned: "\<not> orphaned now (recover_row now' t)"
  by (simp add: orphaned_def recover_row_def)

lemma RecoverOrphans_clears:
  assumes inv: "db_inv d" and rec: "RecoverOrphans d = (d', n)"
  shows "n = card (orphan_ids d) \<and> orphan_ids d' = {}"
proof -
  have "inj_on t_id {t \<in> set (tasks d). orphaned (clock d) t}"
    using distinct_key_eq [OF db_inv_ids [OF inv]] by (auto intro!: inj_onI)
  then have "n = card (orphan_ids d)"
    using rec by (simp add: RecoverOrphans_def orphan_ids_def stale_orphaned card_image rows_affected_card [OF inv])
  moreover have "orphan_ids d' = {}"
    using rec recover_row_not_orphaned
    by (auto simp: RecoverOrphans_def orphan_ids_def stale_orphaned set_update_where)
  ultimately show ?thesis by blast
qed

interpretation net_sweeper: recoverer_laws "net_recoverer lost" orphan_ids reachable
  for lost
proof
  fix d d' n
  assume "reachable d" and rec: "rc_RecoverOrphans (net_recoverer lost) d = (d', Inr n)"
  then have "RecoverOrphans d = (d', n)" and "reachable d'"
    using net_runs_reachable(5) [of d "lost d"]
    by (auto simp: net_recoverer_def net_RecoverOrphans_def dest: call_Inr)
  then show "n = card (orphan_ids d) \<and> orphan_ids d' = {} \<and> reachable d'"
    using RecoverOrphans_clears [OF reachable_inv [OF \<open>reachable d\<close>]] by blast
next
  fix d d' err
  assume reach: "reachable d" and rec: "rc_RecoverOrphans (net_recoverer lost) d = (d', Inl err)"
  then have "d' = d \<or> d' = fst (RecoverOrphans d)" and "reachable d'"
    using net_runs_reachable(5) [OF reach, of "lost d"] call_state [of _ "lost d" d "RecoverOrphans d"]
    by (auto simp: net_recoverer_def net_RecoverOrphans_def) (metis fst_conv)
  then show "orphan_ids d' \<subseteq> orphan_ids d \<and> reachable d'"
    using RecoverOrphans_clears [OF reachable_inv [OF reach] surjective_pairing] by auto
qed (simp add: orphan_ids_def)

text \<open>The orphans that the sweeps whose answer arrived have found.\<close>

fun orphans_found :: "(db \<Rightarrow> fault) \<Rightarrow> (db \<Rightarrow> db) list \<Rightarrow> db \<Rightarrow> nat" where
  "orphans_found lost [] d = 0"
| "orphans_found lost (wait # waits) d =
    (if lost (wait d) = Fine then card (orphan_ids (wait d)) else 0)
      + orphans_found lost waits (fst (net_RecoverOrphans (lost (wait d)) (wait d)))"

text \<open>A backend that keeps one counter.\<close>

definition counting :: "nat Metrics" where
  "counting = \<lparr>OrphansRecovered = (\<lambda>n m. m + n)\<rparr>"

lemma sweepOnce_net:
  assumes "reachable d" and rc: "sw_recoverer s = net_recoverer lost"
  shows "sweepOnce s (d, m) = (fst (net_RecoverOrphans (lost d) d),
      if lost d = Fine \<and> orphan_ids d \<noteq> {} then OrphansRecovered (sw_metrics s) (card (orphan_ids d)) m else m)
    \<and> (reaches (lost d) \<longrightarrow> orphan_ids (fst (net_RecoverOrphans (lost d) d)) = {})"
proof -
  have clears: "orphan_ids (fst (RecoverOrphans d)) = {}"
    using RecoverOrphans_clears [OF reachable_inv [OF assms(1)] surjective_pairing] by blast
  show ?thesis
  proof (cases "lost d = Fine")
    case True
    then show ?thesis
      using net_sweeper.sweepOnce_clears [OF assms(1) _ rc, of _ "snd (RecoverOrphans d)" m]
      by (auto simp: net_recoverer_def net_RecoverOrphans_def)
  next
    case False
    then obtain e where "net_RecoverOrphans (lost d) d = (fst (net_RecoverOrphans (lost d) d), Inl e)"
      by (cases "lost d") (auto simp: net_RecoverOrphans_def call_def round_trip_def)
    then show ?thesis
      using net_sweeper.sweepOnce_failed [OF assms(1) _ rc, of _ e m] False clears
      by (auto simp: net_recoverer_def net_RecoverOrphans_def fst_call)
  qed
qed

lemma sweep_ticks_counts:
  assumes "reachable d" and "\<And>d wait. wait \<in> set waits \<Longrightarrow> reachable d \<Longrightarrow> reachable (wait d)"
    and "sweep_ticks s waits (d, cnt) = (d', cnt')"
    and "sw_recoverer s = net_recoverer lost" and "sw_metrics s = counting"
  shows "cnt' = cnt + orphans_found lost waits d
    \<and> (waits \<noteq> [] \<longrightarrow> (\<exists>d1. reachable d1 \<and> d' = fst (net_RecoverOrphans (lost d1) d1)
        \<and> (reaches (lost d1) \<longrightarrow> orphan_ids d' = {})))"
  using assms(1-3)
proof (induction waits arbitrary: d cnt)
  case (Cons wait waits)
  let ?d = "fst (net_RecoverOrphans (lost (wait d)) (wait d))"
  have reach: "reachable (wait d)" using Cons.prems(1,2) by simp
  let ?cnt = "cnt + (if lost (wait d) = Fine then card (orphan_ids (wait d)) else 0)"
  have one: "sweepOnce s (wait d, cnt) = (?d, ?cnt)"
    "reaches (lost (wait d)) \<Longrightarrow> orphan_ids ?d = {}"
    using sweepOnce_net [OF reach assms(4), of cnt] by (auto simp: assms(5) counting_def)
  show ?case
  proof (cases waits)
    case Nil
    then show ?thesis using one reach Cons.prems(3) by auto
  next
    case (Cons w ws)
    then show ?thesis
      using Cons.IH [OF net_runs_reachable(5) [OF reach], of "lost (wait d)" ?cnt] Cons.prems(2,3) one
      by (auto simp: Cons)
  qed
qed simp

text \<open>
  C27. The sweeper New builds never panics, whatever interval it is given. However often it
  has swept the Postgres store, whatever other nodes did between the sweeps and whichever of
  its calls the connection lost: its last sweep leaves no running task with an expired
  heartbeat behind once it reaches the server, and a counter it reports to has grown by
  exactly the number of orphans that the answered sweeps found.
\<close>

theorem sweeper_leaves_no_orphan:
  assumes "reachable d" and "waits \<noteq> []"
    and "\<And>d wait. wait \<in> set waits \<Longrightarrow> reachable d \<Longrightarrow> reachable (wait d)"
  shows "\<exists>d1 d'. sweeper_Run (New_sweeper (net_recoverer lost) interval (Some counting)) random waits (d, cnt)
      = Some (d', cnt + orphans_found lost waits d)
    \<and> reachable d1 \<and> d' = fst (net_RecoverOrphans (lost d1) d1)
    \<and> (reaches (lost d1) \<longrightarrow> (\<forall>t \<in> set (tasks d'). \<not> stale (clock d') t))"
proof -
  let ?s = "New_sweeper (net_recoverer lost) interval (Some counting)"
  obtain d' cnt' where ticks: "sweep_ticks ?s waits (d, cnt) = (d', cnt')" by fastforce
  have "cnt' = cnt + orphans_found lost waits d
    \<and> (waits \<noteq> [] \<longrightarrow> (\<exists>d1. reachable d1 \<and> d' = fst (net_RecoverOrphans (lost d1) d1)
        \<and> (reaches (lost d1) \<longrightarrow> orphan_ids d' = {})))"
    using sweep_ticks_counts [of d waits ?s cnt d' cnt' lost] assms(1,3) ticks
    by (simp add: New_sweeper_def)
  moreover have "0 < sw_interval ?s"
    by (simp add: New_sweeper_def sweeper_DefaultInterval_def ns_second_def ns_millisecond_def)
  ultimately show ?thesis
    using ticks assms(2) by (auto simp: sweeper_Run_def firstDelay_def orphan_ids_def)
qed

lemma sweeper_leaves_no_orphan_witness:
  "\<exists>d'. sweeper_Run (New_sweeper (net_recoverer (\<lambda>_. Fine)) 0 (Some counting)) 5 [id]
      (sample_claimed\<lparr>clock := 1000 + 91 * second\<rparr>, 7) = Some (d', 8)"
proof -
  let ?d = "sample_claimed\<lparr>clock := 1000 + 91 * second\<rparr>"
  have reach: "reachable ?d"
    by (rule reachable.step [OF sample_reachable(2) store_step.time_passes])
      (simp add: sample_tasks second_def)
  have "orphan_ids ?d = {1}"
    by (auto simp: orphan_ids_def sample_tasks stale_def row_defs sample_row_def second_def)
  with sweeper_leaves_no_orphan [OF reach, of "[id]" "\<lambda>_. Fine" 0 5 7] show ?thesis by auto
qed

section \<open>The worker's loops are runs of its steps\<close>

lemma heartbeatLoop_is_run:
  assumes "worker_run cfg reg wid s"
    and "\<And>s wait. wait \<in> set waits \<Longrightarrow> worker_run cfg reg wid s \<Longrightarrow> worker_run cfg reg wid (wait s)"
  shows "worker_run cfg reg wid (heartbeatLoop (net_worker_store lk locked random) wid waits s)"
  using assms
proof (induction waits arbitrary: s)
  case (Cons wait waits)
  have "worker_run cfg reg wid (wait s)" using Cons.prems by simp
  then have "worker_run cfg reg wid (heartbeatOnce (net_worker_store lk locked random) wid (wait s))"
    by (rule worker_run.beats)
  then show ?case using Cons.IH Cons.prems(2) by simp
qed simp

lemma worker_Run_is_run:
  assumes "worker_run cfg reg wid s"
    and "\<And>s. worker_run cfg reg wid s \<Longrightarrow> worker_run cfg reg wid (grace s)"
    and "\<And>s wait. wait \<in> set waits \<Longrightarrow> worker_run cfg reg wid s \<Longrightarrow> worker_run cfg reg wid (wait s)"
  shows "worker_run cfg reg wid (worker_Run (net_worker_store lk locked random) cfg wid elapsed grace waits s)"
  using assms
proof (induction waits arbitrary: s)
  case Nil
  then show ?case by (simp add: worker_run.shuts_down)
next
  case (Cons wait waits)
  have "worker_run cfg reg wid (wait s)" using Cons.prems by simp
  then have "worker_run cfg reg wid (claim_round (net_worker_store lk locked random) cfg wid (wait s))"
    by (rule worker_run.claims)
  then show ?case using Cons.IH Cons.prems(2,3) by simp
qed

end
