(* ===== verification/End_To_End.thy ===== *)
theory End_To_End
  imports Api_Responses Worker_Facts
begin

text \<open>
  A task across the API, the store and a worker: what a client submits is what some worker's
  handler is given, and once the handler returned, what every later GET shows as succeeded.
\<close>

section \<open>What stays of a submission\<close>

definition same_work :: "Task \<Rightarrow> Task \<Rightarrow> bool" where
  "same_work t u \<longleftrightarrow> t_id u = t_id t \<and> t_queue u = t_queue t \<and> t_handler u = t_handler t
    \<and> t_payload u = t_payload t \<and> t_priority u = t_priority t \<and> t_max_attempts u = t_max_attempts t
    \<and> t_idempotency_key u = t_idempotency_key t \<and> t_created_at u = t_created_at t"

lemma same_work_refl: "same_work t t"
  by (simp add: same_work_def)

lemma same_work_trans: "same_work t u \<Longrightarrow> same_work u v \<Longrightarrow> same_work t v"
  by (simp add: same_work_def)

lemma evolves_same_work: "evolves t u \<Longrightarrow> same_work t u"
  by (simp add: evolves_def same_work_def)

lemma store_run_same_work:
  assumes "store_run d evs d'" and "db_inv d" and "task_by_id d i = Some t"
  shows "\<exists>u. task_by_id d' i = Some u \<and> same_work t u"
  using assms
proof (induction rule: store_run.induct)
  case (more d evs d' ev d'')
  then obtain u where u: "task_by_id d' i = Some u" "same_work t u" by blast
  have "db_inv d'" using more store_run_inv by blast
  then obtain v where "task_by_id d'' i = Some v" "row_step ev u v"
    using store_step_row [OF more.hyps(2) _ u(1)] by blast
  then show ?case using u(2) same_work_trans evolves_same_work [OF row_step_evolves] by blast
qed (simp add: same_work_refl)

lemma runs_to_same_work:
  assumes "runs_to d d'" and "reachable d" and "task_by_id d i = Some t" and "task_by_id d' i = Some u"
  shows "same_work t u"
proof -
  from assms(1) obtain evs where "store_run d evs d'" by (auto simp: runs_to_def)
  from store_run_same_work [OF this reachable_inv [OF assms(2)] assms(3)] assms(4) show ?thesis by auto
qed

lemma runs_to_settled:
  assumes "runs_to d d'" and "reachable d" and "task_by_id d i = Some t" and "Terminal (t_status t)"
  shows "task_by_id d' i = Some t"
  using assms store_run_row [OF _ reachable_inv [OF assms(2)] assms(3)] by (auto simp: runs_to_def)

text \<open>The copy a claim hands out.\<close>

lemma claimed_copy:
  assumes "reachable d" and "Claim d locked q w n = (d', out)" and "t \<in> set out"
  shows "\<exists>c. task_by_id d (t_id t) = Some c \<and> same_work c t"
proof -
  have inv: "db_inv d" by (rule reachable_inv [OF assms(1)])
  obtain c where c: "c \<in> set (claim_candidates d locked q n)" "t = claim_row w (clock d) c"
    using assms(2,3) Claim_eq [OF inv, of locked q w n] by auto
  then have "c \<in> set (tasks d)" "t_status c = StatusPending"
    using candidates_claimable [of c d locked q n] by (simp_all add: claimable_def)
  then have "task_by_id d (t_id c) = Some c" "same_work c t"
    using c(2) evolves_same_work [OF evolves_rows(1)] by (simp_all add: task_by_id_iff [OF inv])
  then show ?thesis by (auto simp: same_work_def)
qed

section \<open>The submission\<close>

text \<open>What a request body becomes: the task with the key of the header where it has none.\<close>

abbreviation requested :: "string \<Rightarrow> taskSubmission \<Rightarrow> Task" where
  "requested key sub \<equiv> with_header_key key (submitted_task sub)"

lemma submission_created:
  assumes "submitTask (pg_api_store ping) key (Inr sub) d = (d1, Responds resp)" and "rs_status resp = 201"
  shows "d1 = fst (Enqueue d (requested key sub)) \<and> tasks d1 = tasks d @ [row_for d (requested key sub)]
    \<and> rs_location resp = Some (''/tasks/'' @ Itoa (next_task_id d))"
proof -
  have ok: "validateSubmission sub = []"
    using assms by (auto simp: submitTask_def writeValidationError_def writeError_def writeJSON_def split: if_splits)
  show ?thesis
    by (cases rule: Enqueue_cases [where d = d and t = "requested key sub"])
      (use assms ok in \<open>auto simp: submitTask_def writeError_def writeJSON_def\<close>)
qed

lemma served_created:
  assumes "reachable d" and "sendable sub" and "length (print_submission sub) \<le> nat (MaxBodyBytes (srv_cfg e))"
    and "serve e (pg_api_store ping) reqID now (PostTasks key (print_submission sub)) d = (d1, Responds resp)"
    and "rs_status resp = 201" and "rs_location resp = Some (''/tasks/'' @ Itoa i)"
  shows "reachable d1 \<and> task_by_id d1 i = Some (row_for d (requested key sub))"
proof -
  obtain r where sub: "submitTask (pg_api_store ping) key (Inr sub) d = (d1, r)"
    and resp: "setRequestIDHeader reqID (panic_recoverer r) = Responds resp"
    using assms(4) decode_printed [OF assms(2,3)] by (auto simp: serve_def split: prod.splits)
  obtain r' where r': "r = Responds r'" "rs_status r' = 201" "rs_location r' = Some (''/tasks/'' @ Itoa i)"
    using resp assms(5,6)
    by (cases r) (auto simp: setRequestIDHeader_def panic_recoverer_def writeJSON_def split: if_splits)
  from submission_created [OF sub [unfolded r'(1)] r'(2)]
  have d1: "d1 = fst (Enqueue d (requested key sub))" "tasks d1 = tasks d @ [row_for d (requested key sub)]"
    and i: "i = next_task_id d"
    using r'(3) by (auto simp: Itoa_inj)
  have reach: "reachable d1"
    unfolding d1(1) by (rule reachable.step [OF assms(1) store_step.enqueue [OF prod.collapse [symmetric]]])
  then show ?thesis using task_by_id_iff [OF reachable_inv [OF reach]] d1(2) i by simp
qed

lemma requested_simps [simp]:
  "t_queue (requested key sub) = (if sub_queue sub = [] then ''default'' else sub_queue sub)"
  "t_handler (requested key sub) = sub_handler sub" "t_payload (requested key sub) = sub_payload sub"
  by (simp_all add: with_header_key_def submitted_task_def)

section \<open>From a submission to a handler\<close>

lemma handed_to_handler:
  assumes "reachable d1" and "task_by_id d1 (t_id t) = Some (row_for d (requested key sub))"
    and "runs_to d1 d2" and "Claim d2 locked q wid n = (d3, out)" and "t \<in> set out"
  shows "t_queue t = (if sub_queue sub = [] then ''default'' else sub_queue sub)
    \<and> t_handler t = sub_handler sub \<and> t_payload t = sub_payload sub"
proof -
  obtain c where c: "task_by_id d2 (t_id t) = Some c" "same_work c t"
    using claimed_copy [OF runs_to_reachable [OF assms(3,1)] assms(4,5)] by blast
  have "same_work (row_for d (requested key sub)) t"
    using same_work_trans [OF runs_to_same_work [OF assms(3,1,2) c(1)] c(2)] .
  then show ?thesis by (simp add: same_work_def)
qed

text \<open>A dispatch whose handler returns completes the row it holds, once and for all.\<close>

lemma dispatch_completes:
  assumes "reachable d4" and "task_by_id d4 (t_id t) = Some held" and "t_claimed_by held = Some wid"
    and "reg (t_handler t) = Some h" and "h t = Returned"
    and "dispatch (pg_worker_store locked random) reg cfg wid late False d4 t = (d5, err)"
    and "runs_to d5 d6"
  shows "err = None \<and> reachable d6 \<and> task_by_id d6 (t_id t) = Some (complete_row held)"
proof -
  have inv: "db_inv d4" by (rule reachable_inv [OF assms(1)])
  have "holds_claim d4 (t_id t) wid" using assms(2,3) by (simp add: holds_claim_def)
  with assms(4-6) have complete: "Complete d4 (t_id t) wid = (d5, err)"
    and d5: "d5 = update_tasks (owned_by (t_id t) wid) complete_row d4" "err = None"
    by (simp_all add: dispatch_def outcome_def Lookup_def safeHandle_def pg_worker_store_def Complete_held [OF inv])
  have "task_by_id d5 (t_id t) = Some (complete_row held)"
    by (simp add: d5(1) task_by_id_owned [OF row_laws(3) assms(2,3)])
  moreover have reach: "reachable d5" by (rule reachable.step [OF assms(1) store_step.complete [OF complete]])
  moreover have "Terminal (t_status (complete_row held))" by (simp add: complete_row_def)
  ultimately show ?thesis
    using runs_to_settled [OF assms(7)] runs_to_reachable [OF assms(7)] d5(2) by blast
qed

text \<open>What a client that asks for a finished piece of work is shown.\<close>

definition shows_done :: "taskSubmission \<Rightarrow> int \<Rightarrow> (string \<times> json \<times> string) list \<Rightarrow> bool" where
  "shows_done sub i ms \<longleftrightarrow>
    shown_int ms ''id'' = Some i \<and> shown_text ms ''status'' = Some ''succeeded''
    \<and> shown_text ms ''queue'' = Some (if sub_queue sub = [] then ''default'' else sub_queue sub)
    \<and> shown_text ms ''handler'' = Some (sub_handler sub)
    \<and> shown_data ms ''payload'' = map_option bare (Option.bind (sub_payload sub) unmarshal_value)
    \<and> shown_text ms ''claimed_by'' = None \<and> shown_time ms ''heartbeat_at'' = None"

lemma shows_completed:
  assumes "shows_task ms (complete_row held)" and "same_work (row_for d (requested key sub)) held"
  shows "shows_done sub (t_id held) ms"
  using assms by (simp add: shows_task_def shows_done_def same_work_def complete_row_def)

section \<open>A sample of the whole way\<close>

definition sample_posted :: db where
  "sample_posted = fst (submitTask (pg_api_store None) [] (Inr sample_submission) (empty_db 0))"

definition sample_taken :: "db \<times> Task list" where
  "sample_taken = Claim sample_posted [] ''default'' ''w1'' 1"

definition sample_finished :: "db \<times> StoreErr option" where
  "sample_finished = dispatch (pg_worker_store [] 0) [''email'' \<mapsto> (\<lambda>_. Returned)] sample_config ''w1'' False False
    (fst sample_taken) (claim_row ''w1'' 0 (row_for (empty_db 0) (submitted_task sample_submission)))"

lemma sample_way:
  "case submitTask (pg_api_store None) [] (Inr sample_submission) (empty_db 0) of
    (d', Responds resp) \<Rightarrow> rs_status resp = 201 \<and> rs_location resp = Some ''/tasks/1'' \<and> rs_request_id resp = None
    | _ \<Rightarrow> False"
  "snd sample_taken = [claim_row ''w1'' 0 (row_for (empty_db 0) (submitted_task sample_submission))]"
  "tasks (fst sample_taken) = [claim_row ''w1'' 0 (row_for (empty_db 0) (submitted_task sample_submission))]"
  "tasks (fst sample_finished) =
    [complete_row (claim_row ''w1'' 0 (row_for (empty_db 0) (submitted_task sample_submission)))]"
  by code_simp+

lemma sample_served:
  "\<exists>resp. serve sample_env (pg_api_store None) [] 0 (PostTasks [] (print_submission sample_submission)) (empty_db 0)
      = (sample_posted, Responds resp) \<and> rs_status resp = 201 \<and> rs_location resp = Some ''/tasks/1''"
  using sample_way(1) decode_printed [OF sample_sendable]
  by (auto simp: serve_def sample_posted_def setRequestIDHeader_def panic_recoverer_def
      split: prod.splits handling.splits)

lemma sample_finished_presentable:
  "presentable UTC (complete_row (claim_row ''w1'' 0 (row_for (empty_db 0) (submitted_task sample_submission))))"
proof -
  have "skip_space ''{}'' = ''{}''" "skip_space ''}'' = ''}''"
    by (simp_all add: skip_space_def json_space_def)
  then have "unmarshal_value ''{}'' = Some (JObj [])"
    by (simp add: unmarshal_value_def parse_value.simps expect_def maxNestingDepth_def skip_space_def)
  moreover have "time_encodable UTC 0" by code_simp
  ultimately show ?thesis
    by (simp add: presentable_def task_encodable_def payload_encodable_def row_defs submitted_task_def
        sample_submission_def empty_db_def IsZero_def int64_range_def byte_def)
qed

section \<open>The property\<close>



end
