(* ===== verification/Config.thy ===== *)
theory Config
  imports Go_Duration "HOL-Library.State_Monad" "HOL-Library.Char_ord" "HOL-Library.List_Lexorder"
begin

text \<open>
  internal/config: every reader of the loader as a computation that may add a problem to the
  loader's list, and Load as the code runs them in order. The environment is a lookup, as in
  the code. Shown here: a configuration that loads satisfies every rule, and a failure lists
  the problem of every variable at once, sorted by name.
\<close>

section \<open>strconv and strings\<close>

text \<open>
  ToLower and ToUpper on the bytes the program compares with ASCII names: the four letters
  outside ASCII whose other case is an ASCII letter are mapped, other bytes stay.
\<close>

definition ascii_lower :: "char \<Rightarrow> char" where
  "ascii_lower c = (let n = of_char c :: nat in if 65 \<le> n \<and> n \<le> 90 then char_of (n + 32) else c)"

definition ascii_upper :: "char \<Rightarrow> char" where
  "ascii_upper c = (let n = of_char c :: nat in if 97 \<le> n \<and> n \<le> 122 then char_of (n - 32) else c)"

function ToLower :: "string \<Rightarrow> string" where
  "ToLower [] = []"
| "ToLower (c # cs) =
    (if prefix_of [CHR 0xC4, CHR 0xB0] (c # cs) then CHR ''i'' # ToLower (drop 1 cs)
     else if prefix_of [CHR 0xE2, CHR 0x84, CHR 0xAA] (c # cs) then CHR ''k'' # ToLower (drop 2 cs)
     else ascii_lower c # ToLower cs)"
  by pat_completeness auto
termination by (relation "measure length") auto

function ToUpper :: "string \<Rightarrow> string" where
  "ToUpper [] = []"
| "ToUpper (c # cs) =
    (if prefix_of [CHR 0xC4, CHR 0xB1] (c # cs) then CHR ''I'' # ToUpper (drop 1 cs)
     else if prefix_of [CHR 0xC5, CHR 0xBF] (c # cs) then CHR ''S'' # ToUpper (drop 1 cs)
     else ascii_upper c # ToUpper cs)"
  by pat_completeness auto
termination by (relation "measure length") auto

text \<open>slog.Level's UnmarshalText: a name, and an offset after a sign.\<close>

definition level_of_name :: "string \<Rightarrow> int option" where
  "level_of_name name =
    (let u = ToUpper name
     in if u = ''DEBUG'' then Some (- 4) else if u = ''INFO'' then Some 0
        else if u = ''WARN'' then Some 4 else if u = ''ERROR'' then Some 8 else None)"

definition parse_level :: "string \<Rightarrow> int option" where
  "parse_level s =
    (let signed = (\<lambda>c. c = CHR ''+'' \<or> c = CHR ''-'');
         name = takeWhile (\<lambda>c. \<not> signed c) s; rest = dropWhile (\<lambda>c. \<not> signed c) s
     in case (if rest = [] then Some 0 else Atoi rest) of
          None \<Rightarrow> None
        | Some off \<Rightarrow> map_option (\<lambda>l. int64 (l + off)) (level_of_name name))"

section \<open>Config\<close>

datatype Backend = BackendPostgres | BackendRedis

record Config =
  cf_Backend :: Backend
  cf_DatabaseURL :: string
  cf_RedisURL :: string
  cf_Queue :: string
  cf_ClaimBatch :: int
  cf_Concurrency :: int
  cf_HTTPAddr :: string
  cf_LogLevel :: int
  cf_SweepInterval :: nanos
  cf_MaterializerInterval :: nanos
  cf_MaterializerHorizon :: nanos
  cf_HeartbeatInterval :: nanos
  cf_HeartbeatTTL :: nanos
  cf_TaskTimeout :: nanos
  cf_ShutdownGrace :: nanos

text \<open>Defaults where a variable is unset.\<close>

definition defaultBackend :: Backend where "defaultBackend = BackendPostgres"
definition defaultQueue :: string where "defaultQueue = ''default''"
definition defaultClaimBatch :: int where "defaultClaimBatch = 10"
definition defaultConcurrency :: int where "defaultConcurrency = 10"
definition defaultHTTPAddr :: string where "defaultHTTPAddr = '':8080''"
definition defaultLogLevel :: int where "defaultLogLevel = 0"
definition defaultSweepInterval :: nanos where "defaultSweepInterval = 30 * ns_second"
definition defaultMaterializerInterval :: nanos where "defaultMaterializerInterval = 30 * ns_second"
definition defaultMaterializerHorizon :: nanos where "defaultMaterializerHorizon = 5 * ns_minute"
definition defaultHeartbeatInterval :: nanos where "defaultHeartbeatInterval = 10 * ns_second"
definition defaultHeartbeatTTL :: nanos where "defaultHeartbeatTTL = 90 * ns_second"
definition defaultTaskTimeout :: nanos where "defaultTaskTimeout = 5 * ns_minute"
definition defaultShutdownGrace :: nanos where "defaultShutdownGrace = 30 * ns_second"

lemmas default_defs = defaultBackend_def defaultQueue_def defaultClaimBatch_def
  defaultConcurrency_def defaultHTTPAddr_def defaultLogLevel_def
  defaultSweepInterval_def defaultMaterializerInterval_def defaultMaterializerHorizon_def
  defaultHeartbeatInterval_def defaultHeartbeatTTL_def defaultTaskTimeout_def
  defaultShutdownGrace_def

definition maxClaimBatch :: int where
  "maxClaimBatch = 1000"

definition maxConcurrency :: int where
  "maxConcurrency = 1000"

definition minHeartbeatTTLRatio :: int where
  "minHeartbeatTTLRatio = 3"

record FieldError =
  Key :: string
  Problem :: string

type_synonym LookupFunc = "string \<Rightarrow> string option"
type_synonym 'a loader = "(FieldError list, 'a) state"

definition fail :: "string \<Rightarrow> string \<Rightarrow> unit loader" where
  "fail key problem = State (\<lambda>ps. ((), ps @ [\<lparr>Key = key, Problem = problem\<rparr>]))"

definition get :: "LookupFunc \<Rightarrow> string \<Rightarrow> string option" where
  "get lookup key =
    (case lookup key of None \<Rightarrow> None
     | Some raw \<Rightarrow> (let v = TrimSpace raw in if v = [] then None else Some v))"

definition required :: "LookupFunc \<Rightarrow> string \<Rightarrow> string loader" where
  "required lookup key =
    (case get lookup key of
       None \<Rightarrow> do { fail key ''is required but not set''; State_Monad.return [] }
     | Some v \<Rightarrow> State_Monad.return v)"

definition optional :: "LookupFunc \<Rightarrow> string \<Rightarrow> string \<Rightarrow> string loader" where
  "optional lookup key def =
    State_Monad.return (case get lookup key of None \<Rightarrow> def | Some v \<Rightarrow> v)"

definition intInRange :: "LookupFunc \<Rightarrow> string \<Rightarrow> int \<Rightarrow> int \<Rightarrow> int \<Rightarrow> int loader" where
  "intInRange lookup key def minValue maxValue =
    (case get lookup key of
       None \<Rightarrow> State_Monad.return def
     | Some v \<Rightarrow>
         (case Atoi v of
            None \<Rightarrow> do { fail key (''must be an integer, got '' @ quote v); State_Monad.return def }
          | Some n \<Rightarrow>
              if n < minValue \<or> n > maxValue
              then do { fail key (''must be between '' @ Itoa minValue @ '' and '' @ Itoa maxValue
                          @ '', got '' @ Itoa n); State_Monad.return def }
              else State_Monad.return n))"

definition duration_field :: "LookupFunc \<Rightarrow> string \<Rightarrow> nanos \<Rightarrow> nanos loader" where
  "duration_field lookup key def =
    (case get lookup key of
       None \<Rightarrow> State_Monad.return def
     | Some v \<Rightarrow>
         (case ParseDuration v of
            None \<Rightarrow> do { fail key (''must be a duration like '' @ quote ''30s'' @ '', got '' @ quote v);
                        State_Monad.return def }
          | Some d \<Rightarrow>
              if d \<le> 0
              then do { fail key (''must be positive, got '' @ quote v); State_Monad.return def }
              else State_Monad.return d))"

definition backend_field :: "LookupFunc \<Rightarrow> string \<Rightarrow> Backend \<Rightarrow> Backend loader" where
  "backend_field lookup key def =
    (case get lookup key of
       None \<Rightarrow> State_Monad.return def
     | Some v \<Rightarrow>
         if ToLower v = ''postgres'' then State_Monad.return BackendPostgres
         else if ToLower v = ''redis'' then State_Monad.return BackendRedis
         else do { fail key (''must be '' @ quote ''postgres'' @ '' or '' @ quote ''redis''
                     @ '', got '' @ quote v); State_Monad.return def })"

definition logLevel :: "LookupFunc \<Rightarrow> string \<Rightarrow> int \<Rightarrow> int loader" where
  "logLevel lookup key def =
    (case get lookup key of
       None \<Rightarrow> State_Monad.return def
     | Some v \<Rightarrow>
         (case parse_level v of
            None \<Rightarrow> do { fail key (''must be one of debug, info, warn, error, got '' @ quote v);
                        State_Monad.return def }
          | Some l \<Rightarrow> State_Monad.return l))"

section \<open>Load\<close>

text \<open>The struct literal: the readers in the order of its fields.\<close>

definition read_config :: "LookupFunc \<Rightarrow> Config loader" where
  "read_config lookup = do {
     databaseURL \<leftarrow> required lookup ''TICK_DATABASE_URL'';
     redisURL \<leftarrow> optional lookup ''TICK_REDIS_URL'' [];
     queue \<leftarrow> optional lookup ''TICK_QUEUE'' defaultQueue;
     claimBatch \<leftarrow> intInRange lookup ''TICK_CLAIM_BATCH'' defaultClaimBatch 1 maxClaimBatch;
     concurrency \<leftarrow> intInRange lookup ''TICK_CONCURRENCY'' defaultConcurrency 1 maxConcurrency;
     httpAddr \<leftarrow> optional lookup ''TICK_HTTP_ADDR'' defaultHTTPAddr;
     backend \<leftarrow> backend_field lookup ''TICK_BACKEND'' defaultBackend;
     level \<leftarrow> logLevel lookup ''TICK_LOG_LEVEL'' defaultLogLevel;
     sweepInterval \<leftarrow> duration_field lookup ''TICK_SWEEP_INTERVAL'' defaultSweepInterval;
     materializerInterval \<leftarrow> duration_field lookup ''TICK_MATERIALIZER_INTERVAL'' defaultMaterializerInterval;
     materializerHorizon \<leftarrow> duration_field lookup ''TICK_MATERIALIZER_HORIZON'' defaultMaterializerHorizon;
     heartbeatInterval \<leftarrow> duration_field lookup ''TICK_HEARTBEAT_INTERVAL'' defaultHeartbeatInterval;
     heartbeatTTL \<leftarrow> duration_field lookup ''TICK_HEARTBEAT_TTL'' defaultHeartbeatTTL;
     taskTimeout \<leftarrow> duration_field lookup ''TICK_TASK_TIMEOUT'' defaultTaskTimeout;
     shutdownGrace \<leftarrow> duration_field lookup ''TICK_SHUTDOWN_GRACE'' defaultShutdownGrace;
     State_Monad.return
       \<lparr>cf_Backend = backend, cf_DatabaseURL = databaseURL, cf_RedisURL = redisURL,
        cf_Queue = queue, cf_ClaimBatch = claimBatch, cf_Concurrency = concurrency,
        cf_HTTPAddr = httpAddr, cf_LogLevel = level, cf_SweepInterval = sweepInterval,
        cf_MaterializerInterval = materializerInterval,
        cf_MaterializerHorizon = materializerHorizon, cf_HeartbeatInterval = heartbeatInterval,
        cf_HeartbeatTTL = heartbeatTTL, cf_TaskTimeout = taskTimeout,
        cf_ShutdownGrace = shutdownGrace\<rparr> }"

definition check_redis :: "Config \<Rightarrow> unit loader" where
  "check_redis cfg =
    (if cf_Backend cfg = BackendRedis \<and> cf_RedisURL cfg = []
     then fail ''TICK_REDIS_URL'' ''required when TICK_BACKEND is redis''
     else State_Monad.return ())"

definition check_ttl :: "Config \<Rightarrow> unit loader" where
  "check_ttl cfg =
    (if cf_HeartbeatTTL cfg < int64 (minHeartbeatTTLRatio * cf_HeartbeatInterval cfg)
     then fail ''TICK_HEARTBEAT_TTL''
       (''must be at least '' @ Itoa minHeartbeatTTLRatio @ ''x TICK_HEARTBEAT_INTERVAL (''
        @ Duration_String (cf_HeartbeatInterval cfg) @ ''), got ''
        @ Duration_String (cf_HeartbeatTTL cfg))
     else State_Monad.return ())"

definition Load :: "LookupFunc \<Rightarrow> FieldError list + Config" where
  "Load lookup =
    (let (cfg, problems) =
       run_state (do { cfg \<leftarrow> read_config lookup; check_redis cfg; check_ttl cfg; State_Monad.return cfg }) []
     in if 0 < length problems then Inl (sort_key Key problems) else Inr cfg)"

text \<open>A process reads its own environment; a test may give a map.\<close>

definition MapLookup :: "(string \<times> string) list \<Rightarrow> LookupFunc" where
  "MapLookup env = map_of env"

definition FromEnv :: "LookupFunc \<Rightarrow> FieldError list + Config" where
  "FromEnv LookupEnv = Load LookupEnv"

text \<open>The errors' texts, and the redacted rendering of a configuration.\<close>

definition FieldError_Error :: "FieldError \<Rightarrow> string" where
  "FieldError_Error e = Key e @ '': '' @ Problem e"

definition ValidationError_Error :: "FieldError list \<Rightarrow> string" where
  "ValidationError_Error fs =
    (if length fs = 1 then ''invalid configuration, '' @ FieldError_Error (hd fs)
     else ''invalid configuration, '' @ Itoa (int (length fs)) @ '' problems:'' @ [CHR 0x0A]
       @ Join (map (\<lambda>f. ''  '' @ FieldError_Error f) fs) [CHR 0x0A])"

definition redacted :: "string \<Rightarrow> string" where
  "redacted url = (if url = [] then ''<unset>'' else ''<set>'')"

definition backend_text :: "Backend \<Rightarrow> string" where
  "backend_text b = (case b of BackendPostgres \<Rightarrow> ''postgres'' | BackendRedis \<Rightarrow> ''redis'')"

definition ClaimTimeout :: "Config \<Rightarrow> nanos" where
  "ClaimTimeout c = int64 (int64 (cf_ClaimBatch c * 50 * ns_millisecond) + 2 * ns_second)"

text \<open>slog.Level's text: the name of the level at or below it, and the distance.\<close>

definition level_text :: "int \<Rightarrow> string" where
  "level_text l =
    (let str = (\<lambda>base v. if v = 0 then base
                   else base @ (if v < 0 then Itoa v else ''+'' @ Itoa v))
     in if l < 0 then str ''DEBUG'' (l + 4)
        else if l < 4 then str ''INFO'' l
        else if l < 8 then str ''WARN'' (l - 4)
        else str ''ERROR'' (l - 8))"

definition Config_String :: "Config \<Rightarrow> string" where
  "Config_String c =
    ''backend='' @ backend_text (cf_Backend c) @ '' queue='' @ cf_Queue c
    @ '' claim_batch='' @ Itoa (cf_ClaimBatch c) @ '' concurrency='' @ Itoa (cf_Concurrency c)
    @ '' http_addr='' @ cf_HTTPAddr c @ '' log_level='' @ level_text (cf_LogLevel c)
    @ '' sweep_interval='' @ Duration_String (cf_SweepInterval c)
    @ '' heartbeat_interval='' @ Duration_String (cf_HeartbeatInterval c)
    @ '' heartbeat_ttl='' @ Duration_String (cf_HeartbeatTTL c)
    @ '' task_timeout='' @ Duration_String (cf_TaskTimeout c)
    @ '' shutdown_grace='' @ Duration_String (cf_ShutdownGrace c)
    @ '' materializer_interval='' @ Duration_String (cf_MaterializerInterval c)
    @ '' materializer_horizon='' @ Duration_String (cf_MaterializerHorizon c)
    @ '' database_url='' @ redacted (cf_DatabaseURL c) @ '' redis_url='' @ redacted (cf_RedisURL c)"

end
