(* ===== verification/Obs_Log.thy ===== *)
theory Obs_Log
  imports Config
begin

text \<open>
  internal/obs/log.go: the process logger. A context carries attributes that every record
  logged with it gets; a line is the list of its keys and values, in the order the JSON
  handler writes them, each passed through normalizeAttr. Rendering a line is the handler's.
\<close>

section \<open>Attributes\<close>

datatype attr_value = LevelValue int | TextValue string | IntValue int

type_synonym attr = "string \<times> attr_value"

definition normalizeAttr :: "attr \<Rightarrow> attr" where
  "normalizeAttr a =
    (if fst a = ''level''
     then (case snd a of LevelValue l \<Rightarrow> (fst a, TextValue (ToLower (level_text l))) | _ \<Rightarrow> a)
     else if fst a = ''time'' then (''ts'', snd a)
     else if fst a = ''msg'' then (''msg'', snd a)
     else a)"

text \<open>The value a context holds under the package's key; None where there is none.\<close>

type_synonym log_context = "attr list option"

definition attrsFromContext :: "log_context \<Rightarrow> attr list" where
  "attrsFromContext ctx = (case ctx of None \<Rightarrow> [] | Some attrs \<Rightarrow> attrs)"

definition With :: "log_context \<Rightarrow> attr list \<Rightarrow> log_context" where
  "With ctx attrs = (if attrs = [] then ctx else Some (attrsFromContext ctx @ attrs))"

section \<open>The logger\<close>

record LoggerOptions =
  opt_Level :: int
  opt_Service :: string
  opt_Version :: string

record logger =
  lg_level :: int
  lg_attrs :: "attr list"

definition NewLogger :: "LoggerOptions \<Rightarrow> logger" where
  "NewLogger opts =
    \<lparr>lg_level = opt_Level opts,
     lg_attrs = (if opt_Service opts = [] then [] else [(''service'', TextValue (opt_Service opts))])
       @ (if opt_Version opts = [] then [] else [(''version'', TextValue (opt_Version opts))])\<rparr>"

definition WithAttrs :: "logger \<Rightarrow> attr list \<Rightarrow> logger" where
  "WithAttrs h attrs = h\<lparr>lg_attrs := lg_attrs h @ attrs\<rparr>"

record log_record =
  rec_time :: string
  rec_level :: int
  rec_msg :: string
  rec_attrs :: "attr list"

text \<open>contextHandler.Handle: the record with the context's attributes, as a line.\<close>

definition Handle :: "logger \<Rightarrow> log_context \<Rightarrow> log_record \<Rightarrow> attr list" where
  "Handle h ctx r =
    (let r' = r\<lparr>rec_attrs := rec_attrs r @ attrsFromContext ctx\<rparr>
     in map normalizeAttr
          ([(''time'', TextValue (rec_time r')), (''level'', LevelValue (rec_level r')),
            (''msg'', TextValue (rec_msg r'))] @ lg_attrs h @ rec_attrs r'))"

text \<open>A record below the logger's level is not written.\<close>

definition log_line :: "logger \<Rightarrow> log_context \<Rightarrow> log_record \<Rightarrow> attr list option" where
  "log_line h ctx r = (if rec_level r < lg_level h then None else Some (Handle h ctx r))"

section \<open>What a line carries\<close>

lemma With_With: "With (With ctx a) b = With ctx (a @ b)"
  by (auto simp: With_def attrsFromContext_def split: option.splits)

lemma attrsFromContext_With [simp]: "attrsFromContext (With ctx a) = attrsFromContext ctx @ a"
  by (simp add: With_def attrsFromContext_def)

text \<open>
  Attributes reach the line of exactly the context they were attached to, after those of its
  parent; each line starts with its time, its level in lower case and its message.
\<close>

lemma Handle_With:
  "Handle h (With ctx a) r = Handle h ctx r @ map normalizeAttr a"
  by (simp add: Handle_def)

lemma Handle_head:
  "take 3 (Handle h ctx r) =
    [(''ts'', TextValue (rec_time r)), (''level'', TextValue (ToLower (level_text (rec_level r)))),
     (''msg'', TextValue (rec_msg r))]"
  by (simp add: Handle_def normalizeAttr_def)

lemma Handle_service:
  "opt_Service opts \<noteq> [] \<Longrightarrow>
    (''service'', TextValue (opt_Service opts)) \<in> set (Handle (WithAttrs (NewLogger opts) attrs) ctx r)"
  by (auto simp: Handle_def NewLogger_def WithAttrs_def normalizeAttr_def)

end
