(* ===== verification/Api_Log.thy ===== *)
theory Api_Log
  imports Api_Facts Obs_Log
begin

text \<open>
  The logging half of internal/api/middleware.go: the line requestLogger writes once a handler
  has returned, and the one recoverer writes for a panic, with the whole stack that New wires.
  Shown: logging changes no answer, and every request leaves exactly one line of the access
  log, with the status and the request id its client got.
\<close>

section \<open>The middleware\<close>

text \<open>
  What the logger reads of a request: its method, path and id, the bytes written and the time
  it took, and the value a panic carries.
\<close>

record access =
  ac_method :: string
  ac_path :: string
  ac_reqID :: string
  ac_bytes :: int
  ac_elapsed :: nanos
  ac_panic :: string
  ac_time :: string

definition LevelInfo :: int where "LevelInfo = 0"
definition LevelError :: int where "LevelError = 8"

definition request_record :: "access \<Rightarrow> int \<Rightarrow> log_record" where
  "request_record a status =
    \<lparr>rec_time = ac_time a, rec_level = LevelInfo, rec_msg = ''http request'',
     rec_attrs = [(''method'', TextValue (ac_method a)), (''path'', TextValue (ac_path a)),
       (''status'', IntValue status), (''bytes'', IntValue (ac_bytes a)),
       (''duration_ms'', IntValue (ac_elapsed a div ns_millisecond)),
       (''request_id'', TextValue (ac_reqID a))]\<rparr>"

definition panic_record :: "access \<Rightarrow> log_record" where
  "panic_record a =
    \<lparr>rec_time = ac_time a, rec_level = LevelError, rec_msg = ''panic recovered'',
     rec_attrs = [(''error'', TextValue (ac_panic a)), (''request_id'', TextValue (ac_reqID a))]\<rparr>"

text \<open>A panic passes the request logger by; recoverer, outside it, catches and logs it.\<close>

definition requestLogger :: "logger \<Rightarrow> log_context \<Rightarrow> access \<Rightarrow> handling \<Rightarrow> handling \<times> attr list list" where
  "requestLogger lg ctx a res =
    (res, case res of
            Responds resp \<Rightarrow> (case log_line lg ctx (request_record a (rs_status resp)) of None \<Rightarrow> [] | Some l \<Rightarrow> [l])
          | _ \<Rightarrow> [])"

definition logged_recoverer :: "logger \<Rightarrow> log_context \<Rightarrow> access \<Rightarrow> handling \<times> attr list list
    \<Rightarrow> handling \<times> attr list list" where
  "logged_recoverer lg ctx a = (\<lambda>(res, logged).
    (panic_recoverer res,
     case res of
       Panics \<Rightarrow> logged @ (case log_line lg ctx (panic_record a) of None \<Rightarrow> [] | Some l \<Rightarrow> [l])
     | _ \<Rightarrow> logged))"

definition serve_logged :: "'spec api_env \<Rightarrow> 'st api_store \<Rightarrow> logger \<Rightarrow> log_context \<Rightarrow> access \<Rightarrow> instant
    \<Rightarrow> request \<Rightarrow> 'st \<Rightarrow> 'st \<times> handling \<times> attr list list" where
  "serve_logged e store lg ctx a now r st =
    (case routes e store now r st of
       (st', res) \<Rightarrow> (st', apfst (setRequestIDHeader (ac_reqID a))
                           (logged_recoverer lg ctx a (requestLogger lg ctx a res))))"

section \<open>What the log holds\<close>

text \<open>Logging changes neither the store nor the answer.\<close>

lemma serve_logged_answers:
  "serve_logged e store lg ctx a now r st = (st', res, logged) \<Longrightarrow>
    serve e store (ac_reqID a) now r st = (st', res)"
  by (auto simp: serve_logged_def serve_def logged_recoverer_def requestLogger_def split: prod.splits)

text \<open>
  Against the Postgres store every request leaves one line, at a logger that writes Info lines:
  the one of the access log, with the status the client got.
\<close>

lemma one_line_per_request:
  assumes "reachable d" and "env_ok (cron_lib e)" and "lg_level lg \<le> LevelInfo"
    and "serve_logged e (net_api_store lk) lg ctx a now r d = (d', res, logged)"
  shows "\<exists>resp. res = Responds resp \<and> logged = [Handle lg ctx (request_record a (rs_status resp))]"
proof -
  obtain d1 resp where "routes e (net_api_store lk) now r d = (d1, Responds resp)"
    using net_api_answers [OF assms(1,2), of lk now r] by blast
  then show ?thesis
    using assms(3,4)
    by (auto simp: serve_logged_def logged_recoverer_def requestLogger_def log_line_def request_record_def
        panic_recoverer_def setRequestIDHeader_def)
qed

lemma access_line:
  "{(''status'', IntValue s), (''request_id'', TextValue (ac_reqID a))} \<subseteq> set (Handle lg ctx (request_record a s))"
  by (auto simp: Handle_def request_record_def normalizeAttr_def)

end
