(* ===== verification/Scheduler.thy ===== *)
theory Scheduler
  imports Materializer_Store Worker_Facts
begin

text \<open>
  The two loops of cmd/tick-scheduler beside each other and beside every other node: passes
  of the materializer, sweeps, and anything else in between, in any order. Both loops are
  shown to be runs of the store's methods, to go on whatever they meet, and to leave what
  each of them promises in place however the other one and the other nodes interleave.
\<close>

section \<open>The loops (main.go)\<close>

text \<open>One event is one iteration of one of the loops, or whatever others did meanwhile.\<close>

datatype 'st scheduler_event = Pass instant | Sweep | Others "'st \<Rightarrow> 'st"

fun scheduler_loops :: "'spec cron_env \<Rightarrow> 'st mat_store \<Rightarrow> ('st, 'm) Sweeper \<Rightarrow> runner
    \<Rightarrow> 'st scheduler_event list \<Rightarrow> 'st \<times> log_entry list \<times> 'm \<Rightarrow> ('st \<times> log_entry list \<times> 'm) option" where
  "scheduler_loops e store sw r [] s = Some s"
| "scheduler_loops e store sw r (Pass now # evs) (st, logs, cnt) =
    (case RunOnce e store r st now of
       None \<Rightarrow> None
     | Some (st', logs') \<Rightarrow> scheduler_loops e store sw r evs (st', logs @ logs', cnt))"
| "scheduler_loops e store sw r (Sweep # evs) (st, logs, cnt) =
    (let (st', cnt') = sweepOnce sw (st, cnt) in scheduler_loops e store sw r evs (st', logs, cnt'))"
| "scheduler_loops e store sw r (Others f # evs) (st, logs, cnt) =
    scheduler_loops e store sw r evs (f st, logs, cnt)"

text \<open>With one of the loops alone, the events are the iterations of that loop's Run.\<close>

lemma loops_materializer_only:
  "scheduler_loops e store sw r (concat (map (\<lambda>(wait, now). [Others wait, Pass now]) ticks)) (st, logs, cnt)
    = map_option (\<lambda>(st', logs'). (st', logs @ logs', cnt)) (Run e store r st ticks)"
proof (induction ticks arbitrary: st logs)
  case (Cons tick ticks)
  obtain wait now where tick: "tick = (wait, now)" by (cases tick)
  show ?case
  proof (cases "RunOnce e store r (wait st) now")
    case (Some res)
    then show ?thesis
      using Cons.IH by (cases res) (auto simp: tick option.map_comp comp_def split: option.split)
  qed (simp add: tick)
qed simp

lemma loops_sweeper_only:
  "scheduler_loops e store sw r (concat (map (\<lambda>wait. [Others wait, Sweep]) waits)) (st, logs, cnt)
    = (let (st', cnt') = sweep_ticks sw waits (st, cnt) in Some (st', logs, cnt'))"
proof (induction waits arbitrary: st cnt)
  case (Cons wait waits)
  then show ?case by (cases "sweepOnce sw (wait st, cnt)") simp
qed simp

section \<open>Passes and sweeps are runs of the store\<close>

lemma materializeOne_runs:
  assumes "materializeOne e pg_mat_store h d now s = Some (d', err)"
  shows "runs_to d d'"
proof -
  have bulk: "runs_to d (fst (EnqueueBulk d ts))" for ts
    by (rule runs_to_step [OF store_step.enqueue_bulk [OF surjective_pairing]])
  have both: "runs_to d (AdvanceLastMaterializedAt (fst (EnqueueBulk d ts)) (s_id s) pt)" for ts pt
    by (rule runs_to_trans [OF bulk runs_to_step [OF store_step.advance_resume_point]])
  obtain r where plan: "Plan e s now h = Some r" using assms by (auto simp: materializeOne_def split: option.splits)
  show ?thesis
  proof (cases r)
    case (Inl p)
    then show ?thesis using assms plan by (simp add: materializeOne_def runs_to_refl)
  next
    case (Inr fs)
    then show ?thesis
      using assms plan bulk [of "map (TaskFor s) fs"] both [of "map (TaskFor s) fs" "last fs"]
      by (auto simp: materializeOne_def Materialize_def pg_mat_store_def runs_to_refl
          split: prod.splits sum.splits if_splits)
  qed
qed

lemma materialize_each_runs:
  "materialize_each e pg_mat_store h now d ss = Some (d', logs) \<Longrightarrow> runs_to d d'"
proof (induction ss arbitrary: d logs)
  case (Cons s ss)
  obtain d1 err logs1 where "materializeOne e pg_mat_store h d now s = Some (d1, err)"
    and "materialize_each e pg_mat_store h now d1 ss = Some (d', logs1)"
    using Cons.prems by (auto split: option.splits)
  then show ?case using materializeOne_runs Cons.IH runs_to_trans by blast
qed (simp add: runs_to_refl)

lemma RunOnce_runs: "RunOnce e pg_mat_store r d now = Some (d', logs) \<Longrightarrow> runs_to d d'"
  by (auto simp: RunOnce_def pg_mat_store_def [THEN arg_cong, of op_ListEnabledSchedules]
      dest: materialize_each_runs)

lemma sweepOnce_runs:
  assumes "sw_recoverer sw = net_recoverer lost" and "sweepOnce sw (d, cnt) = (d', cnt')"
  shows "runs_to d d'"
  using net_runs(5) [of d "lost d"] assms
  by (auto simp: sweepOnce_def net_recoverer_def split: prod.splits sum.splits)

section \<open>Any interleaving of the two loops\<close>

lemma loops_append: "scheduler_loops e store sw r (evs @ evs') s
    = Option.bind (scheduler_loops e store sw r evs s) (scheduler_loops e store sw r evs')"
  by (induction e store sw r evs s rule: scheduler_loops.induct)
    (simp_all add: Let_def split: option.split prod.split)

definition others_run :: "db scheduler_event list \<Rightarrow> bool" where
  "others_run evs \<longleftrightarrow> (\<forall>f d. Others f \<in> set evs \<longrightarrow> reachable d \<longrightarrow> runs_to d (f d))"

lemma others_run_append: "others_run (evs @ evs') \<longleftrightarrow> others_run evs \<and> others_run evs'"
  by (auto simp: others_run_def)

lemma loops_run:
  assumes "env_ok e" and sw: "sw_recoverer sw = net_recoverer lost"
  shows "reachable d \<Longrightarrow> others_run evs \<Longrightarrow>
    \<exists>d' logs' cnt'. scheduler_loops e pg_mat_store sw r evs (d, logs, cnt) = Some (d', logs', cnt')
      \<and> runs_to d d'"
proof (induction evs arbitrary: d logs cnt)
  case (Cons ev evs)
  have rest: "others_run evs" using Cons.prems(2) by (simp add: others_run_def)
  obtain d1 logs1 cnt1 where one: "runs_to d d1"
    and step: "scheduler_loops e pg_mat_store sw r (ev # evs) (d, logs, cnt)
      = scheduler_loops e pg_mat_store sw r evs (d1, logs1, cnt1)"
  proof (cases ev)
    case (Pass now)
    obtain d1 logs1 where "RunOnce e pg_mat_store r d now = Some (d1, logs1)"
      using pg_mat.run_once_returns [OF assms(1)] by (metis prod.collapse)
    then show ?thesis using RunOnce_runs Pass by (fastforce intro: that)
  next
    case Sweep
    obtain d1 cnt1 where "sweepOnce sw (d, cnt) = (d1, cnt1)" by fastforce
    then show ?thesis using sweepOnce_runs [OF sw] Sweep by (fastforce intro: that)
  next
    case (Others f)
    then show ?thesis using Cons.prems by (fastforce simp: others_run_def intro: that)
  qed
  from Cons.IH [OF runs_to_reachable [OF one Cons.prems(1)] rest, of logs1 cnt1] show ?case
    using one step runs_to_trans by metis
qed (simp add: runs_to_refl)

text \<open>What a pass plans stays in the table through everything that follows.\<close>

lemma loops_hold_planned:
  assumes "reachable d" and "env_ok e" and sw: "sw_recoverer sw = net_recoverer lost"
    and "others_run (before @ Pass now # after)"
    and "scheduler_loops e pg_mat_store sw r (before @ Pass now # after) (d, logs, cnt)
      = Some (d', logs', cnt')"
  shows "\<exists>d1 logs1 cnt1. scheduler_loops e pg_mat_store sw r before (d, logs, cnt)
      = Some (d1, logs1, cnt1)
    \<and> (\<forall>s \<in> set (ListEnabledSchedules d1). \<forall>fs. Plan e s now (micros (r_horizon r)) = Some (Inr fs) \<longrightarrow>
        (\<forall>f \<in> set fs. fire_held (tasks d') s f))"
proof -
  have others: "others_run before" "others_run after"
    using assms(4) by (auto simp: others_run_def)
  obtain d1 logs1 cnt1 where first: "scheduler_loops e pg_mat_store sw r before (d, logs, cnt)
      = Some (d1, logs1, cnt1)" and d1: "runs_to d d1"
    using loops_run [OF assms(2) sw assms(1) others(1)] by blast
  have reach: "reachable d1" by (rule runs_to_reachable [OF d1 assms(1)])
  obtain d2 logs2 where pass: "RunOnce e pg_mat_store r d1 now = Some (d2, logs2)"
    and planned: "\<forall>s \<in> set (ListEnabledSchedules d1). \<forall>fs. Plan e s now (micros (r_horizon r)) = Some (Inr fs) \<longrightarrow>
        (\<forall>f \<in> set fs. fire_held (tasks d2) s f)"
    using RunOnce_materializes [OF reachable_inv [OF reach] assms(2), of r now] by blast
  have reach2: "reachable d2" by (rule runs_to_reachable [OF RunOnce_runs [OF pass] reach])
  have "runs_to d2 d'"
    using loops_run [OF assms(2) sw reach2 others(2), of r "logs1 @ logs2" cnt1] assms(5)
    by (auto simp: loops_append first pass)
  then show ?thesis
    using first planned runs_to_keeps_fire [OF _ reach2] by blast
qed

lemma loops_end_swept:
  assumes "reachable d" and "env_ok e" and sw: "sw_recoverer sw = net_recoverer lost"
    and "others_run before"
    and "scheduler_loops e pg_mat_store sw r (before @ [Sweep]) (d, logs, cnt)
      = Some (d', logs', cnt')"
  shows "\<exists>d1 logs1 cnt1. scheduler_loops e pg_mat_store sw r before (d, logs, cnt)
      = Some (d1, logs1, cnt1) \<and> (reaches (lost d1) \<longrightarrow> (\<forall>t \<in> set (tasks d'). \<not> stale (clock d') t))"
proof -
  obtain d1 logs1 cnt1 where first: "scheduler_loops e pg_mat_store sw r before (d, logs, cnt)
      = Some (d1, logs1, cnt1)" and d1: "runs_to d d1"
    using loops_run [OF assms(2) sw assms(1,4)] by blast
  have "reachable d1" by (rule runs_to_reachable [OF d1 assms(1)])
  from sweepOnce_net [OF this sw, of cnt1] assms(5) show ?thesis
    by (auto simp: loops_append first orphan_ids_def)
qed

end
