(* ===== verification/Config_Facts.thy ===== *)
theory Config_Facts
  imports Config
begin

text \<open>
  Loading is total: the variables' own rules are stated as a table, apart from the code that
  reads them, and a load reports the problem of every variable that breaks its rule, or
  returns a configuration that keeps every rule.
\<close>

section \<open>The rules\<close>

datatype setting = SRequired | SText | SInt int int | SBackend | SLevel | SDuration

definition settings :: "(string \<times> setting) list" where
  "settings =
    [(''TICK_DATABASE_URL'', SRequired), (''TICK_REDIS_URL'', SText), (''TICK_QUEUE'', SText),
     (''TICK_CLAIM_BATCH'', SInt 1 1000), (''TICK_CONCURRENCY'', SInt 1 1000),
     (''TICK_HTTP_ADDR'', SText), (''TICK_BACKEND'', SBackend), (''TICK_LOG_LEVEL'', SLevel),
     (''TICK_SWEEP_INTERVAL'', SDuration), (''TICK_MATERIALIZER_INTERVAL'', SDuration),
     (''TICK_MATERIALIZER_HORIZON'', SDuration), (''TICK_HEARTBEAT_INTERVAL'', SDuration),
     (''TICK_HEARTBEAT_TTL'', SDuration), (''TICK_TASK_TIMEOUT'', SDuration),
     (''TICK_SHUTDOWN_GRACE'', SDuration)]"

text \<open>What is wrong with a variable's trimmed value, if anything; None is an unset variable.\<close>

fun variable_problem :: "setting \<Rightarrow> string option \<Rightarrow> string option" where
  "variable_problem SRequired None = Some ''is required but not set''"
| "variable_problem (SInt lo hi) (Some v) =
    (case Atoi v of
       None \<Rightarrow> Some (''must be an integer, got '' @ quote v)
     | Some n \<Rightarrow> if lo \<le> n \<and> n \<le> hi then None
                else Some (''must be between '' @ Itoa lo @ '' and '' @ Itoa hi @ '', got '' @ Itoa n))"
| "variable_problem SBackend (Some v) =
    (if ToLower v \<in> {''postgres'', ''redis''} then None
     else Some (''must be '' @ quote ''postgres'' @ '' or '' @ quote ''redis'' @ '', got '' @ quote v))"
| "variable_problem SLevel (Some v) =
    (if parse_level v = None then Some (''must be one of debug, info, warn, error, got '' @ quote v)
     else None)"
| "variable_problem SDuration (Some v) =
    (case ParseDuration v of
       None \<Rightarrow> Some (''must be a duration like '' @ quote ''30s'' @ '', got '' @ quote v)
     | Some d \<Rightarrow> if 0 < d then None else Some (''must be positive, got '' @ quote v))"
| "variable_problem _ _ = None"

definition problem_at :: "LookupFunc \<Rightarrow> string \<times> setting \<Rightarrow> FieldError list" where
  "problem_at lookup s =
    (case variable_problem (snd s) (get lookup (fst s)) of None \<Rightarrow> []
     | Some p \<Rightarrow> [\<lparr>Key = fst s, Problem = p\<rparr>])"

text \<open>What every configuration in use satisfies; the last rule as the code computes it.\<close>

definition config_ok :: "Config \<Rightarrow> bool" where
  "config_ok c \<longleftrightarrow>
    cf_DatabaseURL c \<noteq> [] \<and> cf_Queue c \<noteq> [] \<and> cf_HTTPAddr c \<noteq> []
    \<and> 1 \<le> cf_ClaimBatch c \<and> cf_ClaimBatch c \<le> 1000
    \<and> 1 \<le> cf_Concurrency c \<and> cf_Concurrency c \<le> 1000
    \<and> (\<forall>d \<in> {cf_SweepInterval c, cf_MaterializerInterval c, cf_MaterializerHorizon c,
         cf_HeartbeatInterval c, cf_HeartbeatTTL c, cf_TaskTimeout c, cf_ShutdownGrace c}.
         0 < d \<and> d < 2 ^ 63)
    \<and> (cf_Backend c = BackendRedis \<longrightarrow> cf_RedisURL c \<noteq> [])
    \<and> int64 (3 * cf_HeartbeatInterval c) \<le> cf_HeartbeatTTL c"

section \<open>The readers\<close>

named_theorems loader_simps \<open>running the loader's computations\<close>

lemma run_return [loader_simps]: "run_state (State_Monad.return a) ps = (a, ps)"
  by (simp add: State_Monad.return_def)

lemma run_bind [loader_simps]:
  "run_state (State_Monad.bind m f) ps = (case run_state m ps of (a, ps') \<Rightarrow> run_state (f a) ps')"
  by (simp add: State_Monad.bind_def)

lemma run_fail [loader_simps]:
  "run_state (fail key problem) ps = ((), ps @ [\<lparr>Key = key, Problem = problem\<rparr>])"
  by (simp add: fail_def)

lemma get_nonempty: "get lookup key = Some v \<Longrightarrow> v \<noteq> []"
  by (auto simp: get_def Let_def split: option.splits if_splits)

lemma run_required:
  "\<exists>v. \<forall>ps. run_state (required lookup key) ps = (v, ps @ problem_at lookup (key, SRequired))
    \<and> (problem_at lookup (key, SRequired) = [] \<longrightarrow> v \<noteq> [])"
  by (cases "get lookup key")
    (auto simp: required_def problem_at_def loader_simps dest: get_nonempty)

lemma run_optional:
  "\<exists>v. \<forall>ps. run_state (optional lookup key def) ps = (v, ps @ problem_at lookup (key, SText))
    \<and> (def \<noteq> [] \<longrightarrow> v \<noteq> [])"
  by (cases "get lookup key")
    (auto simp: optional_def problem_at_def loader_simps dest: get_nonempty)

lemma run_intInRange:
  assumes "lo \<le> def" and "def \<le> hi"
  shows "\<exists>n. \<forall>ps. run_state (intInRange lookup key def lo hi) ps
      = (n, ps @ problem_at lookup (key, SInt lo hi)) \<and> lo \<le> n \<and> n \<le> hi"
  using assms
  by (cases "get lookup key")
    (auto simp: intInRange_def problem_at_def loader_simps split: option.splits)

lemma run_duration:
  assumes "0 < def" and "def < 2 ^ 63"
  shows "\<exists>d. \<forall>ps. run_state (duration_field lookup key def) ps
      = (d, ps @ problem_at lookup (key, SDuration)) \<and> 0 < d \<and> d < 2 ^ 63"
proof (cases "get lookup key")
  case None
  then show ?thesis using assms by (auto simp: duration_field_def problem_at_def loader_simps)
next
  case (Some v)
  show ?thesis
  proof (cases "ParseDuration v")
    case None
    then show ?thesis
      using assms Some by (auto simp: duration_field_def problem_at_def loader_simps)
  next
    case (Some d)
    then show ?thesis
      using assms \<open>get lookup key = Some v\<close> ParseDuration_less [OF Some]
      by (cases "0 < d") (auto simp: duration_field_def problem_at_def loader_simps)
  qed
qed

lemma run_backend:
  "\<exists>b. \<forall>ps. run_state (backend_field lookup key def) ps = (b, ps @ problem_at lookup (key, SBackend))"
  by (cases "get lookup key") (auto simp: backend_field_def problem_at_def loader_simps)

lemma run_logLevel:
  "\<exists>l. \<forall>ps. run_state (logLevel lookup key def) ps = (l, ps @ problem_at lookup (key, SLevel))"
  by (cases "get lookup key") (auto simp: logLevel_def problem_at_def loader_simps split: option.splits)

lemma default_durations:
  "0 < 30 * ns_second" "30 * ns_second < 2 ^ 63" "0 < 5 * ns_minute" "5 * ns_minute < 2 ^ 63"
  "0 < 10 * ns_second" "10 * ns_second < 2 ^ 63" "0 < 90 * ns_second" "90 * ns_second < 2 ^ 63"
  by (simp_all add: ns_second_def ns_minute_def ns_millisecond_def)

lemma run_read_config:
  "\<exists>c. run_state (read_config lookup) [] = (c, concat (map (problem_at lookup) settings))
    \<and> (concat (map (problem_at lookup) settings) = [] \<longrightarrow> cf_DatabaseURL c \<noteq> [])
    \<and> cf_Queue c \<noteq> [] \<and> cf_HTTPAddr c \<noteq> []
    \<and> 1 \<le> cf_ClaimBatch c \<and> cf_ClaimBatch c \<le> 1000
    \<and> 1 \<le> cf_Concurrency c \<and> cf_Concurrency c \<le> 1000
    \<and> (\<forall>d \<in> {cf_SweepInterval c, cf_MaterializerInterval c, cf_MaterializerHorizon c,
         cf_HeartbeatInterval c, cf_HeartbeatTTL c, cf_TaskTimeout c, cf_ShutdownGrace c}.
         0 < d \<and> d < 2 ^ 63)"
proof -
  obtain url where url: "\<And>ps. run_state (required lookup ''TICK_DATABASE_URL'') ps
      = (url, ps @ problem_at lookup (''TICK_DATABASE_URL'', SRequired))"
    "problem_at lookup (''TICK_DATABASE_URL'', SRequired) = [] \<longrightarrow> url \<noteq> []"
    using run_required by metis
  obtain redis where redis: "\<And>ps. run_state (optional lookup ''TICK_REDIS_URL'' []) ps
      = (redis, ps @ problem_at lookup (''TICK_REDIS_URL'', SText))"
    using run_optional by metis
  obtain queue where queue: "\<And>ps. run_state (optional lookup ''TICK_QUEUE'' ''default'') ps
      = (queue, ps @ problem_at lookup (''TICK_QUEUE'', SText))" "queue \<noteq> []"
    using run_optional [of lookup "''TICK_QUEUE''" "''default''"] by (metis list.distinct(1))
  obtain addr where addr: "\<And>ps. run_state (optional lookup ''TICK_HTTP_ADDR'' '':8080'') ps
      = (addr, ps @ problem_at lookup (''TICK_HTTP_ADDR'', SText))" "addr \<noteq> []"
    using run_optional [of lookup "''TICK_HTTP_ADDR''" "'':8080''"] by (metis list.distinct(1))
  obtain batch where batch: "\<And>ps. run_state (intInRange lookup ''TICK_CLAIM_BATCH'' 10 1 maxClaimBatch) ps
      = (batch, ps @ problem_at lookup (''TICK_CLAIM_BATCH'', SInt 1 1000))" "1 \<le> batch" "batch \<le> 1000"
    using run_intInRange [of 1 10 1000 lookup "''TICK_CLAIM_BATCH''"] by (auto simp: maxClaimBatch_def)
  obtain conc where conc: "\<And>ps. run_state (intInRange lookup ''TICK_CONCURRENCY'' 10 1 maxConcurrency) ps
      = (conc, ps @ problem_at lookup (''TICK_CONCURRENCY'', SInt 1 1000))" "1 \<le> conc" "conc \<le> 1000"
    using run_intInRange [of 1 10 1000 lookup "''TICK_CONCURRENCY''"] by (auto simp: maxConcurrency_def)
  obtain backend where backend: "\<And>ps. run_state (backend_field lookup ''TICK_BACKEND'' BackendPostgres) ps
      = (backend, ps @ problem_at lookup (''TICK_BACKEND'', SBackend))"
    using run_backend by metis
  obtain level where level: "\<And>ps. run_state (logLevel lookup ''TICK_LOG_LEVEL'' 0) ps
      = (level, ps @ problem_at lookup (''TICK_LOG_LEVEL'', SLevel))"
    using run_logLevel by metis
  define d where "d key def = fst (run_state (duration_field lookup key def) [])" for key def
  have d: "run_state (duration_field lookup key def) ps
      = (d key def, ps @ problem_at lookup (key, SDuration))" "0 < d key def \<and> d key def < 2 ^ 63"
    if "0 < def" "def < 2 ^ 63" for key def ps
    using run_duration [OF that, of lookup key] by (auto simp: d_def)
  note runs = url(1) redis queue(1) addr(1) batch(1) conc(1) backend level
    d(1) [OF default_durations(1,2)] d(1) [OF default_durations(3,4)]
    d(1) [OF default_durations(5,6)] d(1) [OF default_durations(7,8)]
  note bounds = d(2) [OF default_durations(1,2)] d(2) [OF default_durations(3,4)]
    d(2) [OF default_durations(5,6)] d(2) [OF default_durations(7,8)]
  show ?thesis
    unfolding read_config_def default_defs run_bind runs prod.case run_return
    using url(2) queue(2) addr(2) batch(2,3) conc(2,3) bounds by (simp add: settings_def)
qed

section \<open>Load\<close>

definition redis_problem :: "Config \<Rightarrow> FieldError list" where
  "redis_problem c =
    (if cf_Backend c = BackendRedis \<and> cf_RedisURL c = []
     then [\<lparr>Key = ''TICK_REDIS_URL'', Problem = ''required when TICK_BACKEND is redis''\<rparr>] else [])"

lemma run_checks:
  "\<exists>ttl. run_state (do { check_redis c; check_ttl c; State_Monad.return c }) ps
      = (c, ps @ redis_problem c @ ttl)
    \<and> (ttl = [] \<longleftrightarrow> int64 (3 * cf_HeartbeatInterval c) \<le> cf_HeartbeatTTL c)
    \<and> Key ` set ttl \<subseteq> {''TICK_HEARTBEAT_TTL''}"
  by (auto simp: check_redis_def check_ttl_def redis_problem_def minHeartbeatTTLRatio_def loader_simps)

lemma Load_cases:
  obtains c ttl where "Load lookup =
      (let ps = concat (map (problem_at lookup) settings) @ redis_problem c @ ttl
       in if ps = [] then Inr c else Inl (sort_key Key ps))"
    and "concat (map (problem_at lookup) settings) @ redis_problem c @ ttl = [] \<Longrightarrow> config_ok c"
    and "Key ` set ttl \<subseteq> {''TICK_HEARTBEAT_TTL''}"
proof -
  obtain c where c: "run_state (read_config lookup) [] = (c, concat (map (problem_at lookup) settings))"
    "concat (map (problem_at lookup) settings) = [] \<longrightarrow> cf_DatabaseURL c \<noteq> []"
    "cf_Queue c \<noteq> []" "cf_HTTPAddr c \<noteq> []"
    "1 \<le> cf_ClaimBatch c \<and> cf_ClaimBatch c \<le> 1000 \<and> 1 \<le> cf_Concurrency c \<and> cf_Concurrency c \<le> 1000"
    "\<forall>d \<in> {cf_SweepInterval c, cf_MaterializerInterval c, cf_MaterializerHorizon c,
         cf_HeartbeatInterval c, cf_HeartbeatTTL c, cf_TaskTimeout c, cf_ShutdownGrace c}.
         0 < d \<and> d < 2 ^ 63"
    using run_read_config [of lookup] by blast
  obtain ttl where t: "run_state (do { check_redis c; check_ttl c; State_Monad.return c })
      (concat (map (problem_at lookup) settings))
      = (c, concat (map (problem_at lookup) settings) @ redis_problem c @ ttl)"
    "ttl = [] \<longleftrightarrow> int64 (3 * cf_HeartbeatInterval c) \<le> cf_HeartbeatTTL c"
    "Key ` set ttl \<subseteq> {''TICK_HEARTBEAT_TTL''}"
    using run_checks by meson
  have load: "Load lookup =
      (let ps = concat (map (problem_at lookup) settings) @ redis_problem c @ ttl
       in if ps = [] then Inr c else Inl (sort_key Key ps))"
  proof -
    have "run_state (do { cfg \<leftarrow> read_config lookup; check_redis cfg; check_ttl cfg;
        State_Monad.return cfg }) [] = (c, concat (map (problem_at lookup) settings) @ redis_problem c @ ttl)"
      unfolding run_bind [of "read_config lookup"] c(1) prod.case by (rule t(1))
    then show ?thesis unfolding Load_def Let_def by (simp del: append_is_Nil_conv)
  qed
  have "config_ok c" if "concat (map (problem_at lookup) settings) @ redis_problem c @ ttl = []"
  proof -
    have none: "concat (map (problem_at lookup) settings) = []" "redis_problem c = []" "ttl = []"
      using that by auto
    then show ?thesis
      using c(2-6) t(2) unfolding config_ok_def redis_problem_def by (auto split: if_splits)
  qed
  with load t(3) show thesis by (intro that)
qed

lemma problems_listed:
  "e \<in> set (concat (map (problem_at lookup) settings)) \<longleftrightarrow>
    (\<exists>k. (Key e, k) \<in> set settings \<and> variable_problem k (get lookup (Key e)) = Some (Problem e))"
  by (force simp: problem_at_def split: option.splits)

text \<open>
  C39. Loading the configuration never stops at the first mistake. It fails with a list,
  sorted by variable, that has the problem of every variable whose value breaks its rule and
  nothing else but the two rules that relate variables; or it returns a configuration in
  which every variable keeps its rule, the Redis backend has its URL, and the heartbeat TTL
  is at least three intervals wide (as 64-bit arithmetic computes it).
\<close>

theorem load_reports_every_problem:
  "case Load lookup of
     Inr c \<Rightarrow> config_ok c
       \<and> (\<forall>key k. (key, k) \<in> set settings \<longrightarrow> variable_problem k (get lookup key) = None)
   | Inl ps \<Rightarrow> ps \<noteq> [] \<and> sorted (map Key ps)
       \<and> (\<forall>key k p. (key, k) \<in> set settings \<longrightarrow> variable_problem k (get lookup key) = Some p \<longrightarrow>
           \<lparr>Key = key, Problem = p\<rparr> \<in> set ps)
       \<and> (\<forall>e \<in> set ps. Key e \<in> {''TICK_REDIS_URL'', ''TICK_HEARTBEAT_TTL''}
           \<or> (\<exists>k. (Key e, k) \<in> set settings
               \<and> variable_problem k (get lookup (Key e)) = Some (Problem e)))"
proof (rule Load_cases [of lookup])
  fix c ttl
  let ?own = "concat (map (problem_at lookup) settings)"
  let ?ps = "?own @ redis_problem c @ ttl"
  assume load: "Load lookup = (let ps = ?ps in if ps = [] then Inr c else Inl (sort_key Key ps))"
    and ok: "?ps = [] \<Longrightarrow> config_ok c" and ttl: "Key ` set ttl \<subseteq> {''TICK_HEARTBEAT_TTL''}"
  have own: "\<lparr>Key = key, Problem = p\<rparr> \<in> set ?own"
    if "(key, k) \<in> set settings" "variable_problem k (get lookup key) = Some p" for key k p
    using that problems_listed [of "\<lparr>Key = key, Problem = p\<rparr>" lookup] by auto
  show ?thesis
  proof (cases "?ps = []")
    case True
    then have "variable_problem k (get lookup key) = None" if "(key, k) \<in> set settings" for key k
      using own [OF that] by (cases "variable_problem k (get lookup key)") auto
    then show ?thesis using load ok [OF True] True by (simp add: Let_def del: append_is_Nil_conv)
  next
    case False
    have "Key e \<in> {''TICK_REDIS_URL'', ''TICK_HEARTBEAT_TTL''} \<or> (\<exists>k. (Key e, k) \<in> set settings
        \<and> variable_problem k (get lookup (Key e)) = Some (Problem e))" if "e \<in> set ?ps" for e
      using that ttl problems_listed [of e lookup]
      by (auto simp: redis_problem_def split: if_splits)
    moreover have "sort_key Key ?ps \<noteq> []" using False by (metis length_sort length_0_conv)
    ultimately show ?thesis
      using load False own by (simp add: Let_def del: append_is_Nil_conv)
  qed
qed

lemma load_reports_every_problem_witness:
  "\<exists>c. Load (\<lambda>k. if k = ''TICK_DATABASE_URL'' then Some ''postgres://db'' else None) = Inr c
    \<and> cf_ClaimBatch c \<le> 1000"
proof -
  let ?env = "\<lambda>k. if k = ''TICK_DATABASE_URL'' then Some ''postgres://db'' else None"
  have "\<not> isl (Load ?env)" by code_simp
  then obtain c where "Load ?env = Inr c" by (metis sum.collapse(2))
  with load_reports_every_problem [of ?env] show ?thesis by (auto simp: config_ok_def)
qed

end
