(* ===== verification/Postgres_Pool.thy ===== *)
theory Postgres_Pool
  imports Go_Duration
begin

text \<open>
  internal/store/postgres/postgres.go: opening the pool, with a bounded number of pings and a
  doubling delay between them, and closing it. The driver is a parameter: what parsing the
  URL and building the pool answer, what each ping answers, and whether the context ends
  during a wait.
\<close>

section \<open>Configuration\<close>

record pool_config =
  MaxConns :: int
  MinConns :: int
  MaxConnLifetime :: nanos
  HealthCheckPeriod :: nanos

definition pool_DefaultConfig :: pool_config where
  "pool_DefaultConfig =
    \<lparr>MaxConns = 20, MinConns = 2, MaxConnLifetime = 30 * ns_minute, HealthCheckPeriod = ns_minute\<rparr>"

definition pingAttempts :: nat where
  "pingAttempts = 5"

definition pingBaseDelay :: nanos where
  "pingBaseDelay = 200 * ns_millisecond"

section \<open>Opening and closing\<close>

text \<open>
  ping k is what the ping of attempt k answers, done k the context's error if it ends while
  attempt k waits. The loop returns how long it waited and the error.
\<close>

definition ping_delay :: "nat \<Rightarrow> nanos" where
  "ping_delay attempt = pingBaseDelay * 2 ^ (attempt - 1)"

fun ping_loop :: "(nat \<Rightarrow> string option) \<Rightarrow> (nat \<Rightarrow> string option) \<Rightarrow> nat \<Rightarrow> nat \<Rightarrow> string
    \<Rightarrow> nanos \<times> string option" where
  "ping_loop ping done_at attempt 0 lastErr =
    (0, Some (''pinging database after '' @ Itoa (int pingAttempts) @ '' attempts: '' @ lastErr))"
| "ping_loop ping done_at attempt (Suc left) lastErr =
    (let waited = (if 0 < attempt then ping_delay attempt else 0)
     in case (if 0 < attempt then done_at attempt else None) of
          Some err \<Rightarrow> (0, Some (''waiting to retry ping: '' @ err))
        | None \<Rightarrow>
            (case ping attempt of
               None \<Rightarrow> (waited, None)
             | Some err \<Rightarrow>
                 (case ping_loop ping done_at (attempt + 1) left err of
                    (rest_waited, res) \<Rightarrow> (waited + rest_waited, res))))"

definition pingWithRetry :: "(nat \<Rightarrow> string option) \<Rightarrow> (nat \<Rightarrow> string option) \<Rightarrow> nanos \<times> string option" where
  "pingWithRetry ping done_at = ping_loop ping done_at 0 pingAttempts []"

text \<open>
  New: the store with the settings its pool got, or the error. The last component says
  whether a pool was built and closed again.
\<close>

record pool =
  pool_url :: string
  pool_settings :: pool_config

definition New_store :: "(string \<Rightarrow> string option) \<Rightarrow> (pool \<Rightarrow> string option) \<Rightarrow> (nat \<Rightarrow> string option)
    \<Rightarrow> (nat \<Rightarrow> string option) \<Rightarrow> string \<Rightarrow> pool_config \<Rightarrow> (string + pool) \<times> bool" where
  "New_store ParseConfig NewWithConfig ping done_at databaseURL cfg =
    (case ParseConfig databaseURL of
       Some err \<Rightarrow> (Inl (''parsing database url: '' @ err), False)
     | None \<Rightarrow>
         (let p = \<lparr>pool_url = databaseURL, pool_settings = cfg\<rparr>
          in case NewWithConfig p of
               Some err \<Rightarrow> (Inl (''building connection pool: '' @ err), False)
             | None \<Rightarrow>
                 (case pingWithRetry ping done_at of
                    (_, Some err) \<Rightarrow> (Inl err, True)
                  | (_, None) \<Rightarrow> (Inr p, False))))"

text \<open>Close: the pool may be absent, and closing a closed one does nothing more.\<close>

definition Close :: "bool option \<Rightarrow> bool option" where
  "Close pool_open = (case pool_open of None \<Rightarrow> None | Some _ \<Rightarrow> Some False)"

lemma Close_twice: "Close (Close p) = Close p"
  by (simp add: Close_def split: option.splits)

section \<open>It tries five times and waits three seconds at most\<close>

lemma ping_delays: "map ping_delay [1..<5] = map (\<lambda>k. k * 200 * ns_millisecond) [1, 2, 4, 8]"
  by (simp add: ping_delay_def pingBaseDelay_def upt_rec)

lemma ping_loop_ok:
  "snd (ping_loop ping done_at a n e) = None \<longleftrightarrow>
    (\<exists>k < n. ping (a + k) = None \<and> (\<forall>j \<le> k. 0 < a + j \<longrightarrow> done_at (a + j) = None))"
proof (induction n arbitrary: a e)
  case (Suc n)
  have split: "(\<exists>k < Suc n. P k) \<longleftrightarrow> P 0 \<or> (\<exists>k < n. P (Suc k))" for P
    using less_Suc_eq_0_disj by auto
  have all: "(\<forall>j \<le> Suc k. Q j) \<longleftrightarrow> Q 0 \<and> (\<forall>j \<le> k. Q (Suc j))" for Q k
    by (metis Suc_le_mono le0 not0_implies_Suc)
  have rec: "snd (ping_loop ping done_at (a + 1) n e') = None \<longleftrightarrow>
      (\<exists>k < n. ping (a + Suc k) = None \<and> (\<forall>j \<le> k. done_at (a + Suc j) = None))" for e'
    using Suc.IH [of "a + 1" e'] by simp
  show ?case
    unfolding split all using rec
    by (cases "0 < a"; cases "done_at a"; cases "ping a") (simp_all add: Let_def split_beta)
qed simp

lemma ping_delay_nonneg: "0 \<le> ping_delay k"
  by (simp add: ping_delay_def pingBaseDelay_def ns_millisecond_def)

lemma ping_loop_bound:
  "fst (ping_loop ping done_at a n e) \<le> sum_list (map (\<lambda>k. if 0 < k then ping_delay k else 0) [a..<a + n])"
proof (induction n arbitrary: a e)
  case (Suc n)
  let ?d = "\<lambda>k. if 0 < k then ping_delay k else 0"
  have tail: "0 \<le> sum_list (map ?d ks)" for ks
    using ping_delay_nonneg by (induction ks) auto
  have upt: "[a..<a + Suc n] = a # [a + 1..<a + 1 + n]" by (simp add: upt_rec)
  show ?case
    unfolding upt using Suc.IH [of "a + 1"] ping_delay_nonneg [of a] tail [of "[a + 1..<a + 1 + n]"]
    by (cases "0 < a"; cases "done_at a"; cases "ping a") (simp_all add: Let_def split_beta)
qed simp

text \<open>
  The store opens exactly when the URL parses, the pool is built and one of the first five
  pings succeeds before the context ends; it waits three seconds at most, and a pool it gives
  up on is closed.
\<close>

lemma New_store_opens:
  "(\<exists>p. New_store ParseConfig NewWithConfig ping done_at url cfg = (Inr p, False)) \<longleftrightarrow>
    ParseConfig url = None \<and> NewWithConfig \<lparr>pool_url = url, pool_settings = cfg\<rparr> = None
    \<and> (\<exists>k < 5. ping k = None \<and> (\<forall>j \<le> k. 0 < j \<longrightarrow> done_at j = None))"
proof -
  have "snd (pingWithRetry ping done_at) = None \<longleftrightarrow>
      (\<exists>k < 5. ping k = None \<and> (\<forall>j \<le> k. 0 < j \<longrightarrow> done_at j = None))"
    using ping_loop_ok [of ping done_at 0 5 "[]"] by (simp add: pingWithRetry_def pingAttempts_def)
  moreover obtain w r where "pingWithRetry ping done_at = (w, r)" by fastforce
  ultimately show ?thesis
    by (cases "ParseConfig url"; cases "NewWithConfig \<lparr>pool_url = url, pool_settings = cfg\<rparr>"; cases r)
      (simp_all add: New_store_def Let_def)
qed

lemma pingWithRetry_bound: "fst (pingWithRetry ping done_at) \<le> 3 * ns_second"
  using ping_loop_bound [of ping done_at 0 5 "[]"]
  by (simp add: pingWithRetry_def pingAttempts_def upt_rec ping_delay_def pingBaseDelay_def
      ns_second_def ns_millisecond_def)

end
