(* ===== verification/Commands.thy ===== *)
theory Commands
  imports Scheduler Config_Facts Postgres_Pool Api Obs_Log Go_JSON_Print
begin

text \<open>
  The three binaries: cmd/tick-worker with its handlers and internal/worker/identity.go,
  cmd/tick-api and cmd/tick-scheduler. Each run is a function of the environment, of what
  opening the store and the listener answer, and of what happens while its loops wait; the
  signal is the end of the loops' waits.
\<close>

section \<open>Handlers (handlers.go)\<close>

definition noopHandler :: handler where
  "noopHandler t = Returned"

text \<open>A payload of one integer field; None where it does not decode.\<close>

definition int_payload :: "string \<Rightarrow> string \<Rightarrow> int option" where
  "int_payload name payload =
    Option.bind (unmarshal_value payload)
      (decode_struct [name] (\<lambda>old _ v raw. decode_int old v) 0)"

definition sleep_duration :: "Task \<Rightarrow> nanos" where
  "sleep_duration t =
    (case t_payload t of
       Some (c # cs) \<Rightarrow>
         (case int_payload ''duration_ms'' (c # cs) of
            Some ms \<Rightarrow> if 0 < ms then int64 (ms * ns_millisecond) else 100 * ns_millisecond
          | None \<Rightarrow> 100 * ns_millisecond)
     | _ \<Rightarrow> 100 * ns_millisecond)"

text \<open>ctx_err d is the context's error if it ends before d has passed.\<close>

definition sleepHandler :: "(nanos \<Rightarrow> string option) \<Rightarrow> handler" where
  "sleepHandler ctx_err t =
    (case ctx_err (sleep_duration t) of None \<Rightarrow> Returned | Some err \<Rightarrow> ReturnedError err)"

definition fail_times :: "Task \<Rightarrow> int" where
  "fail_times t =
    (case t_payload t of
       Some (c # cs) \<Rightarrow> (case int_payload ''fail_times'' (c # cs) of Some n \<Rightarrow> n | None \<Rightarrow> 2)
     | _ \<Rightarrow> 2)"

definition flakyHandler :: handler where
  "flakyHandler t =
    (if t_attempts t \<le> fail_times t then ReturnedError ''flaky: simulated failure'' else Returned)"

section \<open>Identity (identity.go)\<close>

text \<open>The host name or nothing, the process id, and four random bytes or nothing.\<close>

definition hex_byte :: "char \<Rightarrow> string" where
  "hex_byte c = [hex_digit (of_char c div 16), hex_digit (of_char c mod 16)]"

definition shortID :: "string option \<Rightarrow> string" where
  "shortID random = (case random of None \<Rightarrow> ''00000000'' | Some bs \<Rightarrow> concat (map hex_byte bs))"

definition Identity :: "string option \<Rightarrow> nat \<Rightarrow> string option \<Rightarrow> string" where
  "Identity hostname pid random =
    (case hostname of None \<Rightarrow> ''unknown-host'' | Some [] \<Rightarrow> ''unknown-host'' | Some h \<Rightarrow> h)
    @ ''/'' @ Itoa (int pid) @ ''/'' @ shortID random"

section \<open>Starting (main.go)\<close>

definition startup :: "LookupFunc \<Rightarrow> (string \<Rightarrow> pool_config \<Rightarrow> string + pool) \<Rightarrow> string + Config \<times> pool" where
  "startup env New =
    (case FromEnv env of
       Inl ps \<Rightarrow> Inl (ValidationError_Error ps)
     | Inr cfg \<Rightarrow>
         (case New (cf_DatabaseURL cfg) pool_DefaultConfig of
            Inl err \<Rightarrow> Inl (''connecting to postgres: '' @ err)
          | Inr p \<Rightarrow> Inr (cfg, p)))"

text \<open>main: the exit status and what goes to the error output.\<close>

definition exit_with :: "string \<Rightarrow> string + 'a \<Rightarrow> int \<times> string" where
  "exit_with name r = (case r of Inl err \<Rightarrow> (1, name @ '': '' @ err @ [CHR 0x0A]) | Inr _ \<Rightarrow> (0, []))"

definition worker_registry :: "(nanos \<Rightarrow> string option) \<Rightarrow> registry option" where
  "worker_registry ctx_err =
    Option.bind (Register NewRegistry ''noop'' noopHandler) (\<lambda>r1.
    Option.bind (Register r1 ''sleep'' (sleepHandler ctx_err)) (\<lambda>r2.
    Register r2 ''flaky'' flakyHandler))"

definition worker_settings :: "Config \<Rightarrow> worker_config" where
  "worker_settings cfg =
    \<lparr>c_Queue = cf_Queue cfg, c_ClaimBatch = nat (cf_ClaimBatch cfg),
     c_Concurrency = nat (cf_Concurrency cfg), c_HeartbeatInterval = cf_HeartbeatInterval cfg,
     c_TaskTimeout = cf_TaskTimeout cfg, c_ShutdownGrace = cf_ShutdownGrace cfg\<rparr>"

text \<open>
  The worker: its loop over the store with the handlers registered; None where registering
  panics. What goes on during the waits knows the registry, since the dispatches use it.
\<close>

type_synonym 'st joint = "'st \<times> worker_state"

definition tick_worker_run :: "LookupFunc \<Rightarrow> (string \<Rightarrow> pool_config \<Rightarrow> string + pool)
    \<Rightarrow> (nanos \<Rightarrow> string option) \<Rightarrow> 'st worker_store \<Rightarrow> string \<Rightarrow> bool \<Rightarrow> (registry \<Rightarrow> 'st joint \<Rightarrow> 'st joint)
    \<Rightarrow> (registry \<Rightarrow> ('st joint \<Rightarrow> 'st joint) list) \<Rightarrow> 'st \<Rightarrow> string + 'st joint option" where
  "tick_worker_run env New ctx_err store wid elapsed grace waits st =
    (case startup env New of
       Inl err \<Rightarrow> Inl err
     | Inr (cfg, p) \<Rightarrow>
         Inr (map_option (\<lambda>reg. worker_Run store (worker_settings cfg) wid elapsed (grace reg) (waits reg)
                (st, New_worker)) (worker_registry ctx_err)))"

text \<open>
  The scheduler: both loops until the signal, with the sweeper's first delay drawn before its
  first sweep; None where drawing it panics or a pass never ends.
\<close>

definition tick_scheduler_run :: "LookupFunc \<Rightarrow> (string \<Rightarrow> pool_config \<Rightarrow> string + pool) \<Rightarrow> 'spec cron_env
    \<Rightarrow> 'st mat_store \<Rightarrow> 'st recoverer \<Rightarrow> int \<Rightarrow> 'st scheduler_event list \<Rightarrow> 'st
    \<Rightarrow> string + ('st \<times> log_entry list) option" where
  "tick_scheduler_run env New e store rc random evs st =
    (case startup env New of
       Inl err \<Rightarrow> Inl err
     | Inr (cfg, p) \<Rightarrow>
         (let sw = New_sweeper rc (cf_SweepInterval cfg) (Some (NoopMetrics :: unit Metrics));
              m = New_runner (cf_MaterializerHorizon cfg) (cf_MaterializerInterval cfg)
          in Inr (Option.bind (firstDelay (sw_interval sw) random) (\<lambda>delay.
               map_option (\<lambda>(st', logs, _). (st', logs)) (scheduler_loops e store sw m evs (st, [], ()))))))"

text \<open>
  The API: either the listener stops first, with its error, or the signal comes first and the
  server is given the grace period to shut down, which may fail.
\<close>

datatype api_end = ServeStopped string | Signalled "nanos \<Rightarrow> string option"

definition ErrServerClosed :: string where
  "ErrServerClosed = ''http: Server closed''"

definition tick_api_run :: "LookupFunc \<Rightarrow> (string \<Rightarrow> pool_config \<Rightarrow> string + pool)
    \<Rightarrow> (http_server \<Rightarrow> api_end) \<Rightarrow> string + unit" where
  "tick_api_run env New listen =
    (case startup env New of
       Inl err \<Rightarrow> Inl err
     | Inr (cfg, p) \<Rightarrow>
         (case listen (HTTPServer server_DefaultConfig (cf_HTTPAddr cfg)) of
            ServeStopped err \<Rightarrow>
              if err = ErrServerClosed then Inr () else Inl (''serving http: '' @ err)
          | Signalled Shutdown \<Rightarrow>
              (case Shutdown (cf_ShutdownGrace cfg) of
                 None \<Rightarrow> Inr ()
               | Some err \<Rightarrow> Inl (''shutting down http server: '' @ err))))"

definition tick_worker_main where
  "tick_worker_main env New ctx_err store wid elapsed grace waits st =
    exit_with ''tick-worker'' (tick_worker_run env New ctx_err store wid elapsed grace waits st)"

definition tick_scheduler_main where
  "tick_scheduler_main env New e store rc random evs st =
    exit_with ''tick-scheduler'' (tick_scheduler_run env New e store rc random evs st)"

definition tick_api_main where
  "tick_api_main env New listen = exit_with ''tick-api'' (tick_api_run env New listen)"

section \<open>What a started process has\<close>

text \<open>A bad environment ends a command with status 1 and every problem on its error output.\<close>

lemma bad_environment_exits:
  assumes "FromEnv env = Inl ps"
  shows "tick_api_main env New listen = (1, ''tick-api: '' @ ValidationError_Error ps @ [CHR 0x0A])"
    and "tick_scheduler_main env New e store rc random evs st
      = (1, ''tick-scheduler: '' @ ValidationError_Error ps @ [CHR 0x0A])"
    and "tick_worker_main env New ctx_err wstore wid elapsed grace waits wst
      = (1, ''tick-worker: '' @ ValidationError_Error ps @ [CHR 0x0A])"
  using assms
  by (simp_all add: tick_api_main_def tick_scheduler_main_def tick_worker_main_def exit_with_def
      tick_api_run_def tick_scheduler_run_def tick_worker_run_def startup_def)

lemma worker_registry_complete:
  "\<exists>r. worker_registry ctx_err = Some r \<and> dom r = {''noop'', ''sleep'', ''flaky''}"
  by (auto simp: worker_registry_def Register_def NewRegistry_def)

lemma load_ok: "Load env = Inr c \<Longrightarrow> config_ok c"
  by (rule Load_cases [of env]) (auto simp: Let_def split: if_splits)

lemma startup_config_ok: "startup env New = Inr (cfg, p) \<Longrightarrow> config_ok cfg"
  using load_ok [of env cfg] by (auto simp: startup_def FromEnv_def split: sum.splits)

lemma worker_settings_ok:
  "config_ok cfg \<Longrightarrow> 1 \<le> c_ClaimBatch (worker_settings cfg) \<and> 1 \<le> c_Concurrency (worker_settings cfg)
    \<and> c_Queue (worker_settings cfg) \<noteq> [] \<and> 0 < c_HeartbeatInterval (worker_settings cfg)
    \<and> 0 < c_TaskTimeout (worker_settings cfg)"
  by (simp add: config_ok_def worker_settings_def Suc_le_eq)

text \<open>
  The worker command never panics: once the store is open it has every handler, and its state
  at the end is one of those a worker with its settings goes through.
\<close>

lemma started_worker_runs:
  assumes "startup env New = Inr (cfg, p)" and "reachable d"
    and "\<And>reg s. worker_run (worker_settings cfg) reg wid s \<Longrightarrow> worker_run (worker_settings cfg) reg wid (grace reg s)"
    and "\<And>reg s wait. wait \<in> set (waits reg) \<Longrightarrow> worker_run (worker_settings cfg) reg wid s \<Longrightarrow>
      worker_run (worker_settings cfg) reg wid (wait s)"
  shows "\<exists>reg s. tick_worker_run env New ctx_err (net_worker_store lk locked random) wid elapsed grace waits d
      = Inr (Some s) \<and> dom reg = {''noop'', ''sleep'', ''flaky''} \<and> worker_run (worker_settings cfg) reg wid s"
proof -
  obtain reg where reg: "worker_registry ctx_err = Some reg" "dom reg = {''noop'', ''sleep'', ''flaky''}"
    using worker_registry_complete by blast
  have "worker_run (worker_settings cfg) reg wid (d, New_worker)" by (rule worker_run.started [OF assms(2)])
  then have "worker_run (worker_settings cfg) reg wid
      (worker_Run (net_worker_store lk locked random) (worker_settings cfg) wid elapsed (grace reg) (waits reg) (d, New_worker))"
    by (rule worker_Run_is_run) (blast intro: assms(3,4))+
  with reg assms(1) show ?thesis
    by (auto simp: tick_worker_run_def)
qed


text \<open>The store opens at once, and nothing but the database URL is set.\<close>

definition sample_vars :: LookupFunc where
  "sample_vars k = (if k = ''TICK_DATABASE_URL'' then Some ''postgres://db'' else None)"

definition sample_open :: "string \<Rightarrow> pool_config \<Rightarrow> string + pool" where
  "sample_open url cfg = fst (New_store (\<lambda>_. None) (\<lambda>_. None) (\<lambda>_. None) (\<lambda>_. None) url cfg)"

lemma sample_startup: "\<exists>cfg p. startup sample_vars sample_open = Inr (cfg, p)"
proof -
  have "\<not> isl (Load sample_vars)" by code_simp
  then obtain c where c: "Load sample_vars = Inr c" by (metis sum.collapse(2))
  have "\<exists>k < (5::nat). True" by (rule exI [of _ "0::nat"]) simp
  then obtain p where "sample_open (cf_DatabaseURL c) pool_DefaultConfig = Inr p"
    using New_store_opens [of "\<lambda>_. None" "\<lambda>_. None" "\<lambda>_. None" "\<lambda>_. None"
        "cf_DatabaseURL c" pool_DefaultConfig]
    by (force simp: sample_open_def)
  then show ?thesis using c by (simp add: startup_def FromEnv_def)
qed


text \<open>A flaky task that has attempts enough fails as often as it says and then succeeds.\<close>

lemma flaky_succeeds_after:
  "flakyHandler t = Returned \<longleftrightarrow> fail_times t < t_attempts t"
  by (simp add: flakyHandler_def)

lemma flaky_payload_example:
  "int_payload ''fail_times'' ([CHR ''{'', CHR 0x22] @ ''fail_times'' @ [CHR 0x22] @ '': 3}'') = Some 3"
  by (simp add: int_payload_def unmarshal_value_def parse_value.simps parse_members.simps expect_def
      skip_space_def json_space_def scan_key_def byte_def scan_atom_def scan_number_def scan_int_def
      digits_then_def is_digit_def scan_frac_def scan_exp_def maxNestingDepth_def decode_struct_def
      field_for_def decode_int_def ParseInt_def Atoi_def digits_value_def)

section \<open>Identities tell processes apart\<close>

lemma hex_digit_inj: "m < 16 \<Longrightarrow> n < 16 \<Longrightarrow> hex_digit m = hex_digit n \<longleftrightarrow> m = n"
  by (metis hex_val_digit option.inject)

lemma hex_byte_inj: "hex_byte c = hex_byte d \<longleftrightarrow> c = d"
proof
  assume eq: "hex_byte c = hex_byte d"
  have bound: "(of_char x :: nat) div 16 < 16" for x
    by (simp add: less_mult_imp_div_less)
  from eq have "(of_char c :: nat) div 16 = of_char d div 16" "(of_char c :: nat) mod 16 = of_char d mod 16"
    using hex_digit_inj bound by (auto simp: hex_byte_def)
  then have "(of_char c :: nat) = of_char d" by (metis div_mult_mod_eq)
  then show "c = d" by simp
qed simp

lemma hex_bytes_inj: "length r = length r' \<Longrightarrow> concat (map hex_byte r) = concat (map hex_byte r') \<longleftrightarrow> r = r'"
proof (induction r r' rule: list_induct2)
  case (Cons x xs y ys)
  have "length (hex_byte x) = length (hex_byte y)" by (simp add: hex_byte_def)
  then show ?case using Cons hex_byte_inj by auto
qed simp

text \<open>
  Two identities with the same text have the same host, process id and random bytes, so a
  claim's owner is one process as long as the random bytes differ.
\<close>

lemma Identity_inj:
  assumes "length r = 4" and "length r' = 4" and "Identity h p (Some r) = Identity h' p' (Some r')"
  shows "p = p' \<and> r = r'"
proof -
  let ?host = "\<lambda>h. case h of None \<Rightarrow> ''unknown-host'' | Some [] \<Rightarrow> ''unknown-host'' | Some (c # cs) \<Rightarrow> c # cs"
  have len: "length (concat (map hex_byte x)) = 2 * length x" for x
    by (induction x) (simp_all add: hex_byte_def)
  have "(?host h @ ''/'' @ Itoa (int p) @ ''/'') @ concat (map hex_byte r)
      = (?host h' @ ''/'' @ Itoa (int p') @ ''/'') @ concat (map hex_byte r')"
    using assms(3) by (simp add: Identity_def shortID_def)
  then have "?host h @ ''/'' @ Itoa (int p) @ ''/'' = ?host h' @ ''/'' @ Itoa (int p') @ ''/''"
    and r: "concat (map hex_byte r) = concat (map hex_byte r')"
    using assms(1,2) append_eq_append_conv [of "?host h @ ''/'' @ Itoa (int p) @ ''/''"
        "?host h' @ ''/'' @ Itoa (int p') @ ''/''" "concat (map hex_byte r)" "concat (map hex_byte r')"]
    unfolding len by simp_all
  then have "rev (Itoa (int p)) @ CHR ''/'' # rev (?host h) = rev (Itoa (int p')) @ CHR ''/'' # rev (?host h')"
    using arg_cong [of "?host h @ ''/'' @ Itoa (int p) @ ''/''"
        "?host h' @ ''/'' @ Itoa (int p') @ ''/''" rev] by simp
  moreover have "CHR ''/'' \<notin> set (Itoa i)" for i
  proof
    assume "CHR ''/'' \<in> set (Itoa i)"
    then have "is_digit (CHR ''/'')" by (auto simp: Itoa_def split: if_splits dest: show_nat_digits)
    then show False by (simp add: is_digit_def)
  qed
  ultimately have "rev (Itoa (int p)) = rev (Itoa (int p'))" by (simp add: append_at_first)
  then have "p = p'" by (simp add: Itoa_inj)
  with r show ?thesis using assms(1,2) hex_bytes_inj by simp
qed

end
