(* ===== verification/Spec2Isabelle.thy ===== *)
theory Spec2Isabelle
  imports Queue_Refinement Concurrency Row_Scan Materializer_Fleet Migrate End_To_End Api_Log Commands
begin

text \<open>
  Tick: a task queue on Postgres, verified.

  Tick stores tasks in a Postgres table. Clients submit tasks and schedules over HTTP
  (internal/api); workers claim due tasks, run their handlers, heartbeat and report
  (internal/worker); a sweeper takes back the claims of workers that fell silent
  (internal/sweeper); a materializer turns cron schedules into tasks (internal/materializer,
  internal/cron). All of them meet in the methods of internal/store, which
  internal/store/postgres implements with one SQL statement or one transaction each. The
  processes share nothing but the database, so the store's methods are the steps of the whole
  system and their interleavings are its runs.

  The library, bottom up.

  \<^item> Tick_Prelude: tables as lists of rows, UPDATE ... WHERE, ORDER BY with LIMIT,
    unique keys.
  \<^item> Go_Strings, Go_Text, Go_Duration, Go_Time, Go_RFC3339: the part of Go's standard
    library the program calls. A string is a list of bytes; an instant is an integer count of
    the microseconds a timestamptz holds; a time.Duration is a 64-bit count of nanoseconds.
  \<^item> Domain (internal/domain) and Schema (internal/migrate/sql): tasks, schedules,
    sentinel errors; the two tables with their constraints and the server clock; the invariant
    db_inv. Row_Scan: what scanTask and scanSchedule ask of each column, against what the
    schema holds.
  \<^item> Enqueue, Enqueue_Bulk, Claiming, Claiming_Facts, Schedule_Store, Queue_Stats,
    Retry: internal/store/postgres and internal/retry, one definition per method, each shown
    to keep db_inv. The rows another transaction holds locked and random() are arguments.
  \<^item> Lifecycle: the methods as a step relation, the states they reach, runs with the
    attempts they hand out. Store_Properties: what each method does on every branch.
  \<^item> Store_Faults: the same methods over a connection that fails. Each round trip to the
    server is Fine, LostBefore (the statement never ran) or LostAfter (it ran, the answer is
    lost), and each method returns the error the Go code makes of it; with Fine throughout
    they are the methods above. Retried submissions are proved over these.
  \<^item> Queue_Refinement: the contract of internal/store/store.go as an abstract queue of
    jobs, and the proof that every call of the Postgres store is a call of it, with its
    answer.
  \<^item> Concurrency: claims that overlap in time, as FOR UPDATE SKIP LOCKED interleaves
    them.
  \<^item> Cron, Cron_Facts: Parse and NextN. The expression library (robfig/cron) and the
    zone database are parameters; of the library only next_ok is assumed, that the next fire
    time is later than the instant asked about and on a whole second.
  \<^item> Materializer, Materializer_Store: Plan, Materialize and RunOnce over the package's
    Store interface, the locale materializer_store, interpreted on the Postgres methods with
    their faults. Materializer_Fleet: any number of materializers, each working from a row it
    read earlier, interleaved with every other call.
  \<^item> Worker, Worker_Facts: the worker's shared state, its claim and heartbeat loops,
    dispatches and shutdown, and the sweeper with its Run, over the locales worker_store_laws
    and recoverer_laws, both interpreted on the Postgres methods with their faults;
    internal/obs metrics as a record of operations. What happens while a loop waits is an
    argument of it.
  \<^item> Config, Config_Facts: the loader in the state monad, as the code threads its
    problems.
  \<^item> Migrate: the embedded migrations and their application in one transaction.
  \<^item> Go_JSON, Go_JSON_Facts, Go_JSON_Print: encoding/json as the handlers use it to read
    a body: the grammar with its nesting limit, string escapes and UTF-8 repair, numbers, and
    how a value fills a struct; and a printer to state what reading it back gives.
    Go_JSON_Marshal, Go_JSON_Compact, Go_JSON_Raw, Go_JSON_Time, Go_JSON_Struct: the encoder:
    strings with their HTML escapes, raw messages with their space taken out, times, structs
    and slices, each with what a decoder reads of it.
  \<^item> Api, Api_Facts, Api_Bodies: validation, body decoding, handlers and routes over the
    locale api_store_laws, interpreted on the Postgres methods with their faults. A request
    carries its raw body. Api_Responses: the bytes of every response, by the struct tags.
    Api_Log: the access log of the middleware.
  \<^item> End_To_End: one task from the client's bytes through the store and a worker's
    dispatch to the bytes of a later GET, with every other node's calls in between.
  \<^item> Postgres_Pool (postgres.go): opening the pool with its ping retries. Obs_Log
    (obs/log.go): the attributes of a log line. Scheduler: the loops of cmd/tick-scheduler
    interleaved with each other and with every other node. Commands (cmd, worker/identity.go):
    each process from its environment to its exit, the worker's built-in handlers and its
    identity.

  What the theorems show. The store implements the abstract queue, call by call. Tasks: under
  any interleaving no attempt of a task is handed out twice nor beyond its maximum; every row
  stays on the status diagram; only the latest claimant can complete or fail a task; a
  recovery pass takes exactly the expired claims. Submissions: one task per queue and key, a
  repeated submission returns the first, also when it is repeated because the connection
  failed before or after the statement; a bulk submission is its single ones in order or
  nothing. Schedules: NextN and Plan end and leave out nothing but what their tests reject; no
  fire time is skipped however many materializers race; materializing again adds nothing.
  Worker: never above its concurrency; a dispatch settles its task; a heartbeat cancels
  exactly what was lost; a forced shutdown keeps no claim, and what a lost connection left
  claimed a sweep takes back. API: every request is answered with one JSON value or no bytes,
  no text of a store error reaches a client, each submission has the outcome stated, and a
  body a client wrote within the limit is read as what it meant; what GET shows of a task is
  that task. Across the parts: the handler is given the payload as it was sent, and once it
  returned while its worker held the claim, every later GET shows the task succeeded. Sweeper: it never panics, and its last sweep leaves no orphan however the other
  nodes interleave. Configuration: every problem is reported at once. Migrations: all or
  nothing.

  Loops. NextN's loop has no bound in the code: it is a partial function whose None means that
  it never returns, and it is shown to return for every library that keeps next_ok and every
  zone with finitely many transitions. All other loops are structural or have a measure; no
  fuel is used.

  Not modelled. The words of a decoder error, which are a parameter. The text of driver
  errors, a parameter of each fault. The request timeout (chi's, which cancels a context) and
  the bytes of log lines. Wall-clock scheduling of timers and tickers: a wait is an arbitrary
  change of the rest of the system. Delivery of signals and the HTTP listener itself, whose
  outcomes are arguments of the commands. internal/store/redishybrid, which is only a comment.
\<close>

end
